(* ===== verification/Prelude.thy ===== *)
theory Prelude
  imports Complex_Main "HOL-Library.Word" "HOL-Library.AList" "HOL-Library.Sublist"
begin

text \<open>
  Shared vocabulary of the development: Python's \<open>str\<close> (a list of code points),
  \<open>bytes\<close> (a list of 8-bit words), exceptions, operations that may raise after they
  have changed the state, \<open>for\<close> loops over such operations, dictionaries as
  association lists in insertion order, and the printing of integers. The collections
  \<open>op_simps\<close> and \<open>text_simps\<close> carry the component proofs.
\<close>

named_theorems op_simps \<open>unfolding of operations that may raise\<close>
named_theorems text_simps \<open>evaluation of text constants and formatted strings\<close>

section \<open>Text and bytes\<close>

type_synonym str = "int list"
type_synonym byte = "8 word"
type_synonym bytes = "8 word list"

text \<open>A Python string literal: the code points of its characters.\<close>

definition lit :: "string \<Rightarrow> str" where
  "lit s = map of_char s"

lemma lit_eq_iff [simp, text_simps]: "lit s = lit t \<longleftrightarrow> s = t"
  by (simp add: lit_def inj_map_eq_map inj_on_def)

lemma lit_Nil_iff [simp]: "lit s = [] \<longleftrightarrow> s = []" "[] = lit s \<longleftrightarrow> s = []"
  by (auto simp: lit_def)

lemma lit_append: "lit (s @ t) = lit s @ lit t"
  by (simp add: lit_def)

lemma length_lit [simp]: "length (lit s) = length s"
  by (simp add: lit_def)

section \<open>Exceptions and operations\<close>

text \<open>
  An operation takes a state and returns the value or the exception together with the
  state, so that what was changed before the exception stays changed, as in Python.
\<close>

datatype py_error =
    ValueError | TypeError | RuntimeError | IndexError | KeyError | StructError
  | OverflowError | ZeroDivisionError | FileNotFoundError | SystemExit int | QueueFull | DecodeError | CalledProcessError
  | EOFError | KeyboardInterrupt

type_synonym ('s, 'a) op = "'s \<Rightarrow> (py_error + 'a) \<times> 's"

definition ret :: "'a \<Rightarrow> ('s, 'a) op" where
  "ret x = (\<lambda>s. (Inr x, s))"

definition raise_err :: "py_error \<Rightarrow> ('s, 'a) op" where
  "raise_err e = (\<lambda>s. (Inl e, s))"

definition and_then :: "('s, 'a) op \<Rightarrow> ('a \<Rightarrow> ('s, 'b) op) \<Rightarrow> ('s, 'b) op" where
  "and_then m k = (\<lambda>s. case m s of (Inl e, s') \<Rightarrow> (Inl e, s') | (Inr x, s') \<Rightarrow> k x s')"

definition change :: "('s \<Rightarrow> 's) \<Rightarrow> ('s, unit) op" where
  "change f = (\<lambda>s. (Inr (), f s))"

definition ask :: "('s \<Rightarrow> 'a) \<Rightarrow> ('s, 'a) op" where
  "ask f = (\<lambda>s. (Inr (f s), s))"

text \<open>A \<open>for\<close> loop: the first exception ends it.\<close>

fun for_each :: "('x \<Rightarrow> ('s, unit) op) \<Rightarrow> 'x list \<Rightarrow> ('s, unit) op" where
  "for_each f [] = ret ()"
| "for_each f (x # xs) = and_then (f x) (\<lambda>_. for_each f xs)"

lemma ret_apply [op_simps]: "ret x s = (Inr x, s)"
  by (simp add: ret_def)

lemma raise_err_apply [op_simps]: "raise_err e s = (Inl e, s)"
  by (simp add: raise_err_def)

lemma change_apply [op_simps]: "change f s = (Inr (), f s)"
  by (simp add: change_def)

lemma ask_apply [op_simps]: "ask f s = (Inr (f s), s)"
  by (simp add: ask_def)

lemma and_then_Inr [simp]: "m s = (Inr x, s') \<Longrightarrow> and_then m k s = k x s'"
  by (simp add: and_then_def)

lemma and_then_Inl [simp]: "m s = (Inl e, s') \<Longrightarrow> and_then m k s = (Inl e, s')"
  by (simp add: and_then_def)

lemma and_then_apply [op_simps]:
  "and_then m k s = (case m s of (Inl e, s') \<Rightarrow> (Inl e, s') | (Inr x, s') \<Rightarrow> k x s')"
  by (simp add: and_then_def)

lemma and_then_ret [simp]: "and_then (ret x) k = k x"
  by (simp add: fun_eq_iff op_simps)

lemma and_then_raise_err [simp]: "and_then (raise_err e) k = raise_err e"
  by (simp add: fun_eq_iff op_simps)

lemma and_then_assoc: "and_then (and_then m k) l = and_then m (\<lambda>x. and_then (k x) l)"
  by (simp add: fun_eq_iff and_then_def split: prod.splits sum.splits)

lemma for_each_append:
  "for_each f (xs @ ys) = and_then (for_each f xs) (\<lambda>_. for_each f ys)"
  by (induction xs) (simp_all add: and_then_assoc)

text \<open>An invariant of the body is an invariant of the loop, however the loop ends.\<close>

lemma for_each_inv:
  assumes "\<And>x s. x \<in> set xs \<Longrightarrow> P s \<Longrightarrow> P (snd (f x s))" and "P s"
  shows "P (snd (for_each f xs s))"
  using assms
proof (induction xs arbitrary: s)
  case Nil
  then show ?case by (simp add: op_simps)
next
  case (Cons x xs)
  obtain r s1 where fx: "f x s = (r, s1)" by (cases "f x s")
  have "P s1" using Cons.prems(1) [of x s] Cons.prems(2) fx by simp
  moreover have "P (snd (for_each f xs s1))" if "P s1"
    using Cons.IH [OF Cons.prems(1) that] by simp
  ultimately show ?case
    by (cases r) (simp_all add: and_then_apply fx)
qed

text \<open>A loop whose body never raises folds the body's effect over the list.\<close>

lemma for_each_total:
  assumes "\<And>x s. x \<in> set xs \<Longrightarrow> P s \<Longrightarrow> f x s = (Inr (), g x s)"
    and "\<And>x s. x \<in> set xs \<Longrightarrow> P s \<Longrightarrow> P (g x s)" and "P s"
  shows "for_each f xs s = (Inr (), fold g xs s)"
  using assms
proof (induction xs arbitrary: s)
  case Nil
  then show ?case by (simp add: op_simps)
next
  case (Cons x xs)
  have "f x s = (Inr (), g x s)" and "P (g x s)"
    using Cons.prems by simp_all
  with Cons show ?case by simp
qed

text \<open>
  A method of an object works on the object's attributes and the state around it:
  \<open>own\<close> changes the attributes, \<open>look\<close> reads them, \<open>outside\<close> runs an operation of the
  surrounding state.
\<close>

definition outside :: "('w, 'a) op \<Rightarrow> ('c \<times> 'w, 'a) op" where
  "outside m = (\<lambda>(c, w). case m w of (r, w') \<Rightarrow> (r, (c, w')))"

definition own :: "('c \<Rightarrow> 'c) \<Rightarrow> ('c \<times> 'w, unit) op" where
  "own f = change (\<lambda>(c, w). (f c, w))"

definition look :: "('c \<Rightarrow> 'a) \<Rightarrow> ('c \<times> 'w, 'a) op" where
  "look f = ask (\<lambda>(c, w). f c)"

lemma outside_apply [op_simps]: "outside m (c, w) = (fst (m w), (c, snd (m w)))"
  by (simp add: outside_def split: prod.splits)

lemma own_apply [op_simps]: "own f (c, w) = (Inr (), (f c, w))"
  by (simp add: own_def change_def)

lemma look_apply [op_simps]: "look f (c, w) = (Inr (f c), (c, w))"
  by (simp add: look_def ask_def)

lemma for_each_outside:
  "for_each (\<lambda>x. outside (f x)) xs (c, w) = (fst (for_each f xs w), (c, snd (for_each f xs w)))"
  by (induction xs arbitrary: w) (simp_all add: op_simps split: prod.splits sum.splits)

lemma for_each_map: "for_each f (map g xs) = for_each (\<lambda>x. f (g x)) xs"
  by (induction xs) simp_all

text \<open>Running a method of an object stored in an attribute.\<close>

definition on_part :: "('c \<Rightarrow> 'd) \<Rightarrow> ('d \<Rightarrow> 'c \<Rightarrow> 'c) \<Rightarrow> ('d \<times> 'w, 'a) op \<Rightarrow> ('c \<times> 'w, 'a) op" where
  "on_part get put m = (\<lambda>(c, w). case m (get c, w) of (r, (d, w')) \<Rightarrow> (r, (put d c, w')))"

lemma on_part_apply [op_simps]:
  "on_part get put m (c, w) = (case m (get c, w) of (r, (d, w')) \<Rightarrow> (r, (put d c, w')))"
  by (simp add: on_part_def)

section \<open>Dictionaries\<close>

text \<open>
  A Python dictionary keeps its keys in insertion order, and storing at a present key
  changes the value in place: an association list with \<open>AList.update\<close> and
  \<open>AList.delete\<close>. \<open>dict_store\<close> is what the detectors rely on.
\<close>

type_synonym ('k, 'v) dict = "('k \<times> 'v) list"

definition dict_get :: "('k, 'v) dict \<Rightarrow> 'k \<Rightarrow> 'v option" where
  "dict_get d k = map_of d k"

definition dict_set :: "'k \<Rightarrow> 'v \<Rightarrow> ('k, 'v) dict \<Rightarrow> ('k, 'v) dict" where
  "dict_set k v d = AList.update k v d"

definition dict_del :: "'k \<Rightarrow> ('k, 'v) dict \<Rightarrow> ('k, 'v) dict" where
  "dict_del k d = AList.delete k d"

definition dict_keys :: "('k, 'v) dict \<Rightarrow> 'k list" where
  "dict_keys d = map fst d"

definition dict_ok :: "('k, 'v) dict \<Rightarrow> bool" where
  "dict_ok d \<longleftrightarrow> distinct (map fst d)"

locale dict_store =
  fixes empty :: "'d"
    and get :: "'d \<Rightarrow> 'k \<Rightarrow> 'v option"
    and put :: "'k \<Rightarrow> 'v \<Rightarrow> 'd \<Rightarrow> 'd"
    and del :: "'k \<Rightarrow> 'd \<Rightarrow> 'd"
  assumes get_empty: "get empty k = None"
    and get_put: "get (put k v d) k' = (if k' = k then Some v else get d k')"
    and get_del: "get (del k d) k' = (if k' = k then None else get d k')"
begin

lemma get_put_same: "get (put k v d) k = Some v"
  by (simp add: get_put)

lemma get_put_other: "k' \<noteq> k \<Longrightarrow> get (put k v d) k' = get d k'"
  by (simp add: get_put)

lemma get_del_same: "get (del k d) k = None"
  by (simp add: get_del)

lemma get_put_put: "get (put k w (put k v d)) = get (put k w d)"
  by (simp add: fun_eq_iff get_put)

lemma get_put_swap: "k \<noteq> k' \<Longrightarrow> get (put k v (put k' w d)) = get (put k' w (put k v d))"
  by (auto simp: fun_eq_iff get_put)

text \<open>A fold of updates at other keys leaves the entry of \<open>k\<close> alone.\<close>

lemma get_fold_other:
  "(\<And>x d. x \<in> set xs \<Longrightarrow> get (f x d) k = get d k) \<Longrightarrow> get (fold f xs d) k = get d k"
  by (induction xs arbitrary: d) simp_all

end

interpretation py_dict: dict_store "[]" dict_get dict_set dict_del
  by unfold_locales
    (simp_all add: dict_get_def dict_set_def dict_del_def update_conv' delete_conv')

lemmas dict_get_simps [simp] = py_dict.get_empty py_dict.get_put py_dict.get_del

lemma dict_ok_Nil [simp, intro]: "dict_ok []"
  by (simp add: dict_ok_def)

lemma dict_ok_set [simp, intro]: "dict_ok d \<Longrightarrow> dict_ok (dict_set k v d)"
  by (simp add: dict_ok_def dict_set_def distinct_update)

lemma dict_ok_del [simp, intro]: "dict_ok d \<Longrightarrow> dict_ok (dict_del k d)"
  by (simp add: dict_ok_def dict_del_def distinct_delete)

lemma dict_get_in_set: "dict_ok d \<Longrightarrow> dict_get d k = Some v \<longleftrightarrow> (k, v) \<in> set d"
  by (simp add: dict_ok_def dict_get_def)

lemma dict_get_None: "dict_get d k = None \<longleftrightarrow> k \<notin> fst ` set d"
  by (simp add: dict_get_def map_of_eq_None_iff)

lemma dict_keys_set: "set (dict_keys (dict_set k v d)) = insert k (set (dict_keys d))"
  by (auto simp: dict_keys_def dict_set_def dom_update)

section \<open>Printing integers\<close>

text \<open>
  \<open>digits_in b n\<close> is the numeral of \<open>n\<close> in base \<open>b\<close>, most significant digit
  first; \<open>dec\<close> and \<open>hex\<close> print an integer the way \<open>str\<close> and Python's
  \<open>hex\<close> do.
\<close>

function digits_in :: "int \<Rightarrow> int \<Rightarrow> int list" where
  "digits_in b n = (if n < b \<or> b < 2 then [n] else digits_in b (n div b) @ [n mod b])"
  by pat_completeness auto
termination
  by (relation "measure (\<lambda>(b, n). nat n)") (auto simp: int_div_less_self)

declare digits_in.simps [simp del]

definition digit_char :: "int \<Rightarrow> int" where
  "digit_char d = (if d < 10 then 48 + d else 87 + d)"

definition dec :: "int \<Rightarrow> str" where
  "dec i = (if i < 0 then lit ''-'' @ map digit_char (digits_in 10 (- i))
            else map digit_char (digits_in 10 i))"

definition hex :: "int \<Rightarrow> str" where
  "hex i = (if i < 0 then lit ''-0x'' @ map digit_char (digits_in 16 (- i))
            else lit ''0x'' @ map digit_char (digits_in 16 i))"

definition digits_value :: "int \<Rightarrow> int list \<Rightarrow> int" where
  "digits_value b ds = foldl (\<lambda>acc d. acc * b + d) 0 ds"

lemma digits_value_digits_in: "2 \<le> b \<Longrightarrow> digits_value b (digits_in b n) = n"
proof (induction b n rule: digits_in.induct)
  case (1 b n)
  show ?case
  proof (cases "n < b")
    case True
    then show ?thesis by (subst digits_in.simps) (simp add: digits_value_def)
  next
    case False
    with "1.prems" "1.IH" have "digits_value b (digits_in b (n div b)) = n div b" by simp
    with False "1.prems" show ?thesis
      by (subst digits_in.simps) (simp add: digits_value_def)
  qed
qed

lemma digits_in_bounds: "2 \<le> b \<Longrightarrow> 0 \<le> n \<Longrightarrow> d \<in> set (digits_in b n) \<Longrightarrow> 0 \<le> d \<and> d < b"
proof (induction b n rule: digits_in.induct)
  case (1 b n)
  show ?case
  proof (cases "n < b")
    case True
    with "1.prems" show ?thesis by (simp add: digits_in.simps [of b n])
  next
    case False
    with "1.prems" have "d \<in> set (digits_in b (n div b)) \<or> d = n mod b"
      by (auto simp: digits_in.simps [of b n])
    with False 1 show ?thesis by (auto simp: pos_imp_zdiv_nonneg_iff)
  qed
qed

lemma digits_in_inject: "2 \<le> b \<Longrightarrow> digits_in b m = digits_in b n \<longleftrightarrow> m = n"
  by (metis digits_value_digits_in)

lemma inj_digit_char: "inj digit_char"
  by (auto simp: inj_on_def digit_char_def split: if_splits)

lemma digit_chars_inject:
  "2 \<le> b \<Longrightarrow> map digit_char (digits_in b m) = map digit_char (digits_in b n) \<longleftrightarrow> m = n"
  by (simp add: inj_map_eq_map [OF inj_digit_char] digits_in_inject)

lemma digit_chars_range: "0 \<le> n \<Longrightarrow> c \<in> set (map digit_char (digits_in 10 n)) \<Longrightarrow> 48 \<le> c \<and> c < 58"
  using digits_in_bounds [of 10 n] by (auto simp: digit_char_def)

lemma digits_in_not_Nil [simp]: "digits_in b n \<noteq> []"
  by (simp add: digits_in.simps [of b n])

lemma dec_nonneg_chars: "0 \<le> i \<Longrightarrow> c \<in> set (dec i) \<Longrightarrow> 48 \<le> c \<and> c < 58"
  using digit_chars_range [of i c] by (simp add: dec_def)

lemma dec_not_Nil [simp]: "dec i \<noteq> []"
  by (simp add: dec_def)

lemma dec_inject [simp]: "dec i = dec j \<longleftrightarrow> i = j"
proof -
  have sign: "0 \<le> n \<Longrightarrow> map digit_char (digits_in 10 n) \<noteq> lit ''-'' @ s" for n s
    using digit_chars_range [of n 45] by (auto simp: lit_def)
  show ?thesis
    using sign [of i] sign [of j] sign [of i, symmetric] sign [of j, symmetric]
    by (auto simp: dec_def digit_chars_inject)
qed

end
