(* ===== verification/Py_Float.thy ===== *)
theory Py_Float
  imports Prelude
begin

text \<open>
  Python's \<open>float\<close> arithmetic. A finite binary64 number is a rational number, so
  comparisons are exact; an arithmetic operation rounds its exact result to the nearest
  number with a 53-bit significand, ties to even. \<open>fl\<close> is that rounding. The exponent
  range is not bounded: the program's floats are clock readings, durations and percentages,
  far from overflow and from the subnormal range. \<open>round2\<close> is \<open>round(x, 2)\<close>.
\<close>

type_synonym pyfloat = rat

section \<open>Rounding to an integer, ties to even\<close>

definition round_even :: "rat \<Rightarrow> int" where
  "round_even x =
     (let f = \<lfloor>x\<rfloor>; d = x - of_int f in
      if d < 1/2 then f else if 1/2 < d then f + 1 else if even f then f else f + 1)"

lemma round_even_of_int [simp]: "round_even (of_int n) = n"
  by (simp add: round_even_def)

lemma round_even_bounds: "\<lfloor>x\<rfloor> \<le> round_even x \<and> round_even x \<le> \<lfloor>x\<rfloor> + 1"
  by (simp add: round_even_def Let_def)

lemma round_even_mono: "x \<le> y \<Longrightarrow> round_even x \<le> round_even y"
proof (cases "\<lfloor>x\<rfloor> = \<lfloor>y\<rfloor>")
  case True
  moreover assume "x \<le> y"
  ultimately show ?thesis by (auto simp: round_even_def Let_def)
next
  case False
  assume "x \<le> y"
  then have "\<lfloor>x\<rfloor> \<le> \<lfloor>y\<rfloor>" by (rule floor_mono)
  with False have "\<lfloor>x\<rfloor> + 1 \<le> \<lfloor>y\<rfloor>" by simp
  with round_even_bounds [of x] round_even_bounds [of y] show ?thesis by linarith
qed

lemma round_even_between: "of_int a \<le> x \<Longrightarrow> x \<le> of_int b \<Longrightarrow> a \<le> round_even x \<and> round_even x \<le> b"
  using round_even_mono [of "of_int a" x] round_even_mono [of x "of_int b"] by simp

lemma round_even_close: "\<bar>of_int (round_even x) - x\<bar> \<le> 1/2"
proof -
  have "of_int \<lfloor>x\<rfloor> \<le> x" and "x < of_int \<lfloor>x\<rfloor> + 1" by linarith+
  then show ?thesis by (auto simp: round_even_def Let_def)
qed

section \<open>The binary exponent\<close>

function ilog2 :: "int \<Rightarrow> nat" where
  "ilog2 n = (if n \<le> 1 then 0 else Suc (ilog2 (n div 2)))"
  by pat_completeness auto
termination
  by (relation "measure nat") auto

declare ilog2.simps [simp del]

lemma ilog2_bounds: "0 < n \<Longrightarrow> 2 ^ ilog2 n \<le> n \<and> n < 2 ^ Suc (ilog2 n)"
proof (induction n rule: ilog2.induct)
  case (1 n)
  show ?case
  proof (cases "n \<le> 1")
    case True
    with "1.prems" show ?thesis by (simp add: ilog2.simps [of n])
  next
    case False
    then have "0 < n div 2" by simp
    with "1.IH" False have "2 ^ ilog2 (n div 2) \<le> n div 2 \<and> n div 2 < 2 * 2 ^ ilog2 (n div 2)" by simp
    with False show ?thesis by (auto simp: ilog2.simps [of n])
  qed
qed

text \<open>\<open>flog2 x\<close> is the exponent \<open>k\<close> with \<open>2\<^sup>k \<le> x < 2\<^sup>k\<^sup>+\<^sup>1\<close>, for positive \<open>x\<close>.\<close>

definition flog2 :: "rat \<Rightarrow> int" where
  "flog2 x =
     (let (p, q) = quotient_of x; k = int (ilog2 p) - int (ilog2 q) in
      if 2 powi k \<le> x then k else k - 1)"

lemma flog2_bounds:
  assumes "0 < x"
  shows "2 powi flog2 x \<le> x" and "x < 2 powi (flog2 x + 1)"
proof -
  obtain p q where pq: "quotient_of x = (p, q)" by force
  then have q: "0 < q" and x: "x = of_int p / of_int q"
    by (simp_all add: quotient_of_denom_pos quotient_of_div)
  with assms have p: "0 < p" by (simp add: zero_less_divide_iff)
  define a b where "a = ilog2 p" and "b = ilog2 q"
  have ip: "2 ^ a \<le> p" "p < 2 ^ Suc a" "2 ^ b \<le> q" "q < 2 ^ Suc b"
    using ilog2_bounds [of p] ilog2_bounds [of q] p q by (simp_all add: a_def b_def)
  have rp: "2 ^ a \<le> (of_int p :: rat)" "(of_int p :: rat) < 2 ^ Suc a"
    "2 ^ b \<le> (of_int q :: rat)" "(of_int q :: rat) < 2 ^ Suc b"
    using ip by (metis of_int_le_iff of_int_less_iff of_int_numeral of_int_power)+
  have k: "2 powi (int a - int b) = (2 ^ a / 2 ^ b :: rat)"
    by (simp add: power_int_diff)
  have lo: "2 powi (int a - int b - 1) \<le> x"
  proof -
    have "(2 powi (int a - int b - 1) :: rat) = 2 ^ a / 2 ^ Suc b"
      by (simp add: power_int_diff)
    also have "\<dots> \<le> of_int p / of_int q"
      using rp q p by (intro frac_le) auto
    finally show ?thesis by (simp add: x)
  qed
  have hi: "x < 2 powi (int a - int b + 1)"
  proof -
    have "of_int p / of_int q < (2 ^ Suc a / 2 ^ b :: rat)"
      using rp q p by (intro frac_less) auto
    also have "\<dots> = 2 powi (int a - int b + 1)"
      by (simp add: power_int_diff power_int_add)
    finally show ?thesis by (simp add: x)
  qed
  show "2 powi flog2 x \<le> x" and "x < 2 powi (flog2 x + 1)"
    using lo hi by (auto simp: flog2_def pq Let_def a_def b_def)
qed

lemma flog2_mono:
  assumes "0 < x" "x \<le> y"
  shows "flog2 x \<le> flog2 y"
proof (rule ccontr)
  assume "\<not> flog2 x \<le> flog2 y"
  then have "(2::rat) powi (flog2 y + 1) \<le> 2 powi flog2 x"
    by (intro power_int_increasing) auto
  with flog2_bounds [of x] flog2_bounds [of y] assms show False by linarith
qed

section \<open>Rounding to 53 significant bits\<close>

definition fl_pos :: "rat \<Rightarrow> rat" where
  "fl_pos x = (let u = 2 powi (flog2 x - 52) in of_int (round_even (x / u)) * u)"

definition fl :: "rat \<Rightarrow> pyfloat" where
  "fl x = (if x = 0 then 0 else if 0 < x then fl_pos x else - fl_pos (- x))"

lemma fl_pos_range:
  assumes "0 < x"
  shows "2 powi flog2 x \<le> fl_pos x" and "fl_pos x \<le> 2 powi (flog2 x + 1)"
proof -
  define u :: rat where "u = 2 powi (flog2 x - 52)"
  have u: "0 < u" by (simp add: u_def)
  have lo: "2 ^ 52 * u = 2 powi flog2 x" and hi: "2 ^ 53 * u = 2 powi (flog2 x + 1)"
    by (simp_all add: u_def power_int_diff power_int_add)
  have "2 ^ 52 * u \<le> x" "x \<le> 2 ^ 53 * u"
    unfolding lo hi using flog2_bounds [OF assms] by simp_all
  then have "of_int (2 ^ 52) \<le> x / u" "x / u \<le> of_int (2 ^ 53)"
    using u by (simp_all add: pos_le_divide_eq pos_divide_le_eq)
  then have "2 ^ 52 \<le> round_even (x / u)" "round_even (x / u) \<le> 2 ^ 53"
    using round_even_between by blast+
  then have "of_int (2 ^ 52) * u \<le> of_int (round_even (x / u)) * u"
    "of_int (round_even (x / u)) * u \<le> of_int (2 ^ 53) * u"
    using u by (intro mult_right_mono; simp del: of_int_power of_int_numeral)+
  then show "2 powi flog2 x \<le> fl_pos x" and "fl_pos x \<le> 2 powi (flog2 x + 1)"
    using lo hi by (simp_all add: fl_pos_def Let_def u_def [symmetric])
qed

lemma fl_pos_positive: "0 < x \<Longrightarrow> 0 < fl_pos x"
  using fl_pos_range(1) [of x] zero_less_power_int [of 2 "flog2 x"] by (metis less_le_trans zero_less_numeral)

lemma fl_pos_mono:
  assumes "0 < x" "x \<le> y"
  shows "fl_pos x \<le> fl_pos y"
proof (cases "flog2 x = flog2 y")
  case True
  have "round_even (x / 2 powi (flog2 x - 52)) \<le> round_even (y / 2 powi (flog2 y - 52))"
    using assms True by (intro round_even_mono) (simp add: divide_right_mono)
  with True show ?thesis
    by (simp add: fl_pos_def Let_def mult_right_mono)
next
  case False
  with flog2_mono [OF assms] have "flog2 x + 1 \<le> flog2 y" by simp
  then have "(2::rat) powi (flog2 x + 1) \<le> 2 powi flog2 y"
    by (intro power_int_increasing) auto
  with fl_pos_range(2) [OF assms(1)] fl_pos_range(1) [of y] assms show ?thesis by linarith
qed

lemma fl_0 [simp]: "fl 0 = 0"
  by (simp add: fl_def)

lemma fl_minus: "fl (- x) = - fl x"
  by (auto simp: fl_def)

lemma fl_mono: "x \<le> y \<Longrightarrow> fl x \<le> fl y"
proof -
  assume le: "x \<le> y"
  consider "0 < x" | "y < 0" | "x \<le> 0" "0 \<le> y" by linarith
  then show ?thesis
  proof cases
    case 1
    with le show ?thesis by (simp add: fl_def fl_pos_mono)
  next
    case 2
    with le show ?thesis by (simp add: fl_def fl_pos_mono)
  next
    case 3
    have "fl x \<le> 0" using 3 fl_pos_positive [of "- x"] by (auto simp: fl_def)
    moreover have "0 \<le> fl y" using 3 fl_pos_positive [of y] by (auto simp: fl_def)
    ultimately show ?thesis by simp
  qed
qed

text \<open>Integers up to \<open>2\<^sup>5\<^sup>3\<close> are represented exactly.\<close>

lemma fl_pos_of_int:
  assumes "0 < n" "n < 2 ^ 53"
  shows "fl_pos (of_int n) = of_int n"
proof -
  have "flog2 (of_int n) \<le> 52"
  proof (rule ccontr)
    assume "\<not> flog2 (of_int n) \<le> 52"
    then have "(2::rat) powi 53 \<le> 2 powi flog2 (of_int n)"
      by (intro power_int_increasing) auto
    also have "\<dots> \<le> of_int n" using flog2_bounds(1) [of "of_int n"] assms by simp
    finally have "(of_int (2 ^ 53) :: rat) \<le> of_int n" by simp
    then have "2 ^ 53 \<le> n" by (simp only: of_int_le_iff)
    with assms show False by simp
  qed
  then obtain k :: nat where k: "flog2 (of_int n) - 52 = - int k"
    by (metis diff_ge_0_iff_ge minus_diff_eq nonneg_int_cases)
  have "(of_int n :: rat) / 2 powi (- int k) = of_int (n * 2 ^ k)"
    by (simp add: power_int_minus field_simps)
  moreover have "(of_int (n * 2 ^ k) :: rat) * 2 powi (- int k) = of_int n"
    by (simp add: power_int_minus field_simps)
  ultimately show ?thesis
    by (simp only: fl_pos_def Let_def k round_even_of_int)
qed

lemma fl_of_int: "\<bar>n\<bar> < 2 ^ 53 \<Longrightarrow> fl (of_int n) = of_int n"
  using fl_pos_of_int [of n] fl_pos_of_int [of "- n"] by (auto simp: fl_def)

lemma fl_numeral [simp]: "numeral k < (2 ^ 53 :: int) \<Longrightarrow> fl (numeral k) = numeral k"
  using fl_of_int [of "numeral k"] by simp

lemma fl_1 [simp]: "fl 1 = 1"
  using fl_of_int [of 1] by simp

text \<open>Powers of two scale exactly, so a double stays what it is when rounded again.\<close>

lemma flog2_unique:
  assumes "0 < x" "2 powi k \<le> x" "x < 2 powi (k + 1)"
  shows "flog2 x = k"
proof -
  have less: "a < b + 1" if "(2::rat) powi a < 2 powi (b + 1)" for a b :: int
    using that power_int_increasing [of "b + 1" a "2::rat"] by (cases "a < b + 1") simp_all
  have "flog2 x < k + 1" "k < flog2 x + 1"
    using less [of "flog2 x" k] less [of k "flog2 x"] flog2_bounds [OF assms(1)] assms(2,3) by linarith+
  then show ?thesis by simp
qed

lemma fl_pos_scale:
  assumes "0 < x"
  shows "fl_pos (x * 2 powi k) = fl_pos x * 2 powi k"
proof -
  have "flog2 (x * 2 powi k) = flog2 x + k"
    using assms flog2_bounds [OF assms] by (intro flog2_unique) (simp_all add: power_int_add algebra_simps)
  moreover have "(2::rat) powi (flog2 x + k - 52) = 2 powi (flog2 x - 52) * 2 powi k"
    by (simp add: algebra_simps flip: power_int_add)
  ultimately show ?thesis by (simp add: fl_pos_def Let_def)
qed

lemma fl_scale: "fl (x * 2 powi k) = fl x * 2 powi k"
proof -
  consider "x = 0" | "0 < x" | "x < 0" by linarith
  then show ?thesis
  proof cases
    case 3
    then have "fl_pos (- (x * 2 powi k)) = fl_pos (- x) * 2 powi k" using fl_pos_scale [of "- x" k] by simp
    moreover have "x * 2 powi k < 0" using 3 by (intro mult_neg_pos) simp_all
    ultimately show ?thesis using 3 unfolding fl_def by simp
  qed (simp_all add: fl_def fl_pos_scale zero_less_mult_iff)
qed

lemma fl_dyadic: "\<bar>n\<bar> \<le> 2 ^ 53 \<Longrightarrow> fl (of_int n * 2 powi k) = of_int n * 2 powi k"
proof -
  assume "\<bar>n\<bar> \<le> 2 ^ 53"
  then consider "\<bar>n\<bar> < 2 ^ 53" | "n = 2 ^ 53" | "n = - (2 ^ 53)" by linarith
  then show ?thesis
  proof cases
    case 1
    then show ?thesis by (simp add: fl_scale fl_of_int)
  next
    case 2
    then show ?thesis using fl_scale [of 1 "k + 53"] by (simp add: power_int_add mult.commute)
  next
    case 3
    then show ?thesis using fl_scale [of 1 "k + 53"] by (simp add: power_int_add fl_minus mult.commute)
  qed
qed

lemma fl_pos_dyadic: "0 < x \<Longrightarrow> \<exists>n k. \<bar>n\<bar> \<le> 2 ^ 53 \<and> fl_pos x = of_int n * 2 powi k"
proof -
  assume x: "0 < x"
  let ?u = "2 powi (flog2 x - 52) :: rat"
  have u: "0 < ?u" by simp
  have "2 powi (flog2 x + 1) = 2 ^ 53 * ?u" by (simp add: power_int_diff power_int_add)
  then have "0 * ?u < of_int (round_even (x / ?u)) * ?u" "of_int (round_even (x / ?u)) * ?u \<le> 2 ^ 53 * ?u"
    using fl_pos_range(2) [OF x] fl_pos_positive [OF x] by (simp_all add: fl_pos_def Let_def)
  then have "(0::rat) < of_int (round_even (x / ?u))" "of_int (round_even (x / ?u)) \<le> (of_int (2 ^ 53) :: rat)"
    using u by (simp_all only: mult_less_cancel_right mult_le_cancel_right) simp_all
  then have "\<bar>round_even (x / ?u)\<bar> \<le> 2 ^ 53" by (simp only: of_int_le_iff of_int_0_less_iff)
  then show ?thesis unfolding fl_pos_def Let_def by blast
qed

lemma fl_idem [simp]: "fl (fl x) = fl x"
proof -
  have pos: "fl (fl_pos y) = fl_pos y" if y: "0 < y" for y
    using fl_pos_dyadic [OF y] fl_dyadic by metis
  show ?thesis
    using pos [of x] pos [of "- x"] by (auto simp: fl_def [of x] fl_minus)
qed

section \<open>What the components rely on\<close>

text \<open>
  The contract of a rounding: monotone, odd, exact on the small integers. The percentage
  lemma is what the incident report uses: a ratio in \<open>0..1\<close> scaled to a percentage by
  rounded operations stays in \<open>0..100\<close>.
\<close>

locale rounding =
  fixes rnd :: "rat \<Rightarrow> rat"
  assumes rnd_mono: "x \<le> y \<Longrightarrow> rnd x \<le> rnd y"
    and rnd_minus: "rnd (- x) = - rnd x"
    and rnd_int: "\<bar>n\<bar> < 2 ^ 53 \<Longrightarrow> rnd (of_int n) = of_int n"
begin

lemma rnd_between:
  assumes "of_int a \<le> x" "x \<le> of_int b" "\<bar>a\<bar> < 2 ^ 53" "\<bar>b\<bar> < 2 ^ 53"
  shows "of_int a \<le> rnd x \<and> rnd x \<le> of_int b"
  using rnd_mono [OF assms(1)] rnd_mono [OF assms(2)] assms(3,4) by (simp add: rnd_int)

lemma rnd_percentage:
  assumes "0 \<le> r" "r \<le> 1"
  shows "0 \<le> rnd (rnd r * 100) \<and> rnd (rnd r * 100) \<le> 100"
proof -
  have "0 \<le> rnd r \<and> rnd r \<le> 1"
    using rnd_between [of 0 r 1] assms by simp
  then show ?thesis
    using rnd_between [of 0 "rnd r * 100" 100] by simp
qed

lemma rnd_diff_mono: "x \<le> y \<Longrightarrow> rnd (x - d) \<le> rnd (y - d)"
  by (simp add: rnd_mono)

lemma rnd_nonneg: "0 \<le> x \<Longrightarrow> 0 \<le> rnd x"
  using rnd_mono [of 0 x] rnd_int [of 0] by simp

end

interpretation binary64: rounding fl
  by unfold_locales (auto simp: fl_mono fl_minus fl_of_int)

section \<open>The operations the program uses\<close>

definition float_sub :: "pyfloat \<Rightarrow> pyfloat \<Rightarrow> pyfloat" where
  "float_sub x y = fl (x - y)"

definition float_mult :: "pyfloat \<Rightarrow> pyfloat \<Rightarrow> pyfloat" where
  "float_mult x y = fl (x * y)"

text \<open>\<open>/\<close> on two integers: the quotient rounded once, \<open>ZeroDivisionError\<close> apart.\<close>

definition int_truediv :: "int \<Rightarrow> int \<Rightarrow> pyfloat" where
  "int_truediv a b = fl (of_int a / of_int b)"

definition round2 :: "pyfloat \<Rightarrow> pyfloat" where
  "round2 x = fl (of_int (round_even (x * 100)) / 100)"

lemma round2_between:
  assumes "0 \<le> x" "x \<le> 100"
  shows "0 \<le> round2 x \<and> round2 x \<le> 100"
proof -
  have "of_int 0 \<le> x * 100" "x * 100 \<le> of_int 10000" using assms by simp_all
  then have "0 \<le> round_even (x * 100) \<and> round_even (x * 100) \<le> 10000"
    using round_even_between by blast
  then have "of_int 0 \<le> of_int (round_even (x * 100)) / (100::rat)"
    "of_int (round_even (x * 100)) / (100::rat) \<le> of_int 100" by simp_all
  then show ?thesis
    using binary64.rnd_between [of 0 "of_int (round_even (x * 100)) / 100" 100]
    by (simp add: round2_def)
qed

end
