(* ===== verification/Py_Text.thy ===== *)
theory Py_Text
  imports Prelude
begin

text \<open>
  The text operations of Python the program calls: \<open>bytes.decode('utf-8', errors=...)\<close>
  with the decoder's resynchronisation after an invalid sequence, \<open>repr\<close> of strings and
  of bytes, \<open>str.strip\<close>, \<open>str.split\<close>, reading a text file line by line, and
  \<open>int\<close> on a decimal numeral (ASCII digits). Which code points above ASCII
  \<open>repr\<close> prints as they are is the Unicode database's decision: the argument
  \<open>printable\<close>.
\<close>

section \<open>UTF-8 decoding\<close>

datatype decode_errors = Ignore | Replace

definition is_cont :: "byte \<Rightarrow> bool" where
  "is_cont b \<longleftrightarrow> 128 \<le> uint b \<and> uint b < 192"

definition between :: "int \<Rightarrow> int \<Rightarrow> byte \<Rightarrow> bool" where
  "between lo hi b \<longleftrightarrow> lo \<le> uint b \<and> uint b \<le> hi"

text \<open>
  One step at the head of the input: the code point read, or \<open>None\<close> for an invalid or
  truncated sequence, and the number of bytes it takes. An invalid sequence takes its
  longest prefix that could still have been continued, at least one byte.
\<close>

fun utf8_step :: "bytes \<Rightarrow> int option \<times> nat" where
  "utf8_step [] = (None, 1)"
| "utf8_step (b0 # rest) =
     (if uint b0 < 128 then (Some (uint b0), 1)
      else if between 194 223 b0 then
        (case rest of
           b1 # _ \<Rightarrow> if is_cont b1 then (Some ((uint b0 - 192) * 64 + (uint b1 - 128)), 2) else (None, 1)
         | [] \<Rightarrow> (None, 1))
      else if between 224 239 b0 then
        (case rest of
           b1 # rest1 \<Rightarrow>
             if between (if uint b0 = 224 then 160 else 128) (if uint b0 = 237 then 159 else 191) b1 then
               (case rest1 of
                  b2 # _ \<Rightarrow>
                    if is_cont b2
                    then (Some ((uint b0 - 224) * 4096 + (uint b1 - 128) * 64 + (uint b2 - 128)), 3)
                    else (None, 2)
                | [] \<Rightarrow> (None, 2))
             else (None, 1)
         | [] \<Rightarrow> (None, 1))
      else if between 240 244 b0 then
        (case rest of
           b1 # rest1 \<Rightarrow>
             if between (if uint b0 = 240 then 144 else 128) (if uint b0 = 244 then 143 else 191) b1 then
               (case rest1 of
                  b2 # rest2 \<Rightarrow>
                    if is_cont b2 then
                      (case rest2 of
                         b3 # _ \<Rightarrow>
                           if is_cont b3
                           then (Some ((uint b0 - 240) * 262144 + (uint b1 - 128) * 4096
                                       + (uint b2 - 128) * 64 + (uint b3 - 128)), 4)
                           else (None, 3)
                       | [] \<Rightarrow> (None, 3))
                    else (None, 2)
                | [] \<Rightarrow> (None, 2))
             else (None, 1)
         | [] \<Rightarrow> (None, 1))
      else (None, 1))"

lemma utf8_step_pos: "0 < snd (utf8_step bs)"
  by (induction bs rule: utf8_step.induct) (simp_all split: list.split)

lemma utf8_step_shrinks:
  "(r, n) = utf8_step (b # bs) \<Longrightarrow> length (drop n (b # bs)) < length (b # bs)"
  using utf8_step_pos [of "b # bs"] by (metis diff_less length_drop length_greater_0_conv list.distinct(1) snd_conv)

fun on_invalid :: "decode_errors \<Rightarrow> str" where
  "on_invalid Ignore = []"
| "on_invalid Replace = [65533]"

function decode_utf8 :: "decode_errors \<Rightarrow> bytes \<Rightarrow> str" where
  "decode_utf8 e [] = []"
| "decode_utf8 e (b # bs) =
     (case utf8_step (b # bs) of
        (Some c, n) \<Rightarrow> c # decode_utf8 e (drop n (b # bs))
      | (None, n) \<Rightarrow> on_invalid e @ decode_utf8 e (drop n (b # bs)))"
  by pat_completeness auto
termination
  by (relation "measure (\<lambda>(e, bs). length bs)")
    (auto simp del: utf8_step.simps dest!: utf8_step_shrinks)

definition is_ascii :: "bytes \<Rightarrow> bool" where
  "is_ascii bs \<longleftrightarrow> (\<forall>b \<in> set bs. uint b < 128)"

lemma decode_utf8_ascii_prefix:
  "is_ascii as \<Longrightarrow> decode_utf8 e (as @ bs) = map uint as @ decode_utf8 e bs"
  by (induction as) (simp_all add: is_ascii_def)

lemma decode_utf8_ascii: "is_ascii bs \<Longrightarrow> decode_utf8 e bs = map uint bs"
  using decode_utf8_ascii_prefix [of bs e "[]"] by simp

text \<open>A byte that can start no sequence disappears under \<open>errors='ignore'\<close>.\<close>

lemma decode_utf8_skip:
  "128 \<le> uint b \<Longrightarrow> uint b < 194 \<or> 244 < uint b \<Longrightarrow> decode_utf8 Ignore (b # bs) = decode_utf8 Ignore bs"
  by (auto simp: between_def)

lemma decode_utf8_chars: "c \<in> set (decode_utf8 e bs) \<Longrightarrow> c < 1114112"
proof (induction e bs rule: decode_utf8.induct)
  case (1 e)
  then show ?case by simp
next
  case (2 e b bs)
  have step: "fst (utf8_step (b # bs)) = Some c \<Longrightarrow> c < 1114112" for c
    using unsigned_less [of b]
    by (fastforce simp: between_def is_cont_def split: list.splits if_splits)
  have "e = Replace" if "c \<in> set (on_invalid e)" using that by (cases e) simp_all
  then have inv: "c \<in> set (on_invalid e) \<Longrightarrow> c < 1114112" by auto
  show ?case
  proof (cases "utf8_step (b # bs)")
    case (Pair r n)
    with 2 step inv show ?thesis
      by (cases r) (auto simp del: utf8_step.simps)
  qed
qed

section \<open>repr\<close>

definition hex_pad :: "nat \<Rightarrow> int \<Rightarrow> str" where
  "hex_pad w c = (let ds = map digit_char (digits_in 16 c) in replicate (w - length ds) 48 @ ds)"

text \<open>Single quotes, unless the text has one and no double quote.\<close>

definition repr_quote :: "int list \<Rightarrow> int" where
  "repr_quote s = (if 39 \<in> set s \<and> 34 \<notin> set s then 34 else 39)"

text \<open>The escapes \<open>repr\<close> writes for the ASCII range: code points 92, 116, 110, 114 and 120
  are a backslash and the letters t, n, r and x.\<close>

definition repr_ascii :: "int \<Rightarrow> int \<Rightarrow> str" where
  "repr_ascii q c =
     (if c = q \<or> c = 92 then [92, c]
      else if c = 9 then [92, 116]
      else if c = 10 then [92, 110]
      else if c = 13 then [92, 114]
      else if c < 32 \<or> c = 127 then [92, 120] @ hex_pad 2 c
      else [c])"

definition repr_char :: "(int \<Rightarrow> bool) \<Rightarrow> int \<Rightarrow> int \<Rightarrow> str" where
  "repr_char printable q c =
     (if c < 128 then repr_ascii q c
      else if printable c then [c]
      else if c < 256 then [92, 120] @ hex_pad 2 c
      else if c < 65536 then [92, 117] @ hex_pad 4 c
      else [92, 85] @ hex_pad 8 c)"

definition repr_str :: "(int \<Rightarrow> bool) \<Rightarrow> str \<Rightarrow> str" where
  "repr_str printable s =
     (let q = repr_quote s in [q] @ concat (map (repr_char printable q) s) @ [q])"

definition repr_byte :: "int \<Rightarrow> byte \<Rightarrow> str" where
  "repr_byte q b = (if uint b < 128 then repr_ascii q (uint b) else [92, 120] @ hex_pad 2 (uint b))"

definition repr_bytes :: "bytes \<Rightarrow> str" where
  "repr_bytes bs =
     (let q = repr_quote (map uint bs) in [98, q] @ concat (map (repr_byte q) bs) @ [q])"

section \<open>Whitespace, splitting, numerals\<close>

definition is_space :: "int \<Rightarrow> bool" where
  "is_space c \<longleftrightarrow> (9 \<le> c \<and> c \<le> 13) \<or> (28 \<le> c \<and> c \<le> 32) \<or> c = 133 \<or> c = 160 \<or> c = 5760
     \<or> (8192 \<le> c \<and> c \<le> 8202) \<or> c = 8232 \<or> c = 8233 \<or> c = 8239 \<or> c = 8287 \<or> c = 12288"

definition strip :: "str \<Rightarrow> str" where
  "strip s = rev (dropWhile is_space (rev (dropWhile is_space s)))"

text \<open>\<open>s.split(sep, 1)\<close> for a separator that occurs: the text before and after the first.\<close>

definition split_once :: "int \<Rightarrow> str \<Rightarrow> str \<times> str" where
  "split_once sep s = (takeWhile (\<lambda>c. c \<noteq> sep) s, tl (dropWhile (\<lambda>c. c \<noteq> sep) s))"

text \<open>\<open>s.split()\<close>: the maximal pieces without whitespace.\<close>

function split_words :: "str \<Rightarrow> str list" where
  "split_words s =
     (let t = dropWhile is_space s in
      if t = [] then []
      else takeWhile (\<lambda>c. \<not> is_space c) t # split_words (dropWhile (\<lambda>c. \<not> is_space c) t))"
  by pat_completeness auto
termination
proof (relation "measure length", goal_cases)
  case (2 s t)
  then obtain c u where t: "t = c # u"
    by (meson list.exhaust)
  with 2 have "dropWhile is_space s = c # u" by simp
  then have "\<not> is_space c" by (simp add: dropWhile_eq_Cons_conv)
  with t have "length (dropWhile (\<lambda>c. \<not> is_space c) t) < length t"
    by (simp add: le_imp_less_Suc length_dropWhile_le)
  also have "\<dots> \<le> length s" using 2 by (simp add: length_dropWhile_le)
  finally show ?case by simp
qed simp

declare split_words.simps [simp del]

text \<open>A text file opened with universal newlines, read line by line (line ends dropped,
  which the caller strips anyway).\<close>

fun newlines_from :: "bool \<Rightarrow> str \<Rightarrow> str" where
  "newlines_from after_cr [] = []"
| "newlines_from after_cr (c # s) =
     (if c = 13 then 10 # newlines_from True s
      else if c = 10 \<and> after_cr then newlines_from False s
      else c # newlines_from False s)"

definition universal_newlines :: "str \<Rightarrow> str" where
  "universal_newlines s = newlines_from False s"

fun lines_of :: "str \<Rightarrow> str list" where
  "lines_of [] = []"
| "lines_of (c # s) =
     (if c = 10 then [] # lines_of s
      else case lines_of s of [] \<Rightarrow> [[c]] | l # ls \<Rightarrow> (c # l) # ls)"

text \<open>
  \<open>int(s)\<close>: surrounding whitespace, a sign, digits with single underscores between
  them; anything else raises \<open>ValueError\<close>.
\<close>

fun parse_digits :: "int \<Rightarrow> bool \<Rightarrow> str \<Rightarrow> int option" where
  "parse_digits acc after_digit [] = (if after_digit then Some acc else None)"
| "parse_digits acc after_digit (c # s) =
     (if 48 \<le> c \<and> c \<le> 57 then parse_digits (acc * 10 + (c - 48)) True s
      else if c = 95 \<and> after_digit then parse_digits acc False s
      else None)"

definition parse_int :: "str \<Rightarrow> int option" where
  "parse_int s =
     (case strip s of
        [] \<Rightarrow> None
      | c # t \<Rightarrow>
          if c = 45 then map_option uminus (parse_digits 0 False t)
          else if c = 43 then parse_digits 0 False t
          else parse_digits 0 False (c # t))"

lemma parse_digits_chars:
  "\<forall>d \<in> set ds. 0 \<le> d \<and> d < 10 \<Longrightarrow> ds \<noteq> [] \<or> b \<Longrightarrow>
   parse_digits acc b (map digit_char ds) = Some (foldl (\<lambda>acc d. acc * 10 + d) acc ds)"
  by (induction ds arbitrary: acc b) (simp_all add: digit_char_def)

lemma not_space_digit: "48 \<le> c \<Longrightarrow> c < 58 \<Longrightarrow> \<not> is_space c"
  by (simp add: is_space_def)

lemma dropWhile_no_space: "\<forall>c \<in> set s. \<not> is_space c \<Longrightarrow> dropWhile is_space s = s"
  by (cases s) simp_all

lemma strip_no_space: "\<forall>c \<in> set s. \<not> is_space c \<Longrightarrow> strip s = s"
  by (simp add: strip_def dropWhile_no_space)

lemma takeWhile_all: "\<forall>c \<in> set s. P c \<Longrightarrow> takeWhile P s = s" "\<forall>c \<in> set s. P c \<Longrightarrow> dropWhile P s = []"
  by (simp_all add: takeWhile_eq_all_conv)

text \<open>Reading back a printed integer.\<close>

lemma parse_int_dec: "0 \<le> n \<Longrightarrow> parse_int (dec n) = Some n"
proof -
  assume n: "0 \<le> n"
  define ds where "ds = digits_in 10 n"
  have ds: "\<forall>d \<in> set ds. 0 \<le> d \<and> d < 10" "ds \<noteq> []"
    using digits_in_bounds [of 10 n] n by (auto simp: ds_def)
  have chars: "\<forall>c \<in> set (map digit_char ds). 48 \<le> c \<and> c < 58"
    using digit_chars_range [OF n] by (simp add: ds_def)
  then have "strip (map digit_char ds) = map digit_char ds"
    by (intro strip_no_space ballI not_space_digit) auto
  moreover obtain c t where ct: "map digit_char ds = c # t" using ds by (cases ds) auto
  moreover have "c \<noteq> 45" "c \<noteq> 43" using chars ct by auto
  moreover have "parse_digits 0 False (map digit_char ds) = Some n"
    using parse_digits_chars [OF ds(1), of False 0] ds(2) digits_value_digits_in [of 10 n]
    by (simp add: ds_def digits_value_def)
  ultimately show ?thesis
    using n by (simp add: dec_def parse_int_def ds_def [symmetric])
qed

lemma split_words_single:
  assumes "\<forall>c \<in> set s. \<not> is_space c" "s \<noteq> []"
  shows "split_words s = [s]"
proof -
  have "dropWhile is_space s = s" using assms(1) by (rule dropWhile_no_space)
  with assms show ?thesis
    by (subst split_words.simps) (simp add: takeWhile_all split_words.simps [of "[]"])
qed

end
