(* ===== verification/Events.thy ===== *)
theory Events
  imports Py_Float Py_Text
begin

text \<open>
  \<open>xdr/core/events.py\<close>: the vector enumeration and the \<open>SecurityEvent\<close> record with
  its validating constructor. The environment the constructor reads, the wall clock and
  \<open>uuid4\<close>, is part of the state: \<open>env_clock i\<close> is what the \<open>i\<close>-th call of
  \<open>time.time()\<close> returns and \<open>env_uuids i\<close> the text of the \<open>i\<close>-th identifier
  drawn. \<open>pyval\<close> are the dynamically typed values: constructor arguments before their
  checks, metadata, and the dictionaries handed to \<open>json.dumps\<close>.
\<close>

section \<open>Vectors and values\<close>

datatype vector = NETWORK | BINARY | KERNEL

fun vector_value :: "vector \<Rightarrow> str" where
  "vector_value NETWORK = lit ''network''"
| "vector_value BINARY = lit ''binary''"
| "vector_value KERNEL = lit ''kernel''"

lemma vector_value_inject [simp]: "vector_value v = vector_value w \<longleftrightarrow> v = w"
  by (cases v; cases w) simp_all

datatype pyval =
    PNone | PInt int | PFloat pyfloat | PStr str | PVector vector
  | PList "pyval list" | PDict "(str \<times> pyval) list"

text \<open>
  \<open>json.dumps\<close> accepts a value built from dictionaries, lists, numbers, strings and
  \<open>None\<close>; an enumeration member inside it raises \<open>TypeError\<close>. A JSON document is kept
  as the value it denotes.
\<close>

fun json_ok :: "pyval \<Rightarrow> bool" where
  "json_ok (PVector v) = False"
| "json_ok (PList vs) = list_all json_ok vs"
| "json_ok (PDict d) = list_all (\<lambda>p. json_ok (snd p)) d"
| "json_ok v = True"

definition json_dumps :: "pyval \<Rightarrow> ('s, pyval) op" where
  "json_dumps v = (if json_ok v then ret v else raise_err TypeError)"

section \<open>The environment\<close>

record env =
  env_clock :: "nat \<Rightarrow> pyfloat"
  env_reads :: nat
  env_uuids :: "nat \<Rightarrow> str"
  env_draws :: nat

definition time_now :: "('a env_scheme, pyfloat) op" where
  "time_now = (\<lambda>s. (Inr (env_clock s (env_reads s)), s\<lparr>env_reads := Suc (env_reads s)\<rparr>))"

definition fresh_uuid :: "('a env_scheme, str) op" where
  "fresh_uuid = (\<lambda>s. (Inr (env_uuids s (env_draws s)), s\<lparr>env_draws := Suc (env_draws s)\<rparr>))"

lemma time_now_apply [simp, op_simps]:
  "time_now s = (Inr (env_clock s (env_reads s)), s\<lparr>env_reads := Suc (env_reads s)\<rparr>)"
  by (simp add: time_now_def)

lemma fresh_uuid_apply [simp, op_simps]:
  "fresh_uuid s = (Inr (env_uuids s (env_draws s)), s\<lparr>env_draws := Suc (env_draws s)\<rparr>)"
  by (simp add: fresh_uuid_def)

text \<open>Documented behaviour of the clock where a property needs it: readings do not decrease.\<close>

definition clock_monotone :: "'a env_scheme \<Rightarrow> bool" where
  "clock_monotone s \<longleftrightarrow> (\<forall>i j. i \<le> j \<longrightarrow> env_clock s i \<le> env_clock s j)"

section \<open>SecurityEvent\<close>

record event =
  ev_vector :: vector
  ev_type :: str
  ev_src :: str
  ev_severity :: int
  ev_metadata :: "(str, pyval) dict"
  ev_uuid :: str
  ev_timestamp :: pyfloat

text \<open>
  The generated \<open>__init__\<close> fills the defaults (identifier, then time), then
  \<open>__post_init__\<close> checks the severity before the vector.
\<close>

definition security_event ::
  "pyval \<Rightarrow> str \<Rightarrow> str \<Rightarrow> pyval \<Rightarrow> (str, pyval) dict \<Rightarrow> ('a env_scheme, event) op" where
  "security_event vector event_type src severity metadata =
     and_then fresh_uuid (\<lambda>uuid. and_then time_now (\<lambda>timestamp.
       case severity of
         PInt n \<Rightarrow>
           if \<not> (1 \<le> n \<and> n \<le> 5) then raise_err ValueError
           else (case vector of
                   PVector v \<Rightarrow> ret \<lparr>ev_vector = v, ev_type = event_type, ev_src = src,
                     ev_severity = n, ev_metadata = metadata, ev_uuid = uuid,
                     ev_timestamp = timestamp\<rparr>
                 | _ \<Rightarrow> raise_err TypeError)
       | _ \<Rightarrow> raise_err ValueError))"

definition event_ok :: "event \<Rightarrow> bool" where
  "event_ok e \<longleftrightarrow> 1 \<le> ev_severity e \<and> ev_severity e \<le> 5"

text \<open>The event the constructor builds in state \<open>s\<close>, and the state it leaves.\<close>

definition built_event ::
  "vector \<Rightarrow> str \<Rightarrow> str \<Rightarrow> int \<Rightarrow> (str, pyval) dict \<Rightarrow> 'a env_scheme \<Rightarrow> event" where
  "built_event v ty src n meta s =
     \<lparr>ev_vector = v, ev_type = ty, ev_src = src, ev_severity = n, ev_metadata = meta,
      ev_uuid = env_uuids s (env_draws s), ev_timestamp = env_clock s (env_reads s)\<rparr>"

definition env_ticked :: "'a env_scheme \<Rightarrow> 'a env_scheme" where
  "env_ticked s = s\<lparr>env_reads := Suc (env_reads s), env_draws := Suc (env_draws s)\<rparr>"

lemma built_event_sel [simp]:
  "ev_vector (built_event v ty src n meta s) = v" "ev_type (built_event v ty src n meta s) = ty"
  "ev_src (built_event v ty src n meta s) = src" "ev_severity (built_event v ty src n meta s) = n"
  "ev_metadata (built_event v ty src n meta s) = meta"
  "ev_timestamp (built_event v ty src n meta s) = env_clock s (env_reads s)"
  by (simp_all add: built_event_def)

lemma env_ticked_sel [simp]:
  "env_clock (env_ticked s) = env_clock s" "env_uuids (env_ticked s) = env_uuids s"
  "env_reads (env_ticked s) = Suc (env_reads s)" "env_draws (env_ticked s) = Suc (env_draws s)"
  "env.more (env_ticked s) = env.more s"
  by (simp_all add: env_ticked_def)

lemma security_event_valid [op_simps]:
  "1 \<le> n \<Longrightarrow> n \<le> 5 \<Longrightarrow>
   security_event (PVector v) ty src (PInt n) meta s = (Inr (built_event v ty src n meta s), env_ticked s)"
  by (simp add: security_event_def built_event_def env_ticked_def op_simps)

lemma security_event_outcome:
  "security_event vec ty src sev meta s =
     (case (sev, vec) of
        (PInt n, PVector v) \<Rightarrow>
          if 1 \<le> n \<and> n \<le> 5 then (Inr (built_event v ty src n meta s), env_ticked s)
          else (Inl ValueError, env_ticked s)
      | (PInt n, _) \<Rightarrow> (Inl (if 1 \<le> n \<and> n \<le> 5 then TypeError else ValueError), env_ticked s)
      | _ \<Rightarrow> (Inl ValueError, env_ticked s))"
  by (cases sev; cases vec)
    (simp_all add: security_event_def built_event_def env_ticked_def op_simps)

text \<open>A sample event, for the concrete runs below and in the other theories.\<close>

definition sample_event :: "string \<Rightarrow> string \<Rightarrow> int \<Rightarrow> pyfloat \<Rightarrow> event" where
  "sample_event ty src n t = \<lparr>ev_vector = NETWORK, ev_type = lit ty, ev_src = lit src,
     ev_severity = n, ev_metadata = [], ev_uuid = lit ''u'', ev_timestamp = t\<rparr>"

definition sample_env :: env where
  "sample_env = \<lparr>env_clock = (\<lambda>i. 1000 + of_nat i), env_reads = 0,
     env_uuids = (\<lambda>i. dec (int i)), env_draws = 0\<rparr>"

text \<open>The constructor returns exactly when the severity is an integer in 1..5 and the
  vector a member of the enumeration; every event it returns is within the severity range and
  carries its arguments, and a severity outside the range raises ValueError even when the
  vector is wrong as well.\<close>

theorem security_event_checked:
  "((\<exists>e s'. security_event vec ty src sev meta s = (Inr e, s'))
      \<longleftrightarrow> (\<exists>n v. sev = PInt n \<and> vec = PVector v \<and> 1 \<le> n \<and> n \<le> 5))
   \<and> (\<forall>e s'. security_event vec ty src sev meta s = (Inr e, s') \<longrightarrow>
        event_ok e \<and> sev = PInt (ev_severity e) \<and> vec = PVector (ev_vector e)
        \<and> ev_type e = ty \<and> ev_src e = src \<and> ev_metadata e = meta)
   \<and> ((\<nexists>n. sev = PInt n \<and> 1 \<le> n \<and> n \<le> 5) \<longrightarrow>
        fst (security_event vec ty src sev meta s) = Inl ValueError)"
  by (cases sev; cases vec) (auto simp: security_event_outcome event_ok_def)

theorem security_event_checked_witness:
  "fst (security_event (PVector NETWORK) (lit ''x'') (lit ''h'') (PInt 9) [] sample_env) = Inl ValueError
   \<and> event_ok (built_event NETWORK (lit ''x'') (lit ''h'') 3 [] sample_env)"
proof
  note T = security_event_checked
  show "fst (security_event (PVector NETWORK) (lit ''x'') (lit ''h'') (PInt 9) [] sample_env) = Inl ValueError"
    using conjunct2 [OF conjunct2 [OF T [of "PVector NETWORK" "lit ''x''" "lit ''h''" "PInt 9" "[]" sample_env]]]
    by (elim mp) simp
  have "security_event (PVector NETWORK) (lit ''x'') (lit ''h'') (PInt 3) [] sample_env
      = (Inr (built_event NETWORK (lit ''x'') (lit ''h'') 3 [] sample_env), env_ticked sample_env)"
    by (simp add: op_simps)
  then show "event_ok (built_event NETWORK (lit ''x'') (lit ''h'') 3 [] sample_env)"
    using T [of "PVector NETWORK" "lit ''x''" "lit ''h''" "PInt 3" "[]" sample_env] by blast
qed

end
