(* ===== verification/Fifo.thy ===== *)
theory Fifo
  imports Prelude
begin

text \<open>
  The interface of the two queues of the program, \<open>queue.Queue\<close> behind the alert queue
  and \<open>asyncio.Queue\<close> behind the event bus: a state with a content list, a \<open>push\<close>
  that appends when there is room and otherwise changes nothing, a \<open>pop\<close> that takes the
  head. An unbounded queue always has room.
\<close>

locale fifo =
  fixes contents :: "'q \<Rightarrow> 'a list"
    and room :: "'q \<Rightarrow> bool"
    and push :: "'a \<Rightarrow> 'q \<Rightarrow> 'q"
    and pop :: "'q \<Rightarrow> ('a \<times> 'q) option"
  assumes contents_push: "contents (push x q) = (if room q then contents q @ [x] else contents q)"
    and pop_None: "pop q = None \<longleftrightarrow> contents q = []"
    and pop_Some: "pop q = Some (x, q') \<Longrightarrow> contents q = x # contents q'"
begin

lemma pop_cases: "(case pop q of None \<Rightarrow> contents q = [] | Some (x, q') \<Rightarrow> contents q = x # contents q')"
  using pop_None [of q] pop_Some [of q] by (cases "pop q") auto

lemma pop_shrinks: "pop q = Some (x, q') \<Longrightarrow> length (contents q') < length (contents q)"
  using pop_Some by fastforce

lemma push_pop_head: "contents q = y # ys \<Longrightarrow> room q \<Longrightarrow>
  (\<exists>q'. pop (push x q) = Some (y, q') \<and> contents q' = ys @ [x])"
proof -
  assume q: "contents q = y # ys" "room q"
  then have c: "contents (push x q) = y # ys @ [x]" by (simp add: contents_push)
  then obtain z q' where p: "pop (push x q) = Some (z, q')"
    using pop_None [of "push x q"] by (cases "pop (push x q)") auto
  with c pop_Some [OF p] show ?thesis by auto
qed

end

locale unbounded_fifo = fifo +
  assumes always_room: "room q"
begin

lemma contents_push_all: "contents (fold push xs q) = contents q @ xs"
  by (induction xs arbitrary: q) (simp_all add: contents_push always_room)

lemma push_not_empty: "pop (push x q) \<noteq> None"
  by (simp add: pop_None contents_push always_room)

end

end
