(* ===== verification/Alert_Queue.thy ===== *)
theory Alert_Queue
  imports Events Fifo
begin

text \<open>
  \<open>xdr/core/alert_queue.py\<close>: standardized alerts, the shared \<open>ALERT_QUEUE\<close> (an unbounded
  \<open>queue.Queue\<close>, its content as a list, oldest first), \<open>make_alert\<close> with its severity
  check, \<open>push_alert\<close> and the non-blocking \<open>drain_all\<close>.
\<close>

record alert =
  al_type :: str
  al_src :: str
  al_timestamp :: pyfloat
  al_severity :: str

record alert_env = env +
  ALERT_QUEUE :: "alert list"

definition VALID_SEVERITIES :: "str set" where
  "VALID_SEVERITIES = {lit ''low'', lit ''medium'', lit ''high'', lit ''critical''}"

definition make_alert ::
  "str \<Rightarrow> str \<Rightarrow> str \<Rightarrow> pyfloat option \<Rightarrow> ('a env_scheme, alert) op" where
  "make_alert alert_type src severity timestamp =
     (if severity \<notin> VALID_SEVERITIES then raise_err ValueError
      else and_then (case timestamp of Some t \<Rightarrow> ret t | None \<Rightarrow> time_now) (\<lambda>t.
        ret \<lparr>al_type = alert_type, al_src = src, al_timestamp = t, al_severity = severity\<rparr>))"

definition queue_put :: "alert \<Rightarrow> 'a alert_env_scheme \<Rightarrow> 'a alert_env_scheme" where
  "queue_put a s = s\<lparr>ALERT_QUEUE := ALERT_QUEUE s @ [a]\<rparr>"

text \<open>\<open>get_nowait\<close>; \<open>None\<close> stands for the \<open>queue.Empty\<close> it raises.\<close>

definition get_nowait :: "'a alert_env_scheme \<Rightarrow> (alert \<times> 'a alert_env_scheme) option" where
  "get_nowait s = (case ALERT_QUEUE s of [] \<Rightarrow> None | a # q \<Rightarrow> Some (a, s\<lparr>ALERT_QUEUE := q\<rparr>))"

definition push_alert :: "str \<Rightarrow> str \<Rightarrow> str \<Rightarrow> ('a alert_env_scheme, alert) op" where
  "push_alert alert_type src severity =
     and_then (make_alert alert_type src severity None) (\<lambda>alert.
       and_then (change (queue_put alert)) (\<lambda>_. ret alert))"

text \<open>The loop of \<open>drain_all\<close>: it ends at the first \<open>queue.Empty\<close>.\<close>

function drain_loop :: "alert list \<Rightarrow> 'a alert_env_scheme \<Rightarrow> alert list \<times> 'a alert_env_scheme" where
  "drain_loop alerts s =
     (case get_nowait s of None \<Rightarrow> (alerts, s) | Some (a, s') \<Rightarrow> drain_loop (alerts @ [a]) s')"
  by pat_completeness auto
termination
  by (relation "measure (\<lambda>(alerts, s). length (ALERT_QUEUE s))")
    (auto simp: get_nowait_def split: list.splits)

declare drain_loop.simps [simp del]

definition drain_all :: "('a alert_env_scheme, alert list) op" where
  "drain_all = (\<lambda>s. case drain_loop [] s of (alerts, s') \<Rightarrow> (Inr alerts, s'))"

interpretation alert_fifo: unbounded_fifo ALERT_QUEUE "\<lambda>_. True" queue_put get_nowait
  by unfold_locales (auto simp: queue_put_def get_nowait_def split: list.splits)

section \<open>Functional behaviour\<close>

lemma make_alert_now:
  "sev \<in> VALID_SEVERITIES \<Longrightarrow> make_alert ty src sev None s =
     (Inr \<lparr>al_type = ty, al_src = src, al_timestamp = env_clock s (env_reads s), al_severity = sev\<rparr>,
      s\<lparr>env_reads := Suc (env_reads s)\<rparr>)"
  by (simp add: make_alert_def op_simps)

definition alert_at :: "str \<Rightarrow> str \<Rightarrow> str \<Rightarrow> 'a env_scheme \<Rightarrow> alert" where
  "alert_at ty src sev s =
     \<lparr>al_type = ty, al_src = src, al_timestamp = env_clock s (env_reads s), al_severity = sev\<rparr>"

definition alert_pushed :: "str \<Rightarrow> str \<Rightarrow> str \<Rightarrow> 'a alert_env_scheme \<Rightarrow> 'a alert_env_scheme" where
  "alert_pushed ty src sev s =
     s\<lparr>env_reads := Suc (env_reads s), ALERT_QUEUE := ALERT_QUEUE s @ [alert_at ty src sev s]\<rparr>"

lemma push_alert_valid [op_simps]:
  "sev \<in> VALID_SEVERITIES \<Longrightarrow>
   push_alert ty src sev s = (Inr (alert_at ty src sev s), alert_pushed ty src sev s)"
  by (simp add: push_alert_def make_alert_now op_simps queue_put_def alert_at_def alert_pushed_def)

lemma push_alert_invalid [op_simps]:
  "sev \<notin> VALID_SEVERITIES \<Longrightarrow> push_alert ty src sev s = (Inl ValueError, s)"
  by (simp add: push_alert_def make_alert_def op_simps)

lemma severity_literals [simp]:
  "lit ''low'' \<in> VALID_SEVERITIES" "lit ''medium'' \<in> VALID_SEVERITIES"
  "lit ''high'' \<in> VALID_SEVERITIES" "lit ''critical'' \<in> VALID_SEVERITIES"
  by (simp_all add: VALID_SEVERITIES_def)

lemma drain_loop_eq: "drain_loop acc s = (acc @ ALERT_QUEUE s, s\<lparr>ALERT_QUEUE := []\<rparr>)"
proof (induction acc s rule: drain_loop.induct)
  case (1 acc s)
  show ?case
  proof (cases "ALERT_QUEUE s")
    case Nil
    then show ?thesis by (simp add: drain_loop.simps [of acc s] get_nowait_def)
  next
    case (Cons a q)
    then have "get_nowait s = Some (a, s\<lparr>ALERT_QUEUE := q\<rparr>)" by (simp add: get_nowait_def)
    with 1 Cons show ?thesis by (simp add: drain_loop.simps [of acc s])
  qed
qed

lemma drain_all_eq [op_simps]: "drain_all s = (Inr (ALERT_QUEUE s), s\<lparr>ALERT_QUEUE := []\<rparr>)"
  by (simp add: drain_all_def drain_loop_eq)

text \<open>However many alerts are pushed one after another, one drain returns what was in the
  queue followed by every pushed alert in push order, each stamped with the clock reading of
  its own push, and leaves the queue empty; a second drain returns nothing.\<close>

theorem drain_returns_all_pushed:
  assumes "\<forall>(ty, src, sev) \<in> set xs. sev \<in> VALID_SEVERITIES"
    and "for_each (\<lambda>(ty, src, sev). and_then (push_alert ty src sev) (\<lambda>_. ret ())) xs s = (r, s')"
  shows "r = Inr ()
    \<and> fst (drain_all s') = Inr (ALERT_QUEUE s @ map (\<lambda>(i, ty, src, sev).
          \<lparr>al_type = ty, al_src = src, al_timestamp = env_clock s (env_reads s + i), al_severity = sev\<rparr>)
        (zip [0..<length xs] xs))
    \<and> fst (drain_all (snd (drain_all s'))) = Inr []"
proof -
  have "r = Inr () \<and> env_clock s' = env_clock s
    \<and> ALERT_QUEUE s' = ALERT_QUEUE s @ map (\<lambda>(i, ty, src, sev).
          \<lparr>al_type = ty, al_src = src, al_timestamp = env_clock s (env_reads s + i), al_severity = sev\<rparr>)
        (zip [0..<length xs] xs)"
    using assms
  proof (induction xs arbitrary: s)
    case Nil
    then show ?case by (simp add: op_simps)
  next
    case (Cons x xs)
    obtain ty src sev where x: "x = (ty, src, sev)" by (cases x)
    with Cons.prems have "and_then (push_alert ty src sev) (\<lambda>_. ret ()) s = (Inr (), alert_pushed ty src sev s)"
      by (auto simp: op_simps)
    with Cons.prems(2)
    have run: "for_each (\<lambda>(ty, src, sev). and_then (push_alert ty src sev) (\<lambda>_. ret ())) xs
        (alert_pushed ty src sev s) = (r, s')" by (simp add: x)
    have shift: "zip [0..<length (x # xs)] (x # xs) = (0, x) # map (\<lambda>(i, y). (Suc i, y)) (zip [0..<length xs] xs)"
      by (simp add: zip_map1 map_Suc_upt [symmetric] upt_conv_Cons del: upt_Suc)
    show ?case
      using Cons.IH [OF _ run] Cons.prems(1) unfolding shift
      by (simp add: x alert_pushed_def alert_at_def comp_def case_prod_unfold)
  qed
  then show ?thesis by (simp add: op_simps)
qed

definition sample_alert_env :: alert_env where
  "sample_alert_env = \<lparr>env_clock = (\<lambda>i. 1000 + of_nat i), env_reads = 0,
     env_uuids = (\<lambda>i. dec (int i)), env_draws = 0, ALERT_QUEUE = []\<rparr>"

theorem drain_returns_all_pushed_witness:
  "fst (drain_all (snd (for_each (\<lambda>(ty, src, sev). and_then (push_alert ty src sev) (\<lambda>_. ret ()))
      [(lit ''file_created'', lit ''/a'', lit ''low''), (lit ''file_deleted'', lit ''/b'', lit ''medium'')] sample_alert_env)))
   = Inr [\<lparr>al_type = lit ''file_created'', al_src = lit ''/a'', al_timestamp = 1000, al_severity = lit ''low''\<rparr>,
          \<lparr>al_type = lit ''file_deleted'', al_src = lit ''/b'', al_timestamp = 1001, al_severity = lit ''medium''\<rparr>]"
proof -
  let ?xs = "[(lit ''file_created'', lit ''/a'', lit ''low''), (lit ''file_deleted'', lit ''/b'', lit ''medium'')]"
  let ?s = sample_alert_env
  obtain r s' where run: "for_each (\<lambda>(ty, src, sev). and_then (push_alert ty src sev) (\<lambda>_. ret ())) ?xs ?s = (r, s')"
    by fastforce
  have "\<forall>(ty, src, sev) \<in> set ?xs. sev \<in> VALID_SEVERITIES" by simp
  from drain_returns_all_pushed [OF this run] run show ?thesis
    by (simp add: sample_alert_env_def upt_conv_Cons)
qed

end
