(* ===== verification/Event_Bus.thy ===== *)
theory Event_Bus
  imports Alert_Queue
begin

text \<open>
  \<open>xdr/core/event_bus.py\<close>: the \<open>CorrelationEngine\<close>, an \<open>asyncio.Queue\<close> with the event
  loop it is bound to. \<open>call_soon_threadsafe\<close> appends a callback to the loop's ready list
  and the loop later runs the callbacks in order: \<open>ready l\<close> are the events whose
  \<open>put_nowait\<close> is scheduled on loop \<open>l\<close>. A \<open>maxsize\<close> of 0 or less is unbounded. The
  class defines \<open>publish_threadsafe\<close> twice; the second definition is the one in force.
  A \<open>put\<close> on a full queue and a \<open>get\<close> on an empty one wait: here they are not enabled.
\<close>

type_synonym loop_id = nat

record engine =
  queue :: "event list"
  maxsize :: int
  bound_loop :: "loop_id option"
  loop_closed :: "loop_id \<Rightarrow> bool"
  ready :: "loop_id \<Rightarrow> event list"

definition new_engine :: "int \<Rightarrow> engine" where
  "new_engine n = \<lparr>queue = [], maxsize = n, bound_loop = None, loop_closed = (\<lambda>_. False), ready = (\<lambda>_. [])\<rparr>"

definition has_room :: "engine \<Rightarrow> bool" where
  "has_room g \<longleftrightarrow> maxsize g \<le> 0 \<or> int (length (queue g)) < maxsize g"

text \<open>\<open>bind_loop(loop)\<close>; the second argument is the running loop, whose absence makes
  \<open>get_running_loop\<close> raise.\<close>

definition bind_loop :: "loop_id option \<Rightarrow> loop_id option \<Rightarrow> (engine, unit) op" where
  "bind_loop loop running =
     (case loop of
        Some l \<Rightarrow> change (\<lambda>g. g\<lparr>bound_loop := Some l\<rparr>)
      | None \<Rightarrow> (case running of
                  Some l \<Rightarrow> change (\<lambda>g. g\<lparr>bound_loop := Some l\<rparr>)
                | None \<Rightarrow> raise_err RuntimeError))"

definition call_soon_put :: "loop_id \<Rightarrow> event \<Rightarrow> engine \<Rightarrow> engine" where
  "call_soon_put l e g = g\<lparr>ready := (ready g)(l := ready g l @ [e])\<rparr>"

text \<open>Without a loop the method raises; on a closed one \<open>call_soon_threadsafe\<close> does.\<close>

definition publish_threadsafe :: "event \<Rightarrow> (engine, unit) op" where
  "publish_threadsafe e =
     and_then (ask bound_loop) (\<lambda>b. case b of
         None \<Rightarrow> raise_err RuntimeError
       | Some l \<Rightarrow> and_then (ask (\<lambda>g. loop_closed g l)) (\<lambda>closed.
           if closed then raise_err RuntimeError else change (call_soon_put l e)))"

text \<open>The end of \<open>asyncio.run\<close>: the loop's remaining callbacks never run.\<close>

definition close_loop :: "loop_id \<Rightarrow> engine \<Rightarrow> engine" where
  "close_loop l g = g\<lparr>loop_closed := (loop_closed g)(l := True)\<rparr>"

text \<open>The loop a publication reaches.\<close>

definition usable_loop :: "engine \<Rightarrow> loop_id option" where
  "usable_loop g = (case bound_loop g of None \<Rightarrow> None | Some l \<Rightarrow> if loop_closed g l then None else Some l)"

definition put_event :: "event \<Rightarrow> engine \<Rightarrow> engine" where
  "put_event e g = (if has_room g then g\<lparr>queue := queue g @ [e]\<rparr> else g)"

definition put_nowait :: "event \<Rightarrow> (engine, unit) op" where
  "put_nowait e g = (if has_room g then Inr () else Inl QueueFull, put_event e g)"

text \<open>\<open>await publish(event)\<close>: \<open>None\<close> while the queue is full.\<close>

definition publish :: "event \<Rightarrow> engine \<Rightarrow> engine option" where
  "publish e g = (if has_room g then Some (put_event e g) else None)"

text \<open>\<open>await get()\<close>: \<open>None\<close> while the queue is empty.\<close>

definition get_event :: "engine \<Rightarrow> (event \<times> engine) option" where
  "get_event g = (case queue g of [] \<Rightarrow> None | e # q \<Rightarrow> Some (e, g\<lparr>queue := q\<rparr>))"

definition qsize :: "engine \<Rightarrow> int" where
  "qsize g = int (length (queue g))"

interpretation event_fifo: fifo queue has_room put_event get_event
  by unfold_locales (auto simp: put_event_def get_event_def split: list.splits)

lemma publish_threadsafe_bound [op_simps]:
  "usable_loop g = Some l \<Longrightarrow> publish_threadsafe e g = (Inr (), call_soon_put l e g)"
  by (auto simp: publish_threadsafe_def usable_loop_def op_simps split: option.splits if_splits)

lemma publish_threadsafe_unbound [op_simps]:
  "usable_loop g = None \<Longrightarrow> publish_threadsafe e g = (Inl RuntimeError, g)"
  by (auto simp: publish_threadsafe_def usable_loop_def op_simps split: option.splits if_splits)

lemma usable_simps [simp]:
  "usable_loop (g\<lparr>queue := q\<rparr>) = usable_loop g" "usable_loop (g\<lparr>ready := r\<rparr>) = usable_loop g"
  "usable_loop (g\<lparr>maxsize := n\<rparr>) = usable_loop g" "usable_loop (new_engine n) = None"
  "usable_loop (g\<lparr>bound_loop := Some l\<rparr>) = (if loop_closed g l then None else Some l)"
  "usable_loop (g\<lparr>bound_loop := None\<rparr>) = None"
  "loop_closed (new_engine n) = (\<lambda>_. False)" "bound_loop (new_engine n) = None"
  by (simp_all add: usable_loop_def new_engine_def cong: option.case_cong)

lemma usable_bound: "usable_loop g = Some l \<Longrightarrow> bound_loop g = Some l \<and> \<not> loop_closed g l"
  by (auto simp: usable_loop_def split: option.splits if_splits)

section \<open>The bus as a transition system\<close>

text \<open>
  What can happen to one engine, in any order and interleaving: a detector thread
  publishes, a coroutine puts, the loop runs its next callback, the consumer gets, a loop is
  closed, after which its callbacks no longer run and publications to it raise. A
  callback on a full queue raises \<open>QueueFull\<close> inside the loop: the event is lost.
\<close>

datatype bus_action =
    Published loop_id event | PublishRefused event | PutAsync event
  | Delivered loop_id event | Lost loop_id event | Consumed event | Bound loop_id
  | LoopClosed loop_id

inductive bus_step :: "engine \<Rightarrow> bus_action \<Rightarrow> engine \<Rightarrow> bool" where
  threadsafe: "publish_threadsafe e g = (Inr (), g') \<Longrightarrow> bound_loop g = Some l \<Longrightarrow>
    bus_step g (Published l e) g'"
| refused: "publish_threadsafe e g = (Inl x, g') \<Longrightarrow> bus_step g (PublishRefused e) g'"
| async_put: "publish e g = Some g' \<Longrightarrow> bus_step g (PutAsync e) g'"
| callback: "\<not> loop_closed g l \<Longrightarrow> ready g l = e # es \<Longrightarrow>
    put_nowait e (g\<lparr>ready := (ready g)(l := es)\<rparr>) = (Inr (), g') \<Longrightarrow>
    bus_step g (Delivered l e) g'"
| callback_full: "\<not> loop_closed g l \<Longrightarrow> ready g l = e # es \<Longrightarrow>
    put_nowait e (g\<lparr>ready := (ready g)(l := es)\<rparr>) = (Inl x, g') \<Longrightarrow>
    bus_step g (Lost l e) g'"
| consume: "get_event g = Some (e, g') \<Longrightarrow> bus_step g (Consumed e) g'"
| bind: "bind_loop loop (Some r) g = (Inr (), g') \<Longrightarrow>
    bus_step g (Bound (case loop of Some l \<Rightarrow> l | None \<Rightarrow> r)) g'"
| close: "bus_step g (LoopClosed l) (close_loop l g)"

inductive_cases bus_stepE:
  "bus_step g (Published l e) g'" "bus_step g (PublishRefused e) g'" "bus_step g (PutAsync e) g'"
  "bus_step g (Delivered l e) g'" "bus_step g (Lost l e) g'" "bus_step g (Consumed e) g'" "bus_step g (Bound l) g'"
  "bus_step g (LoopClosed l) g'"

text \<open>Only the interleaving is a matter of chance: an action determines its outcome.\<close>

lemma bus_step_deterministic: "bus_step g a g' \<Longrightarrow> bus_step g a g'' \<Longrightarrow> g' = g''"
  by (cases a) (auto elim!: bus_stepE simp: bind_loop_def op_simps split: option.splits)

inductive bus_run :: "engine \<Rightarrow> bus_action list \<Rightarrow> engine \<Rightarrow> bool" where
  start: "bus_run g [] g"
| more: "bus_run g as g' \<Longrightarrow> bus_step g' a g'' \<Longrightarrow> bus_run g (as @ [a]) g''"

fun published_on :: "loop_id \<Rightarrow> bus_action \<Rightarrow> event list" where
  "published_on l (Published l' e) = (if l = l' then [e] else [])"
| "published_on l a = []"

fun left_ready :: "loop_id \<Rightarrow> bus_action \<Rightarrow> event list" where
  "left_ready l (Delivered l' e) = (if l = l' then [e] else [])"
| "left_ready l (Lost l' e) = (if l = l' then [e] else [])"
| "left_ready l a = []"

fun entered :: "bus_action \<Rightarrow> event list" where
  "entered (Delivered l e) = [e]"
| "entered (PutAsync e) = [e]"
| "entered a = []"

fun consumed :: "bus_action \<Rightarrow> event list" where
  "consumed (Consumed e) = [e]"
| "consumed a = []"

definition all_of :: "('x \<Rightarrow> 'y list) \<Rightarrow> 'x list \<Rightarrow> 'y list" where
  "all_of f as = concat (map f as)"

lemma all_of_simps [simp]: "all_of f [] = []" "all_of f (as @ bs) = all_of f as @ all_of f bs"
  "all_of f [a] = f a"
  by (simp_all add: all_of_def)

lemmas bus_defs = publish_threadsafe_def bind_loop_def call_soon_put_def put_nowait_def
  put_event_def publish_def get_event_def close_loop_def

lemma bus_step_queue: "bus_step g a g' \<Longrightarrow> consumed a @ queue g' = queue g @ entered a"
  by (induction rule: bus_step.induct)
    (auto simp: bus_defs op_simps split: option.splits list.splits if_splits)

lemma bus_step_ready: "bus_step g a g' \<Longrightarrow> left_ready l a @ ready g' l = ready g l @ published_on l a"
  by (induction rule: bus_step.induct)
    (auto simp: bus_defs op_simps split: option.splits list.splits if_splits)

lemma bus_step_maxsize: "bus_step g a g' \<Longrightarrow> maxsize g' = maxsize g"
  by (induction rule: bus_step.induct)
    (auto simp: bus_defs op_simps split: option.splits list.splits if_splits)

lemma bus_step_bounded:
  "bus_step g a g' \<Longrightarrow> maxsize g \<le> 0 \<or> qsize g \<le> maxsize g \<Longrightarrow> maxsize g' \<le> 0 \<or> qsize g' \<le> maxsize g'"
  by (induction rule: bus_step.induct)
    (auto simp: bus_defs op_simps qsize_def has_room_def split: option.splits list.splits if_splits)

lemma bus_run_maxsize: "bus_run g as g' \<Longrightarrow> maxsize g' = maxsize g"
  by (induction rule: bus_run.induct) (auto dest: bus_step_maxsize)

lemma bus_run_queue: "bus_run g as g' \<Longrightarrow> all_of consumed as @ queue g' = queue g @ all_of entered as"
proof (induction rule: bus_run.induct)
  case (start g)
  then show ?case by simp
next
  case (more g as g' a g'')
  have "all_of consumed (as @ [a]) @ queue g'' = all_of consumed as @ queue g' @ entered a"
    using bus_step_queue [OF more.hyps(2)] by simp
  also have "\<dots> = queue g @ all_of entered (as @ [a])"
    using more.IH by (simp flip: append_assoc)
  finally show ?case .
qed

lemma bus_run_ready:
  "bus_run g as g' \<Longrightarrow> all_of (left_ready l) as @ ready g' l = ready g l @ all_of (published_on l) as"
proof (induction rule: bus_run.induct)
  case (start g)
  then show ?case by simp
next
  case (more g as g' a g'')
  have "all_of (left_ready l) (as @ [a]) @ ready g'' l = all_of (left_ready l) as @ ready g' l @ published_on l a"
    using bus_step_ready [OF more.hyps(2), of l] by simp
  also have "\<dots> = ready g l @ all_of (published_on l) (as @ [a])"
    using more.IH by (simp flip: append_assoc)
  finally show ?case .
qed

lemma unbounded_never_loses:
  assumes "bus_run g as g'" "maxsize g \<le> 0"
  shows "Lost l e \<notin> set as"
  using assms
proof (induction rule: bus_run.induct)
  case (start g)
  then show ?case by simp
next
  case (more g as g' a g'')
  then have "maxsize g' \<le> 0" using bus_run_maxsize by fastforce
  then have "a \<noteq> Lost l e" using more.hyps(2)
    by (auto elim!: bus_step.cases simp: put_nowait_def has_room_def)
  with more show ?case by simp
qed

section \<open>Delivery\<close>

text \<open>A sample run: bind, publish two events, deliver the first, consume it.\<close>

lemma bus_run_snocI: "bus_run g as g' \<Longrightarrow> bus_step g' a g'' \<Longrightarrow> bs = as @ [a] \<Longrightarrow> bus_run g bs g''"
  by (auto intro: bus_run.more)

definition bus_sample :: "engine \<Rightarrow> event \<Rightarrow> event \<Rightarrow> engine" where
  "bus_sample g e e' = g\<lparr>bound_loop := Some 7, queue := [], ready := (ready g)(7 := [e'])\<rparr>"

lemma bus_sample_run:
  "bus_run (new_engine 0) [Bound 7, Published 7 e, Published 7 e', Delivered 7 e, Consumed e]
     (bus_sample (new_engine 0) e e')"
proof -
  let ?g1 = "(new_engine 0)\<lparr>bound_loop := Some 7\<rparr>"
  let ?g2 = "call_soon_put 7 e ?g1"
  let ?g3 = "call_soon_put 7 e' ?g2"
  let ?g4 = "?g3\<lparr>ready := (ready ?g3)(7 := [e']), queue := [e]\<rparr>"
  have s1: "bus_step (new_engine 0) (Bound 7) ?g1"
    using bus_step.bind [of "Some 7" 7 "new_engine 0" ?g1] by (simp add: bus_defs op_simps)
  have s2: "bus_step ?g1 (Published 7 e) ?g2"
    by (rule bus_step.threadsafe) (simp_all add: op_simps)
  have s3: "bus_step ?g2 (Published 7 e') ?g3"
    by (rule bus_step.threadsafe) (simp_all add: op_simps call_soon_put_def)
  have s4: "bus_step ?g3 (Delivered 7 e) ?g4"
    by (rule bus_step.callback [where es = "[e']"])
      (simp_all add: call_soon_put_def put_nowait_def put_event_def has_room_def new_engine_def)
  have s5: "bus_step ?g4 (Consumed e) (bus_sample (new_engine 0) e e')"
    by (rule bus_step.consume)
      (simp add: get_event_def bus_sample_def call_soon_put_def new_engine_def fun_upd_def fun_eq_iff)
  show ?thesis
    using bus_run.more [OF bus_run.more [OF bus_run.more [OF bus_run.more [OF
      bus_run.more [OF bus_run.start s1] s2] s3] s4] s5] by simp
qed

definition detectors_only :: "loop_id \<Rightarrow> bus_action \<Rightarrow> bool" where
  "detectors_only l a \<longleftrightarrow>
     (case a of PutAsync e \<Rightarrow> False | Published l' e \<Rightarrow> l' = l | _ \<Rightarrow> True)"

lemma published_elsewhere:
  "list_all (detectors_only l) as \<Longrightarrow> l' \<noteq> l \<Longrightarrow> all_of (published_on l') as = []"
  by (induction as) (auto simp: all_of_def detectors_only_def split: bus_action.splits)

lemma entered_eq_left_ready:
  assumes "list_all (detectors_only l) as"
    and "\<And>l e. Lost l e \<notin> set as" and "\<And>l' e. Delivered l' e \<in> set as \<Longrightarrow> l' = l"
  shows "all_of entered as = all_of (left_ready l) as"
  using assms
proof (induction as)
  case Nil
  then show ?case by simp
next
  case (Cons a as)
  have "entered a = left_ready l a"
    using Cons.prems by (cases a) (auto simp: detectors_only_def)
  moreover have "all_of entered as = all_of (left_ready l) as"
    using Cons.prems by (intro Cons.IH) auto
  ultimately show ?case by (simp add: all_of_def)
qed

lemma delivered_in_ready: "Delivered l e \<in> set as \<Longrightarrow> e \<in> set (all_of (left_ready l) as)"
  by (force simp: all_of_def)

text \<open>C2: on an engine of unbounded size whose events come from detector threads only, through
  the loop it is bound to, no event is lost, duplicated or reordered: in every interleaving
  the events consumed, then those in the queue, then those still scheduled on the loop are
  exactly the published ones, in publication order.\<close>

theorem threadsafe_delivery_lossless:
  assumes "bus_run (new_engine n) as g" and "n \<le> 0" and "list_all (detectors_only l) as"
  shows "all_of consumed as @ queue g @ ready g l = all_of (published_on l) as"
proof -
  have lost: "Lost l' e \<notin> set as" for l' e
    using unbounded_never_loses [OF assms(1)] assms(2) by (simp add: new_engine_def)
  have elsewhere: "l' = l" if "Delivered l' e \<in> set as" for l' e
  proof (rule ccontr)
    assume "l' \<noteq> l"
    then have "all_of (left_ready l') as = []"
      using bus_run_ready [OF assms(1), of l'] published_elsewhere [OF assms(3)]
      by (simp add: new_engine_def)
    with delivered_in_ready [OF that] show False by simp
  qed
  have "all_of consumed as @ queue g = all_of (left_ready l) as"
    using bus_run_queue [OF assms(1)] entered_eq_left_ready [OF assms(3) lost elsewhere]
    by (simp add: new_engine_def)
  then show ?thesis
    using bus_run_ready [OF assms(1), of l] by (simp add: new_engine_def flip: append_assoc)
qed

theorem threadsafe_delivery_lossless_witness:
  "let e = sample_event ''a'' ''h'' 3 1; e' = sample_event ''b'' ''h'' 3 2;
       g = bus_sample (new_engine 0) e e' in
   [e] @ queue g @ ready g 7 = [e, e']"
proof -
  let ?e = "sample_event ''a'' ''h'' 3 1" and ?e' = "sample_event ''b'' ''h'' 3 2"
  have "list_all (detectors_only 7) [Bound 7, Published 7 ?e, Published 7 ?e', Delivered 7 ?e, Consumed ?e]"
    by (simp add: detectors_only_def)
  from threadsafe_delivery_lossless [OF bus_sample_run _ this] show ?thesis
    by (simp add: Let_def all_of_def)
qed

text \<open>C18: whatever the interleaving and the origin of the events, the queue is first in, first
  out (what was consumed, followed by the content, is what entered, in order of entry), its
  length never exceeds a positive maxsize, and an event is dropped only when the queue is full
  at the moment its callback runs, which leaves the queue as it was.\<close>

theorem bus_queue_fifo_bounded:
  assumes "bus_run (new_engine n) as g"
  shows "all_of consumed as @ queue g = all_of entered as
    \<and> (n \<le> 0 \<or> qsize g \<le> n)
    \<and> (\<forall>l e g'. bus_step g (Lost l e) g' \<longrightarrow> 0 < n \<and> qsize g = n \<and> queue g' = queue g)"
proof -
  have ms: "maxsize g = n"
    using bus_run_maxsize [OF assms] by (simp add: new_engine_def)
  have "bus_run g0 as g \<Longrightarrow> maxsize g0 \<le> 0 \<or> qsize g0 \<le> maxsize g0 \<Longrightarrow> maxsize g \<le> 0 \<or> qsize g \<le> maxsize g" for g0
    by (induction rule: bus_run.induct) (auto dest: bus_step_bounded)
  moreover have "maxsize (new_engine n) \<le> 0 \<or> qsize (new_engine n) \<le> maxsize (new_engine n)"
    by (auto simp: new_engine_def qsize_def)
  ultimately have bnd: "n \<le> 0 \<or> qsize g \<le> n"
    using assms ms by blast
  have "0 < n \<and> qsize g = n \<and> queue g' = queue g" if "bus_step g (Lost l e) g'" for l e g'
    using that bnd ms
    by (auto elim!: bus_step.cases simp: put_nowait_def put_event_def has_room_def qsize_def split: if_splits)
  with bnd show ?thesis
    using bus_run_queue [OF assms] by (auto simp: new_engine_def)
qed

theorem bus_queue_fifo_bounded_witness:
  "let e = sample_event ''a'' ''h'' 3 1; e' = sample_event ''b'' ''h'' 3 2;
       g = bus_sample (new_engine 0) e e' in
   [e] @ queue g = [e]"
  using bus_queue_fifo_bounded [OF bus_sample_run [of "sample_event ''a'' ''h'' 3 1" "sample_event ''b'' ''h'' 3 2"]]
  by (simp add: Let_def all_of_def)

end
