(* ===== verification/World.thy ===== *)
theory World
  imports Event_Bus
begin

text \<open>
  The state the detectors share: the clock and identifier source, \<open>ALERT_QUEUE\<close> and the
  module-level \<open>ENGINE\<close>. \<open>emit\<close> is the statement every detector ends in,
  \<open>ENGINE.publish_threadsafe(SecurityEvent(...))\<close>. A \<open>report\<close> is an event without the
  identifier and time that its construction stamps on it, and \<open>emitted rs\<close> relates a state
  to one in which events for the reports \<open>rs\<close>, and nothing else, have been handed to the
  bus. The locale \<open>detector\<close> is the contract of a detector's packet or event handler.
\<close>

record world = alert_env +
  ENGINE :: engine

definition publish_world :: "event \<Rightarrow> ('a world_scheme, unit) op" where
  "publish_world e = (\<lambda>w. case publish_threadsafe e (ENGINE w) of (r, g) \<Rightarrow> (r, w\<lparr>ENGINE := g\<rparr>))"

definition emit ::
  "vector \<Rightarrow> str \<Rightarrow> str \<Rightarrow> int \<Rightarrow> (str, pyval) dict \<Rightarrow> ('a world_scheme, unit) op" where
  "emit v ty src severity metadata =
     and_then (security_event (PVector v) ty src (PInt severity) metadata) publish_world"

definition bound :: "loop_id \<Rightarrow> 'a world_scheme \<Rightarrow> bool" where
  "bound l w \<longleftrightarrow> usable_loop (ENGINE w) = Some l"

section \<open>Reports\<close>

record report =
  rp_vector :: vector
  rp_type :: str
  rp_src :: str
  rp_severity :: int
  rp_metadata :: "(str, pyval) dict"

definition report_of :: "event \<Rightarrow> report" where
  "report_of e = \<lparr>rp_vector = ev_vector e, rp_type = ev_type e, rp_src = ev_src e,
     rp_severity = ev_severity e, rp_metadata = ev_metadata e\<rparr>"

definition report_ok :: "report \<Rightarrow> bool" where
  "report_ok r \<longleftrightarrow> 1 \<le> rp_severity r \<and> rp_severity r \<le> 5 \<and> json_ok (PDict (rp_metadata r))"

definition emit_report :: "report \<Rightarrow> ('a world_scheme, unit) op" where
  "emit_report r = emit (rp_vector r) (rp_type r) (rp_src r) (rp_severity r) (rp_metadata r)"

text \<open>Timestamps are clock readings taken one after another between two states.\<close>

definition stamped :: "(nat \<Rightarrow> pyfloat) \<Rightarrow> nat \<Rightarrow> nat \<Rightarrow> event list \<Rightarrow> bool" where
  "stamped clock m n es \<longleftrightarrow>
     (\<exists>js. sorted_wrt (<) js \<and> set js \<subseteq> {m..<n} \<and> map ev_timestamp es = map clock js)"

definition posted :: "event list \<Rightarrow> engine \<Rightarrow> engine" where
  "posted es g = (case usable_loop g of None \<Rightarrow> g | Some l \<Rightarrow> fold (call_soon_put l) es g)"

definition emitted :: "report list \<Rightarrow> 'a world_scheme \<Rightarrow> 'a world_scheme \<Rightarrow> bool" where
  "emitted rs w w' \<longleftrightarrow> env_clock w' = env_clock w \<and> env_uuids w' = env_uuids w
     \<and> env_reads w \<le> env_reads w' \<and> env_draws w' = env_draws w + length rs
     \<and> world.more w' = world.more w
     \<and> (\<exists>es. map report_of es = rs \<and> ENGINE w' = posted es (ENGINE w)
          \<and> map ev_uuid es = map (env_uuids w) [env_draws w..<env_draws w']
          \<and> stamped (env_clock w) (env_reads w) (env_reads w') es)"

lemma call_soon_bound [simp]: "bound_loop (call_soon_put l e g) = bound_loop g"
  "usable_loop (call_soon_put l e g) = usable_loop g" "loop_closed (call_soon_put l e g) = loop_closed g"
  by (simp_all add: call_soon_put_def)

lemma fold_call_soon:
  "bound_loop (fold (call_soon_put l) es g) = bound_loop g"
  "usable_loop (fold (call_soon_put l) es g) = usable_loop g"
  "loop_closed (fold (call_soon_put l) es g) = loop_closed g"
  "queue (fold (call_soon_put l) es g) = queue g"
  "maxsize (fold (call_soon_put l) es g) = maxsize g"
  "ready (fold (call_soon_put l) es g) = (ready g)(l := ready g l @ es)"
  by (induction es arbitrary: g) (simp_all add: call_soon_put_def fun_eq_iff)

lemma posted_sel [simp]:
  "bound_loop (posted es g) = bound_loop g" "usable_loop (posted es g) = usable_loop g"
  "loop_closed (posted es g) = loop_closed g" "queue (posted es g) = queue g"
  "maxsize (posted es g) = maxsize g"
  by (simp_all add: posted_def fold_call_soon split: option.splits)

lemma posted_ready:
  "usable_loop g = Some l \<Longrightarrow> ready (posted es g) = (ready g)(l := ready g l @ es)"
  by (simp add: posted_def fold_call_soon)

lemma posted_Nil [simp]: "posted [] g = g"
  by (simp add: posted_def split: option.splits)

lemma posted_append: "posted (es @ fs) g = posted fs (posted es g)"
  by (simp add: posted_def fold_call_soon split: option.splits)

lemma stamped_Nil [simp]: "stamped c m n []"
  by (simp add: stamped_def)

lemma stamped_append:
  assumes "stamped c l m es" "stamped c m n fs" "l \<le> m" "m \<le> n"
  shows "stamped c l n (es @ fs)"
proof -
  obtain js ks where
    js: "sorted_wrt (<) js" "set js \<subseteq> {l..<m}" "map ev_timestamp es = map c js" and
    ks: "sorted_wrt (<) ks" "set ks \<subseteq> {m..<n}" "map ev_timestamp fs = map c ks"
    using assms(1,2) by (auto simp: stamped_def)
  have "\<forall>x \<in> set js. \<forall>y \<in> set ks. x < y"
    using js(2) ks(2) by (meson atLeastLessThan_iff less_le_trans subsetD)
  moreover have "set js \<union> set ks \<subseteq> {l..<n}"
    using js(2) ks(2) assms(3,4) by fastforce
  ultimately show ?thesis
    unfolding stamped_def using js ks
    by (intro exI [of _ "js @ ks"]) (simp add: sorted_wrt_append)
qed

lemma emitted_refl [simp, intro]: "emitted [] w w"
  by (simp add: emitted_def)

lemma emitted_trans:
  assumes "emitted rs w w'" "emitted rs' w' w''"
  shows "emitted (rs @ rs') w w''"
proof -
  obtain es fs where
    es: "map report_of es = rs" "ENGINE w' = posted es (ENGINE w)"
      "map ev_uuid es = map (env_uuids w) [env_draws w..<env_draws w']"
      "stamped (env_clock w) (env_reads w) (env_reads w') es" and
    fs: "map report_of fs = rs'" "ENGINE w'' = posted fs (ENGINE w')"
      "map ev_uuid fs = map (env_uuids w') [env_draws w'..<env_draws w'']"
      "stamped (env_clock w') (env_reads w') (env_reads w'') fs"
    using assms by (auto simp: emitted_def)
  have env: "env_clock w' = env_clock w" "env_uuids w' = env_uuids w" "env_reads w \<le> env_reads w'"
    "env_reads w' \<le> env_reads w''" "env_draws w \<le> env_draws w'" "env_draws w' \<le> env_draws w''"
    using assms by (simp_all add: emitted_def)
  have "map ev_uuid (es @ fs) = map (env_uuids w) [env_draws w..<env_draws w'']"
    using es(3) fs(3) env upt_add_eq_append [of "env_draws w" "env_draws w'" "env_draws w'' - env_draws w'"]
    by simp
  moreover have "stamped (env_clock w) (env_reads w) (env_reads w'') (es @ fs)"
    using stamped_append [OF es(4)] fs(4) env by simp
  moreover have "ENGINE w'' = posted (es @ fs) (ENGINE w)"
    using es(2) fs(2) by (simp add: posted_append)
  ultimately show ?thesis
    using assms es(1) fs(1) env unfolding emitted_def by (intro conjI exI [of _ "es @ fs"]) simp_all
qed

lemma emitted_bound: "emitted rs w w' \<Longrightarrow> bound l w' = bound l w"
  by (auto simp: emitted_def bound_def)

lemma emitted_tick [simp]: "emitted [] w (w\<lparr>env_reads := Suc (env_reads w)\<rparr>)"
  by (simp add: emitted_def)

text \<open>What the statement itself does.\<close>

lemma emit_unfold:
  assumes "1 \<le> n" "n \<le> 5"
  shows "emit v ty src n meta w =
    (case usable_loop (ENGINE w) of None \<Rightarrow> (Inl RuntimeError, env_ticked w)
     | Some l \<Rightarrow> (Inr (), (env_ticked w)\<lparr>ENGINE := call_soon_put l (built_event v ty src n meta w) (ENGINE w)\<rparr>))"
  using assms by (simp add: emit_def op_simps publish_world_def publish_threadsafe_def usable_loop_def env_ticked_def
      split: option.splits)

lemma emit_report_bound:
  assumes "bound l w" "report_ok r"
  shows "\<exists>w'. emit_report r w = (Inr (), w') \<and> emitted [r] w w' \<and> ALERT_QUEUE w' = ALERT_QUEUE w"
proof -
  let ?e = "built_event (rp_vector r) (rp_type r) (rp_src r) (rp_severity r) (rp_metadata r) w"
  let ?w = "(env_ticked w)\<lparr>ENGINE := call_soon_put l ?e (ENGINE w)\<rparr>"
  have "emit_report r w = (Inr (), ?w)"
    using assms by (simp add: emit_report_def emit_unfold report_ok_def bound_def)
  moreover have "emitted [r] w ?w"
  proof -
    have "report_of ?e = r" by (simp add: report_of_def)
    moreover have "ENGINE ?w = posted [?e] (ENGINE w)"
      using assms(1) by (simp add: posted_def bound_def)
    moreover have "stamped (env_clock w) (env_reads w) (env_reads ?w) [?e]"
      unfolding stamped_def by (intro exI [of _ "[env_reads w]"]) (simp add: env_ticked_def)
    ultimately show ?thesis
      unfolding emitted_def by (intro conjI exI [of _ "[?e]"]) (simp_all add: env_ticked_def built_event_def)
  qed
  ultimately show ?thesis by (intro exI [of _ ?w]) (simp add: env_ticked_def)
qed

lemma emit_report_unbound:
  "usable_loop (ENGINE w) = None \<Longrightarrow> report_ok r \<Longrightarrow> emit_report r w = (Inl RuntimeError, env_ticked w)"
  by (simp add: emit_report_def emit_unfold report_ok_def)

text \<open>The loop that emits one report after another.\<close>

lemma emit_reports_bound:
  assumes "bound l w" "\<forall>r \<in> set rs. report_ok r"
  shows "\<exists>w'. for_each emit_report rs w = (Inr (), w') \<and> emitted rs w w' \<and> ALERT_QUEUE w' = ALERT_QUEUE w"
  using assms
proof (induction rs arbitrary: w)
  case Nil
  then show ?case by (simp add: op_simps)
next
  case (Cons r rs)
  obtain w1 where w1: "emit_report r w = (Inr (), w1)" "emitted [r] w w1" "ALERT_QUEUE w1 = ALERT_QUEUE w"
    using emit_report_bound [of l w r] Cons.prems by auto
  then have "bound l w1" using Cons.prems emitted_bound by blast
  then obtain w2 where "for_each emit_report rs w1 = (Inr (), w2)" "emitted rs w1 w2" "ALERT_QUEUE w2 = ALERT_QUEUE w1"
    using Cons.IH Cons.prems(2) by auto
  then show ?case using w1 emitted_trans [OF w1(2)] by auto
qed

lemma emit_reports_unbound:
  "usable_loop (ENGINE w) = None \<Longrightarrow> \<forall>r \<in> set rs. report_ok r \<Longrightarrow>
   for_each emit_report rs w = (if rs = [] then (Inr (), w) else (Inl RuntimeError, env_ticked w))"
  by (cases rs) (simp_all add: emit_report_unbound op_simps)

section \<open>The event loop's callbacks\<close>

fun run_callbacks :: "nat \<Rightarrow> loop_id \<Rightarrow> engine \<Rightarrow> engine" where
  "run_callbacks 0 l g = g"
| "run_callbacks (Suc n) l g =
     (case ready g l of [] \<Rightarrow> g
      | e # es \<Rightarrow> run_callbacks n l (put_event e (g\<lparr>ready := (ready g)(l := es)\<rparr>)))"

lemma run_callbacks_all:
  assumes "maxsize g \<le> 0" "ready g l = es"
  shows "queue (run_callbacks (length es) l g) = queue g @ es \<and> ready (run_callbacks (length es) l g) l = []
    \<and> maxsize (run_callbacks (length es) l g) = maxsize g \<and> bound_loop (run_callbacks (length es) l g) = bound_loop g
    \<and> usable_loop (run_callbacks (length es) l g) = usable_loop g \<and> loop_closed (run_callbacks (length es) l g) = loop_closed g"
  using assms
proof (induction es arbitrary: g)
  case Nil
  then show ?case by simp
next
  case (Cons e es)
  let ?g = "put_event e (g\<lparr>ready := (ready g)(l := es)\<rparr>)"
  have "maxsize ?g \<le> 0" "ready ?g l = es" "queue ?g = queue g @ [e]" "maxsize ?g = maxsize g" "bound_loop ?g = bound_loop g"
    "usable_loop ?g = usable_loop g" "loop_closed ?g = loop_closed g"
    using Cons.prems by (simp_all add: put_event_def has_room_def)
  with Cons.IH [of ?g] Cons.prems show ?case by simp
qed

definition deliver :: "loop_id \<Rightarrow> 'a world_scheme \<Rightarrow> 'a world_scheme" where
  "deliver l s = s\<lparr>ENGINE := run_callbacks (length (ready (ENGINE s) l)) l (ENGINE s)\<rparr>"

text \<open>After one turn the events of the reports are in the queue, in order.\<close>

lemma emitted_queue:
  assumes "emitted rs w w'" "bound l w" "maxsize (ENGINE w) \<le> 0" "ready (ENGINE w) l = []"
  shows "\<exists>es. map report_of es = rs \<and> stamped (env_clock w) (env_reads w) (env_reads w') es
    \<and> queue (ENGINE (deliver l w')) = queue (ENGINE w) @ es \<and> ready (ENGINE (deliver l w')) l = []
    \<and> maxsize (ENGINE (deliver l w')) \<le> 0"
proof -
  obtain es where es: "map report_of es = rs" "ENGINE w' = posted es (ENGINE w)"
    "stamped (env_clock w) (env_reads w) (env_reads w') es"
    using assms(1) by (auto simp: emitted_def)
  have "ready (ENGINE w') l = es" "maxsize (ENGINE w') \<le> 0" "queue (ENGINE w') = queue (ENGINE w)"
    using assms(2-4) es(2) by (simp_all add: posted_ready bound_def)
  then show ?thesis
    using run_callbacks_all [of "ENGINE w'" l es] es(1,3) by (auto simp: deliver_def)
qed

text \<open>A world for the concrete runs of the other theories.\<close>

definition sample_world :: "loop_id option \<Rightarrow> world" where
  "sample_world b = \<lparr>env_clock = (\<lambda>i. 1000 + of_nat i), env_reads = 0, env_uuids = (\<lambda>i. dec (int i)),
     env_draws = 0, ALERT_QUEUE = [], ENGINE = (new_engine 0)\<lparr>bound_loop := b\<rparr>\<rparr>"

lemma sample_world_simps [simp]:
  "bound 7 (sample_world (Some 7))" "usable_loop (ENGINE (sample_world b)) = b"
  by (simp_all add: sample_world_def bound_def) (cases b; simp)

section \<open>The contract of a detector\<close>

text \<open>
  A handler \<open>step\<close> works on the detector's attributes and the shared state. \<open>view\<close> is the
  part of the attributes its answers depend on, \<open>follow\<close> how an input changes it and
  \<open>gives\<close> the reports an input causes. On an engine bound to an open loop the handler returns
  and emits exactly those reports; without a loop, or on a closed one, the first report to be
  emitted raises.
\<close>

fun reports_along :: "('p \<Rightarrow> 'v \<Rightarrow> 'v) \<Rightarrow> ('v \<Rightarrow> 'p \<Rightarrow> report list) \<Rightarrow> 'v \<Rightarrow> 'p list \<Rightarrow> report list" where
  "reports_along follow gives v [] = []"
| "reports_along follow gives v (p # ps) = gives v p @ reports_along follow gives (follow p v) ps"

lemma reports_along_append:
  "reports_along f g v (ps @ qs) = reports_along f g v ps @ reports_along f g (fold f ps v) qs"
  by (induction ps arbitrary: v) simp_all

locale detector =
  fixes step :: "'p \<Rightarrow> ('c \<times> 'a world_scheme, unit) op"
    and view :: "'c \<Rightarrow> 'v"
    and follow :: "'p \<Rightarrow> 'v \<Rightarrow> 'v"
    and gives :: "'v \<Rightarrow> 'p \<Rightarrow> report list"
  assumes step_bound: "bound l w \<Longrightarrow> \<exists>c' w'. step p (c, w) = (Inr (), (c', w'))
      \<and> view c' = follow p (view c) \<and> emitted (gives (view c) p) w w'"
    and step_unbound: "usable_loop (ENGINE w) = None \<Longrightarrow> \<exists>c' w'.
      step p (c, w) = (if gives (view c) p = [] then Inr () else Inl RuntimeError, (c', w'))
      \<and> ENGINE w' = ENGINE w \<and> (gives (view c) p = [] \<longrightarrow> view c' = follow p (view c))"
    and gives_ok: "r \<in> set (gives v p) \<Longrightarrow> report_ok r"
begin

lemma stream_bound:
  assumes "bound l w"
  shows "\<exists>c' w'. for_each step ps (c, w) = (Inr (), (c', w'))
    \<and> view c' = fold follow ps (view c) \<and> emitted (reports_along follow gives (view c) ps) w w'"
  using assms
proof (induction ps arbitrary: c w)
  case Nil
  then show ?case by (simp add: op_simps)
next
  case (Cons p ps)
  from step_bound [OF Cons.prems, of p c] obtain c1 w1 where
    s: "step p (c, w) = (Inr (), (c1, w1))" "view c1 = follow p (view c)" "emitted (gives (view c) p) w w1"
    by blast
  then have "bound l w1" using Cons.prems emitted_bound by blast
  from Cons.IH [OF this, of c1] s show ?case
    using emitted_trans [OF s(3)] by fastforce
qed

lemma stream_unbound:
  assumes "usable_loop (ENGINE w) = None"
  shows "fst (for_each step ps (c, w)) =
      (if reports_along follow gives (view c) ps = [] then Inr () else Inl RuntimeError)
    \<and> ENGINE (snd (snd (for_each step ps (c, w)))) = ENGINE w"
  using assms
proof (induction ps arbitrary: c w)
  case Nil
  then show ?case by (simp add: op_simps)
next
  case (Cons p ps)
  from step_unbound [OF Cons.prems, of p c] obtain c1 w1 where
    s: "step p (c, w) = (if gives (view c) p = [] then Inr () else Inl RuntimeError, (c1, w1))"
      "ENGINE w1 = ENGINE w" "gives (view c) p = [] \<longrightarrow> view c1 = follow p (view c)"
    by blast
  with Cons.IH [of w1 c1] Cons.prems show ?case
    by (cases "gives (view c) p = []") simp_all
qed

lemma stream_unbound_view:
  assumes "usable_loop (ENGINE w) = None" "reports_along follow gives (view c) ps = []"
  shows "view (fst (snd (for_each step ps (c, w)))) = fold follow ps (view c)"
  using assms
proof (induction ps arbitrary: c w)
  case Nil
  then show ?case by (simp add: op_simps)
next
  case (Cons p ps)
  from step_unbound [OF Cons.prems(1), of p c] Cons.prems(2) obtain c1 w1 where
    "step p (c, w) = (Inr (), (c1, w1))" "ENGINE w1 = ENGINE w" "view c1 = follow p (view c)"
    by auto
  with Cons.IH [of w1 c1] Cons.prems show ?case by simp
qed

lemma reports_ok: "r \<in> set (reports_along follow gives v ps) \<Longrightarrow> report_ok r"
  by (induction ps arbitrary: v) (auto dest: gives_ok)

text \<open>Bound or not, whatever a step hands to the bus is the event of a valid report.\<close>

lemma step_posts:
  "\<exists>es. ENGINE (snd (snd (step p (c, w)))) = posted es (ENGINE w) \<and> (\<forall>e \<in> set es. report_ok (report_of e))"
proof (cases "usable_loop (ENGINE w)")
  case None
  from step_unbound [OF this, of p c] show ?thesis
    by (auto intro!: exI [of _ "[]"])
next
  case (Some l)
  then have "bound l w" by (simp add: bound_def)
  from step_bound [OF this, of p c] obtain c' w' where
    s: "step p (c, w) = (Inr (), (c', w'))" "emitted (gives (view c) p) w w'" by blast
  then obtain es where es: "map report_of es = gives (view c) p" "ENGINE w' = posted es (ENGINE w)"
    by (auto simp: emitted_def)
  have "\<forall>e \<in> set es. report_ok (report_of e)"
  proof
    fix e assume "e \<in> set es"
    then have "report_of e \<in> set (gives (view c) p)" by (simp flip: es(1))
    then show "report_ok (report_of e)" by (rule gives_ok)
  qed
  then show ?thesis using s(1) es(2) by auto
qed

lemma step_returns:
  "usable_loop (ENGINE w) \<noteq> None \<Longrightarrow> fst (step p (c, w)) = Inr ()"
  using step_bound [of _ w p c] by (auto simp: bound_def)

end

end
