(* ===== verification/Packets.thy ===== *)
theory Packets
  imports Prelude
begin

text \<open>
  What the detectors read of a scapy packet: \<open>haslayer\<close> and \<open>in\<close> are the presence of a
  layer, a layer's fields are record fields. \<open>pk_sctp_init\<close> is the presence of an SCTP INIT
  chunk and \<open>pk_raw\<close> the load of a Raw layer. Dissection itself is scapy's; \<open>packet_ok\<close> is
  what its field widths guarantee.
\<close>

record ip_header =
  ip_src :: str
  ip_dst :: str
  ip_proto :: int

record tcp_segment =
  tcp_sport :: int
  tcp_dport :: int
  tcp_seq :: int
  tcp_flags :: str
  tcp_payload :: bytes

record packet =
  pk_ip :: "ip_header option"
  pk_tcp :: "tcp_segment option"
  pk_sctp_init :: bool
  pk_raw :: "bytes option"

definition segment_ok :: "tcp_segment \<Rightarrow> bool" where
  "segment_ok t \<longleftrightarrow> 0 \<le> tcp_seq t \<and> tcp_seq t < 2 ^ 32
     \<and> 0 \<le> tcp_sport t \<and> tcp_sport t < 2 ^ 16 \<and> 0 \<le> tcp_dport t \<and> tcp_dport t < 2 ^ 16"

definition packet_ok :: "packet \<Rightarrow> bool" where
  "packet_ok p \<longleftrightarrow> (case pk_tcp p of None \<Rightarrow> True | Some t \<Rightarrow> segment_ok t)"

section \<open>Sample packets\<close>

definition sctp_packet :: "string \<Rightarrow> packet" where
  "sctp_packet src = \<lparr>pk_ip = Some \<lparr>ip_src = lit src, ip_dst = lit ''10.0.0.1'', ip_proto = 132\<rparr>,
     pk_tcp = None, pk_sctp_init = True, pk_raw = None\<rparr>"

definition raw_sctp_packet :: "string \<Rightarrow> bytes \<Rightarrow> packet" where
  "raw_sctp_packet src load = \<lparr>pk_ip = Some \<lparr>ip_src = lit src, ip_dst = lit ''10.0.0.1'', ip_proto = 132\<rparr>,
     pk_tcp = None, pk_sctp_init = False, pk_raw = Some load\<rparr>"

definition tcp_packet :: "string \<Rightarrow> int \<Rightarrow> string \<Rightarrow> bytes \<Rightarrow> packet" where
  "tcp_packet src seq flags load = \<lparr>pk_ip = Some \<lparr>ip_src = lit src, ip_dst = lit ''10.0.0.1'', ip_proto = 6\<rparr>,
     pk_tcp = Some \<lparr>tcp_sport = 4444, tcp_dport = 80, tcp_seq = seq, tcp_flags = lit flags, tcp_payload = load\<rparr>,
     pk_sctp_init = False, pk_raw = (if load = [] then None else Some load)\<rparr>"

end
