(* ===== verification/Scanning.thy ===== *)
theory Scanning
  imports Prelude
begin

text \<open>
  Left-to-right scanning of bytes for non-overlapping matches, as \<open>bytes.find\<close> in a loop and
  \<open>re.finditer\<close> do it. A matcher says whether, and with which length, a match starts at the
  head of its input; \<open>finditer\<close> takes a match where it finds one and goes on behind it, and
  advances one byte otherwise. The locale \<open>matcher\<close> holds the lemmas both scans share.
\<close>

function finditer :: "(bytes \<Rightarrow> nat option) \<Rightarrow> nat \<Rightarrow> bytes \<Rightarrow> (nat \<times> nat) list" where
  "finditer m i [] = []"
| "finditer m i (b # bs) =
     (case m (b # bs) of
        None \<Rightarrow> finditer m (Suc i) bs
      | Some n \<Rightarrow> (i, n) # finditer m (i + max 1 n) (drop (max 1 n) (b # bs)))"
  by pat_completeness auto
termination
  by (relation "measure (\<lambda>(m, i, bs). length bs)") auto

declare finditer.simps(2) [simp del]

locale matcher =
  fixes m :: "bytes \<Rightarrow> nat option"
  assumes match_range: "m bs = Some n \<Longrightarrow> 0 < n \<and> n \<le> length bs"
begin

lemma finditer_None: "m (b # bs) = None \<Longrightarrow> finditer m i (b # bs) = finditer m (Suc i) bs"
  by (simp add: finditer.simps)

lemma finditer_Some:
  "m (b # bs) = Some n \<Longrightarrow> finditer m i (b # bs) = (i, n) # finditer m (i + n) (drop n (b # bs))"
proof -
  assume "m (b # bs) = Some n"
  moreover from this have "max 1 n = n" using match_range [of "b # bs" n] by auto
  ultimately show ?thesis by (simp add: finditer.simps)
qed

text \<open>Induction over the scan: the two ways it goes on.\<close>

lemma scan_induct [case_names Nil Skip Match]:
  assumes "\<And>i. P i []"
    and "\<And>i b bs. m (b # bs) = None \<Longrightarrow> P (Suc i) bs \<Longrightarrow> P i (b # bs)"
    and "\<And>i b bs n. m (b # bs) = Some n \<Longrightarrow> 0 < n \<Longrightarrow> n \<le> length (b # bs) \<Longrightarrow>
      P (i + n) (drop n (b # bs)) \<Longrightarrow> P i (b # bs)"
  shows "P i bs"
proof (induction "length bs" arbitrary: i bs rule: less_induct)
  case less
  show ?case
  proof (cases bs)
    case Nil
    with assms(1) show ?thesis by simp
  next
    case (Cons b r)
    show ?thesis
    proof (cases "m bs")
      case None
      with less Cons assms(2) show ?thesis by simp
    next
      case (Some n)
      with match_range have n: "0 < n" "n \<le> length bs" by auto
      with less [of "drop n bs" "i + n"] Cons have "P (i + n) (drop n bs)" by simp
      with Some n Cons assms(3) show ?thesis by simp
    qed
  qed
qed

lemma finditer_sound:
  "(j, n) \<in> set (finditer m i bs) \<Longrightarrow>
   i \<le> j \<and> 0 < n \<and> j + n \<le> i + length bs \<and> m (drop (j - i) bs) = Some n"
proof (induction i bs rule: scan_induct)
  case (Nil i)
  then show ?case by simp
next
  case (Skip i b bs)
  then show ?case by (auto simp: finditer_None Suc_diff_le drop_Cons')
next
  case (Match i b bs k)
  have "j - i = (j - (i + k)) + k" if "i + k \<le> j" using that by simp
  then have "i + k \<le> j \<Longrightarrow> drop (j - (i + k)) (drop k (b # bs)) = drop (j - i) (b # bs)"
    by (metis drop_drop)
  with Match show ?case by (auto simp: finditer_Some)
qed

lemma finditer_offsets: "(j, n) \<in> set (finditer m i bs) \<Longrightarrow> i \<le> j"
  using finditer_sound by blast

text \<open>Matches come in order and do not overlap.\<close>

lemma finditer_disjoint: "sorted_wrt (\<lambda>(j, n) (j', n'). j + n \<le> j') (finditer m i bs)"
proof (induction i bs rule: scan_induct)
  case (Nil i)
  then show ?case by simp
next
  case (Skip i b bs)
  then show ?case by (simp add: finditer_None)
next
  case (Match i b bs n)
  then show ?case by (auto simp: finditer_Some dest: finditer_offsets)
qed

text \<open>Every position at which a match starts lies inside a reported match.\<close>

lemma finditer_covers:
  "m (drop k bs) = Some l \<Longrightarrow> k < length bs \<Longrightarrow>
   \<exists>(j, n) \<in> set (finditer m i bs). j \<le> i + k \<and> i + k < j + n"
proof (induction i bs arbitrary: k rule: scan_induct)
  case (Nil i)
  then show ?case by simp
next
  case (Skip i b bs)
  then obtain k' where "k = Suc k'" by (cases k) auto
  with Skip show ?case by (fastforce simp: finditer_None)
next
  case (Match i b bs n)
  show ?case
  proof (cases "k < n")
    case True
    with Match show ?thesis by (simp add: finditer_Some)
  next
    case False
    then have "drop (k - n) (drop n (b # bs)) = drop k (b # bs)"
      by (metis drop_drop le_add_diff_inverse2 not_less)
    with Match.prems Match.IH [of "k - n"] False
    have "\<exists>(j, n') \<in> set (finditer m (i + n) (drop n (b # bs))). j \<le> i + k \<and> i + k < j + n'"
      by auto
    then show ?thesis using Match.hyps by (auto simp: finditer_Some)
  qed
qed

lemma finditer_empty_iff: "finditer m i bs = [] \<longleftrightarrow> (\<forall>k < length bs. m (drop k bs) = None)"
proof
  assume empty: "finditer m i bs = []"
  show "\<forall>k < length bs. m (drop k bs) = None"
  proof (intro allI impI)
    fix k
    assume "k < length bs"
    with empty finditer_covers [of k bs _ i] show "m (drop k bs) = None"
      by (cases "m (drop k bs)") auto
  qed
next
  assume none: "\<forall>k < length bs. m (drop k bs) = None"
  show "finditer m i bs = []"
  proof (rule ccontr)
    assume "finditer m i bs \<noteq> []"
    then obtain j n where "(j, n) \<in> set (finditer m i bs)"
      by (metis last_in_set surj_pair)
    with none finditer_sound [of j n i bs] show False by auto
  qed
qed

end

section \<open>Literals\<close>

definition match_lit :: "bytes \<Rightarrow> bytes \<Rightarrow> nat option" where
  "match_lit s bs = (if s \<noteq> [] \<and> prefix s bs then Some (length s) else None)"

interpretation lit_matcher: matcher "match_lit s" for s
  by unfold_locales (auto simp: match_lit_def prefix_length_le split: if_splits)

text \<open>\<open>payload.find(sub, start)\<close>; \<open>None\<close> stands for the \<open>-1\<close> it returns.\<close>

fun find_at :: "bytes \<Rightarrow> nat \<Rightarrow> bytes \<Rightarrow> nat option" where
  "find_at sub i [] = (if sub = [] then Some i else None)"
| "find_at sub i (b # bs) = (if prefix sub (b # bs) then Some i else find_at sub (Suc i) bs)"

definition bytes_find :: "bytes \<Rightarrow> bytes \<Rightarrow> nat \<Rightarrow> nat option" where
  "bytes_find payload sub start =
     (if start \<le> length payload then find_at sub start (drop start payload) else None)"

lemma find_at_range:
  "find_at sub i bs = Some j \<Longrightarrow> i \<le> j \<and> j + length sub \<le> i + length bs"
  by (induction sub i bs rule: find_at.induct) (fastforce split: if_splits dest: prefix_length_le)+

lemma drop_offset: "Suc i \<le> n \<Longrightarrow> drop (n - i) (b # bs) = drop (n - Suc i) bs"
  by (simp add: drop_Cons')

lemma find_at_finditer:
  assumes "sub \<noteq> []"
  shows "finditer (match_lit sub) i bs =
    (case find_at sub i bs of
       None \<Rightarrow> []
     | Some j \<Rightarrow> (j, length sub) # finditer (match_lit sub) (j + length sub) (drop (j + length sub - i) bs))"
  using assms
proof (induction sub i bs rule: find_at.induct)
  case (1 sub i)
  then show ?case by simp
next
  case (2 sub i b bs)
  show ?case
  proof (cases "prefix sub (b # bs)")
    case True
    with 2 have "match_lit sub (b # bs) = Some (length sub)" by (simp add: match_lit_def)
    with True show ?thesis by (simp add: lit_matcher.finditer_Some)
  next
    case False
    with 2 have "match_lit sub (b # bs) = None" by (simp add: match_lit_def)
    with False 2 find_at_range [of sub "Suc i" bs] show ?thesis
      by (auto simp: lit_matcher.finditer_None drop_offset split: option.splits)
  qed
qed

end
