(* ===== verification/Little_Endian.thy ===== *)
theory Little_Endian
  imports Prelude
begin

text \<open>
  Unsigned little-endian integers and records of them, as \<open>struct\<close> packs and unpacks them.
\<close>

text \<open>The value \<open>struct.unpack\<close> gives an unsigned little-endian field.\<close>

fun le_value :: "bytes \<Rightarrow> int" where
  "le_value [] = 0"
| "le_value (b # bs) = uint b + 256 * le_value bs"

lemma uint_byte: "0 \<le> uint b \<and> uint b < 256" for b :: byte
  using uint_lt2p [of b] by simp

lemma le_value_bounds: "0 \<le> le_value bs \<and> le_value bs < 256 ^ length bs"
proof (induction bs)
  case Nil
  then show ?case by simp
next
  case (Cons b bs)
  with uint_byte [of b] show ?case by auto
qed

text \<open>\<open>struct.pack('<Q', v)\<close> in \<open>n\<close> bytes, for stating what the scan finds.\<close>

fun le_bytes :: "nat \<Rightarrow> int \<Rightarrow> bytes" where
  "le_bytes 0 v = []"
| "le_bytes (Suc n) v = word_of_int v # le_bytes n (v div 256)"

lemma length_le_bytes [simp]: "length (le_bytes n v) = n"
  by (induction n arbitrary: v) simp_all

lemma le_value_le_bytes: "le_value (le_bytes n v) = v mod 256 ^ n"
proof (induction n arbitrary: v)
  case 0
  then show ?case by simp
next
  case (Suc n)
  have "v mod (256 * 256 ^ n) = 256 * (v div 256 mod 256 ^ n) + v mod 256"
    by (rule zmod_zmult2_eq) simp
  moreover have "uint (word_of_int v :: byte) = v mod 256"
    by (simp add: uint_word_of_int)
  ultimately show ?case using Suc by simp
qed

lemma le_bytes_le_value: "le_bytes (length bs) (le_value bs) = bs"
proof (induction bs)
  case Nil
  then show ?case by simp
next
  case (Cons b bs)
  have "(uint b + 256 * le_value bs) div 256 = le_value bs"
    using uint_byte [of b] by simp
  moreover have "word_of_int (uint b + 256 * le_value bs) = b"
    using uint_byte [of b] by (simp only: word_uint_eq_iff uint_word_of_int) simp
  ultimately show ?case using Cons by simp
qed

text \<open>A packed record: consecutive fields of given widths.\<close>

fun unpack_le :: "nat list \<Rightarrow> bytes \<Rightarrow> int list" where
  "unpack_le [] bs = []"
| "unpack_le (n # ns) bs = le_value (take n bs) # unpack_le ns (drop n bs)"

fun pack_le :: "nat list \<Rightarrow> int list \<Rightarrow> bytes" where
  "pack_le (n # ns) (v # vs) = le_bytes n v @ pack_le ns vs"
| "pack_le ns vs = []"

lemma length_pack_le: "length ns = length vs \<Longrightarrow> length (pack_le ns vs) = sum_list ns"
  by (induction ns vs rule: list_induct2) simp_all

lemma length_unpack_le [simp]: "length (unpack_le ns bs) = length ns"
  by (induction ns bs rule: unpack_le.induct) simp_all

lemma unpack_pack_le:
  assumes "length ns = length vs" "\<forall>(n, v) \<in> set (zip ns vs). 0 \<le> v \<and> v < 256 ^ n"
  shows "unpack_le ns (pack_le ns vs @ rest) = vs"
  using assms
  by (induction ns vs rule: list_induct2) (simp_all add: le_value_le_bytes)

end
