(* ===== verification/Payload_Scan.thy ===== *)
theory Payload_Scan
  imports Scanning Py_Text Little_Endian
begin

text \<open>
  \<open>xdr/network/payload_scan.py\<close>: the three indicators \<open>scan_payload\<close> looks for in a TCP
  payload. A finding is kept as a value with the numbers it reports; \<open>finding_text\<close> is the
  string the program returns for it.
\<close>

datatype finding =
    NopSled nat
  | RepeatedRun byte nat nat  \<comment> \<open>byte, length, offset\<close>
  | GotPointer int nat  \<comment> \<open>value, offset\<close>

definition NOP_SLED :: bytes where
  "NOP_SLED = replicate 16 0x90"

fun finding_text :: "finding \<Rightarrow> str" where
  "finding_text (NopSled index) = lit ''NOP sled detected at offset '' @ dec (int index)"
| "finding_text (RepeatedRun b n offset) =
     lit ''Repeated byte run: byte='' @ repr_bytes [b] @ lit '', length='' @ dec (int n)
     @ lit '', offset='' @ dec (int offset)"
| "finding_text (GotPointer value offset) =
     lit ''Possible GOT/pointer value '' @ hex value @ lit '' at offset '' @ dec (int offset)"

section \<open>NOP sleds\<close>

function nop_loop :: "bytes \<Rightarrow> nat \<Rightarrow> finding list" where
  "nop_loop payload start =
     (case bytes_find payload NOP_SLED start of
        None \<Rightarrow> []
      | Some index \<Rightarrow> NopSled index # nop_loop payload (index + length NOP_SLED))"
  by pat_completeness auto
termination
  by (relation "measure (\<lambda>(payload, start). length payload - start)")
    (auto simp: bytes_find_def NOP_SLED_def dest!: find_at_range split: if_splits)

declare nop_loop.simps [simp del]

section \<open>Repeated bytes\<close>

text \<open>The regular expression: a byte and at least eleven more of it, greedily.\<close>

definition run_length :: "bytes \<Rightarrow> nat" where
  "run_length bs = (case bs of [] \<Rightarrow> 0 | b # r \<Rightarrow> Suc (length (takeWhile (\<lambda>x. x = b) r)))"

definition REPEATED_BYTE_RUN :: "bytes \<Rightarrow> nat option" where
  "REPEATED_BYTE_RUN bs = (if 12 \<le> run_length bs then Some (run_length bs) else None)"

definition repeated_runs :: "bytes \<Rightarrow> finding list" where
  "repeated_runs payload =
     map (\<lambda>(start, n). RepeatedRun (payload ! start) n start) (finditer REPEATED_BYTE_RUN 0 payload)"

section \<open>Pointers\<close>

definition is_candidate :: "int option \<Rightarrow> int option \<Rightarrow> int \<Rightarrow> nat \<Rightarrow> bool" where
  "is_candidate got_base got_size value offset =
     (case (got_base, got_size) of
        (Some base, Some sz) \<Rightarrow> base \<le> value \<and> value < base + sz
      | _ \<Rightarrow> 0x400000 \<le> value \<and> value \<le> 0x7fffffffffff \<and> offset mod 8 = 0)"

definition pointer_at :: "int option \<Rightarrow> int option \<Rightarrow> bytes \<Rightarrow> nat \<Rightarrow> finding list" where
  "pointer_at got_base got_size payload offset =
     (let value = le_value (take 8 (drop offset payload)) in
      if value = 0 then []
      else if is_candidate got_base got_size value offset then [GotPointer value offset]
      else [])"

definition got_pointers :: "int option \<Rightarrow> int option \<Rightarrow> bytes \<Rightarrow> finding list" where
  "got_pointers got_base got_size payload =
     concat (map (pointer_at got_base got_size payload) [0..<length payload - 7])"

definition scan_findings :: "bytes \<Rightarrow> int option \<Rightarrow> int option \<Rightarrow> finding list" where
  "scan_findings payload got_base got_size =
     (if payload = [] then []
      else nop_loop payload 0 @ repeated_runs payload @ got_pointers got_base got_size payload)"

definition scan_payload :: "bytes \<Rightarrow> int option \<Rightarrow> int option \<Rightarrow> str list" where
  "scan_payload payload got_base got_size = map finding_text (scan_findings payload got_base got_size)"

section \<open>The sled loop is a scan\<close>

lemma nop_loop_finditer:
  "start \<le> length payload \<Longrightarrow>
   nop_loop payload start = map (\<lambda>(i, n). NopSled i) (finditer (match_lit NOP_SLED) start (drop start payload))"
proof (induction payload start rule: nop_loop.induct)
  case (1 payload start)
  have sled: "NOP_SLED \<noteq> []" by (simp add: NOP_SLED_def)
  show ?case
  proof (cases "find_at NOP_SLED start (drop start payload)")
    case None
    with "1.prems" show ?thesis
      by (simp add: nop_loop.simps [of payload start] bytes_find_def find_at_finditer [OF sled])
  next
    case (Some i)
    with find_at_range [OF Some] "1.prems"
    have "start \<le> i" "i + length NOP_SLED \<le> length payload" by auto
    with 1 Some show ?thesis
      by (simp add: nop_loop.simps [of payload start] bytes_find_def find_at_finditer [OF sled])
  qed
qed

lemmas nop_scan = nop_loop_finditer [of 0, simplified]

definition sled_at :: "bytes \<Rightarrow> nat \<Rightarrow> bool" where
  "sled_at payload i \<longleftrightarrow> prefix NOP_SLED (drop i payload)"

lemma sled_at_iff:
  "sled_at payload i \<longleftrightarrow> i + 16 \<le> length payload \<and> (\<forall>k < 16. payload ! (i + k) = 0x90)"
proof -
  have "prefix (replicate n b) xs \<longleftrightarrow> n \<le> length xs \<and> (\<forall>k < n. xs ! k = b)" for n b and xs :: bytes
    by (auto simp: prefix_def list_eq_iff_nth_eq nth_append intro!: exI [of _ "drop n xs"])
  from this [of 16 "0x90" "drop i payload"] show ?thesis
    by (auto simp: sled_at_def NOP_SLED_def)
qed

lemma match_sled: "match_lit NOP_SLED (drop i payload) \<noteq> None \<longleftrightarrow> sled_at payload i"
  by (simp add: match_lit_def sled_at_def NOP_SLED_def)

lemma match_sled_Some: "match_lit NOP_SLED bs = Some n \<Longrightarrow> n = 16"
  by (simp add: match_lit_def NOP_SLED_def split: if_splits)

definition sled_offsets :: "bytes \<Rightarrow> nat list" where
  "sled_offsets payload = map fst (finditer (match_lit NOP_SLED) 0 payload)"

lemma nop_loop_offsets: "nop_loop payload 0 = map NopSled (sled_offsets payload)"
  by (simp add: nop_scan sled_offsets_def case_prod_unfold comp_def)

section \<open>What the scan reports\<close>

text \<open>C10: the sled loop ends and reports, in increasing order and at least 16 bytes apart,
  offsets at which sixteen 0x90 bytes start; every such position of the payload lies inside a
  reported sled, and nothing is reported exactly when the payload has no sled.\<close>

theorem nop_sleds_exact:
  "\<exists>offsets. nop_loop payload 0 = map NopSled offsets
    \<and> sorted_wrt (\<lambda>i j. i + 16 \<le> j) offsets
    \<and> (\<forall>i \<in> set offsets. i + 16 \<le> length payload \<and> (\<forall>k < 16. payload ! (i + k) = 0x90))
    \<and> (\<forall>p. p + 16 \<le> length payload \<and> (\<forall>k < 16. payload ! (p + k) = 0x90)
         \<longrightarrow> (\<exists>i \<in> set offsets. i \<le> p \<and> p < i + 16))
    \<and> (offsets = [] \<longleftrightarrow> \<not> (\<exists>p. p + 16 \<le> length payload \<and> (\<forall>k < 16. payload ! (p + k) = 0x90)))"
proof -
  let ?f = "finditer (match_lit NOP_SLED) 0 payload"
  have len: "n = 16" if "(i, n) \<in> set ?f" for i n
    using lit_matcher.finditer_sound [OF that] match_sled_Some by blast
  have sound: "sled_at payload i" if "(i, n) \<in> set ?f" for i n
    using lit_matcher.finditer_sound [OF that] match_sled [of i payload] by simp
  have cover: "\<exists>i \<in> set (sled_offsets payload). i \<le> p \<and> p < i + 16" if p: "sled_at payload p" for p
  proof -
    obtain n where "match_lit NOP_SLED (drop p payload) = Some n"
      using p match_sled by blast
    moreover have "p < length payload" using p by (simp add: sled_at_iff)
    ultimately obtain i n where "(i, n) \<in> set ?f" "i \<le> p" "p < i + n"
      using lit_matcher.finditer_covers [of NOP_SLED p payload _ 0] by auto
    with len show ?thesis unfolding sled_offsets_def by force
  qed
  have "sorted_wrt (\<lambda>i j. i + 16 \<le> j) (sled_offsets payload)"
    unfolding sled_offsets_def sorted_wrt_map
    by (rule sorted_wrt_mono_rel [OF _ lit_matcher.finditer_disjoint]) (auto dest: len)
  moreover have "\<forall>i \<in> set (sled_offsets payload). sled_at payload i"
    using sound by (auto simp: sled_offsets_def)
  moreover have "sled_offsets payload = [] \<longleftrightarrow> \<not> (\<exists>p. sled_at payload p)"
    using cover calculation(2) by (metis empty_iff last_in_set list.set(1))
  ultimately show ?thesis
    using cover nop_loop_offsets [of payload] unfolding sled_at_iff by blast
qed

lemma ninety_run: "sled_at (replicate 4 0x41 @ replicate 40 0x90) 4"
  by (simp add: sled_at_iff nth_append)

theorem nop_sleds_exact_witness:
  "\<exists>offsets. nop_loop (replicate 4 0x41 @ replicate 40 0x90) 0 = map NopSled offsets
     \<and> (\<exists>i \<in> set offsets. i \<le> 4 \<and> 4 < i + 16)"
  using nop_sleds_exact [of "replicate 4 0x41 @ replicate 40 0x90"] ninety_run
  unfolding sled_at_iff by blast

section \<open>Runs\<close>

lemma run_length_le: "run_length bs \<le> length bs"
  by (cases bs) (auto simp: run_length_def length_takeWhile_le)

lemma run_length_Cons: "run_length (b # b' # bs) = (if b' = b then Suc (run_length (b' # bs)) else 1)"
  by (simp add: run_length_def)

lemma run_length_single [simp]: "run_length [] = 0" "run_length [b] = 1"
  by (simp_all add: run_length_def)

interpretation run_matcher: matcher REPEATED_BYTE_RUN
  using run_length_le by unfold_locales (auto simp: REPEATED_BYTE_RUN_def split: if_splits)

lemma run_length_same: "k < run_length bs \<Longrightarrow> bs ! k = bs ! 0"
proof (induction bs arbitrary: k)
  case Nil
  then show ?case by simp
next
  case (Cons b bs)
  show ?case
  proof (cases bs)
    case Nil
    with Cons.prems show ?thesis by simp
  next
    case (Cons b' r)
    with Cons.prems Cons.IH [of "k - 1"] show ?thesis
      by (cases k) (auto simp: run_length_Cons split: if_splits)
  qed
qed

lemma run_length_stops: "run_length bs < length bs \<Longrightarrow> bs ! run_length bs \<noteq> bs ! 0"
proof (induction bs)
  case Nil
  then show ?case by simp
next
  case (Cons b bs)
  then show ?case by (cases bs) (auto simp: run_length_Cons split: if_splits)
qed

lemma run_length_eqI:
  assumes "n \<le> length bs" "0 < n" "\<forall>k < n. bs ! k = bs ! 0" "n < length bs \<Longrightarrow> bs ! n \<noteq> bs ! 0"
  shows "run_length bs = n"
proof (rule ccontr)
  assume "run_length bs \<noteq> n"
  then consider "run_length bs < n" | "n < run_length bs" by linarith
  then show False
  proof cases
    case 1
    then have "bs ! run_length bs = bs ! 0" using assms(3) by blast
    moreover have "run_length bs < length bs" using 1 assms(1) by linarith
    ultimately show False using run_length_stops by blast
  next
    case 2
    then have "bs ! n = bs ! 0" by (rule run_length_same)
    moreover have "n < length bs" using 2 run_length_le [of bs] by linarith
    ultimately show False using assms(4) by blast
  qed
qed

text \<open>A maximal run: it cannot be extended to the left or to the right.\<close>

definition maximal_run :: "bytes \<Rightarrow> byte \<Rightarrow> nat \<Rightarrow> nat \<Rightarrow> bool" where
  "maximal_run payload b n i \<longleftrightarrow>
     0 < n \<and> i + n \<le> length payload \<and> (\<forall>k < n. payload ! (i + k) = b)
     \<and> (0 < i \<longrightarrow> payload ! (i - 1) \<noteq> b) \<and> (i + n < length payload \<longrightarrow> payload ! (i + n) \<noteq> b)"

lemma maximal_run_nth: "maximal_run payload b n i \<Longrightarrow> i \<le> j \<Longrightarrow> j < i + n \<Longrightarrow> payload ! j = b"
  by (auto simp: maximal_run_def dest: spec [of _ "j - i"])

lemma maximal_run_length:
  assumes "maximal_run payload b n i"
  shows "run_length (drop i payload) = n"
proof (rule run_length_eqI)
  show "n \<le> length (drop i payload)" "0 < n"
    using assms by (auto simp: maximal_run_def)
  show "\<forall>k < n. drop i payload ! k = drop i payload ! 0"
    using assms by (auto simp: maximal_run_def dest: spec [of _ 0])
  show "drop i payload ! n \<noteq> drop i payload ! 0" if "n < length (drop i payload)"
    using assms that by (auto simp: maximal_run_def dest: spec [of _ 0])
qed

text \<open>Where the scan stands: at the start, at a change of byte, or behind a failed attempt.\<close>

definition at_boundary :: "bytes \<Rightarrow> bytes \<Rightarrow> bool" where
  "at_boundary pre bs \<longleftrightarrow> pre = [] \<or> bs = [] \<or> last pre \<noteq> hd bs \<or> run_length bs < 12"

lemma run_start_maximal:
  assumes "at_boundary pre bs" "12 \<le> run_length bs"
  shows "maximal_run (pre @ bs) (bs ! 0) (run_length bs) (length pre)"
proof -
  have ne: "bs \<noteq> []" using assms(2) by auto
  then have "pre = [] \<or> last pre \<noteq> bs ! 0"
    using assms by (auto simp: at_boundary_def hd_conv_nth)
  then have "0 < length pre \<Longrightarrow> (pre @ bs) ! (length pre - 1) \<noteq> bs ! 0"
    by (auto simp: nth_append last_conv_nth)
  moreover have "\<forall>k < run_length bs. (pre @ bs) ! (length pre + k) = bs ! 0"
    by (auto intro: run_length_same)
  moreover have "length pre + run_length bs < length (pre @ bs) \<Longrightarrow>
      (pre @ bs) ! (length pre + run_length bs) \<noteq> bs ! 0"
    using run_length_stops by simp
  moreover have "0 < run_length bs" using assms(2) by linarith
  moreover have "length pre + run_length bs \<le> length (pre @ bs)"
    using run_length_le [of bs] by simp
  ultimately show ?thesis unfolding maximal_run_def by blast
qed

lemma boundary_skip:
  assumes "REPEATED_BYTE_RUN (b # bs) = None"
  shows "at_boundary (pre @ [b]) bs"
  using assms by (cases bs) (auto simp: at_boundary_def REPEATED_BYTE_RUN_def run_length_Cons split: if_splits)

lemma boundary_match:
  assumes "REPEATED_BYTE_RUN bs = Some n"
  shows "at_boundary (pre @ take n bs) (drop n bs)"
proof (cases "n < length bs")
  case True
  from assms have n: "n = run_length bs" "12 \<le> n"
    by (auto simp: REPEATED_BYTE_RUN_def split: if_splits)
  then have "last (take n bs) = bs ! 0"
    using True run_length_same [of "n - 1" bs] by (subst last_conv_nth) auto
  moreover have "hd (drop n bs) \<noteq> bs ! 0"
    using True run_length_stops [of bs] n by (simp add: hd_drop_conv_nth)
  moreover have "take n bs \<noteq> []" using n True by auto
  ultimately show ?thesis by (simp add: at_boundary_def)
next
  case False
  then show ?thesis by (simp add: at_boundary_def)
qed

lemma runs_maximal:
  "at_boundary pre bs \<Longrightarrow> (j, n) \<in> set (finditer REPEATED_BYTE_RUN (length pre) bs) \<Longrightarrow>
   12 \<le> n \<and> maximal_run (pre @ bs) ((pre @ bs) ! j) n j"
proof (induction "length pre" bs arbitrary: pre rule: run_matcher.scan_induct)
  case (Nil pre)
  then show ?case by simp
next
  case (Skip b bs pre)
  then show ?case
    using boundary_skip [OF Skip.hyps(1), of pre] Skip.hyps(2) [of "pre @ [b]"]
    by (simp add: run_matcher.finditer_None)
next
  case (Match b bs k pre)
  let ?bs = "b # bs"
  have k: "k = run_length ?bs" "12 \<le> k"
    using Match.hyps(1) by (auto simp: REPEATED_BYTE_RUN_def split: if_splits)
  from Match.prems(2) consider "j = length pre" "n = k"
    | "(j, n) \<in> set (finditer REPEATED_BYTE_RUN (length pre + k) (drop k ?bs))"
    using Match.hyps(1) by (auto simp: run_matcher.finditer_Some)
  then show ?case
  proof cases
    case 1
    with run_start_maximal [OF Match.prems(1)] k show ?thesis by (simp add: nth_append)
  next
    case 2
    have "length pre + k = length (pre @ take k ?bs)" using Match.hyps(3) by simp
    with 2 Match.hyps(4) [of "pre @ take k ?bs"] boundary_match [OF Match.hyps(1), of pre]
    show ?thesis by (simp only: append_assoc append_take_drop_id)
  qed
qed

lemma maximal_runs_overlap:
  assumes "maximal_run p b n i" "maximal_run p b' n' i'" "i' \<le> i" "i < i' + n'"
  shows "i = i' \<and> n = n' \<and> b = b'"
proof -
  have n: "0 < n" using assms(1) by (simp add: maximal_run_def)
  have b: "b = b'"
    using maximal_run_nth [OF assms(1), of i] maximal_run_nth [OF assms(2), of i] assms(3,4) n by simp
  have "i = i'"
  proof (rule ccontr)
    assume "i \<noteq> i'"
    with assms(3) have "i' < i" by simp
    then have "p ! (i - 1) = b'" using assms(4) by (intro maximal_run_nth [OF assms(2)]) auto
    with \<open>i' < i\<close> assms(1) b show False by (simp add: maximal_run_def)
  qed
  with b maximal_run_length [OF assms(1)] maximal_run_length [OF assms(2)] show ?thesis by simp
qed

text \<open>C11: the repeated-byte findings are exactly the maximal runs of at least twelve identical
  bytes: each one reported with its byte, full length and offset, once, in order, and no
  other.\<close>

theorem repeated_runs_exact:
  "(RepeatedRun b n i \<in> set (repeated_runs payload) \<longleftrightarrow> 12 \<le> n \<and> maximal_run payload b n i)
   \<and> (\<forall>f \<in> set (repeated_runs payload). \<exists>b n i. f = RepeatedRun b n i)
   \<and> distinct (repeated_runs payload)"
proof (intro conjI)
  let ?f = "finditer REPEATED_BYTE_RUN 0 payload"
  have max: "12 \<le> n \<and> maximal_run payload (payload ! j) n j" if "(j, n) \<in> set ?f" for j n
    using runs_maximal [of "[]" payload j n] that by (simp add: at_boundary_def)
  show "RepeatedRun b n i \<in> set (repeated_runs payload) \<longleftrightarrow> 12 \<le> n \<and> maximal_run payload b n i"
  proof
    assume "RepeatedRun b n i \<in> set (repeated_runs payload)"
    then have "(i, n) \<in> set ?f" "b = payload ! i" by (auto simp: repeated_runs_def)
    with max show "12 \<le> n \<and> maximal_run payload b n i" by blast
  next
    assume run: "12 \<le> n \<and> maximal_run payload b n i"
    then have "REPEATED_BYTE_RUN (drop i payload) = Some n"
      using maximal_run_length [of payload b n i] by (simp add: REPEATED_BYTE_RUN_def)
    moreover have "i < length payload" using run by (auto simp: maximal_run_def)
    ultimately obtain j l where jl: "(j, l) \<in> set ?f" "j \<le> i" "i < j + l"
      using run_matcher.finditer_covers [of i payload n 0] by auto
    with run max [OF jl(1)] have "i = j \<and> n = l \<and> b = payload ! j"
      by (intro maximal_runs_overlap) auto
    with jl show "RepeatedRun b n i \<in> set (repeated_runs payload)"
      by (force simp: repeated_runs_def)
  qed
  show "\<forall>f \<in> set (repeated_runs payload). \<exists>b n i. f = RepeatedRun b n i"
    by (auto simp: repeated_runs_def)
  have "sorted_wrt (\<lambda>(j, n) (j', n'). j < j') ?f"
    by (rule sorted_wrt_mono_rel [OF _ run_matcher.finditer_disjoint]) (auto dest!: max)
  then have "sorted_wrt (\<lambda>f g. f \<noteq> g) (repeated_runs payload)"
    unfolding repeated_runs_def sorted_wrt_map
    by (rule sorted_wrt_mono_rel [rotated]) auto
  then show "distinct (repeated_runs payload)" by (simp add: distinct_conv_nth sorted_wrt_iff_nth_less) (metis nat_neq_iff)
qed

theorem repeated_runs_exact_witness:
  "RepeatedRun 0x41 18 4 \<in> set (repeated_runs (replicate 4 0 @ replicate 18 0x41 @ replicate 4 0))
   \<and> RepeatedRun 0 4 0 \<notin> set (repeated_runs (replicate 4 0 @ replicate 18 0x41 @ replicate 4 0))"
proof -
  have "maximal_run (replicate 4 0 @ replicate 18 0x41 @ replicate 4 0) 0x41 18 4"
    by (simp add: maximal_run_def nth_append)
  then show ?thesis
    using repeated_runs_exact [of "0x41" 18 4 "replicate 4 0 @ replicate 18 0x41 @ replicate 4 0"]
      repeated_runs_exact [of 0 4 0 "replicate 4 0 @ replicate 18 0x41 @ replicate 4 0"]
    by simp
qed

section \<open>Pointers\<close>

lemma pointer_at_iff:
  "GotPointer v i \<in> set (pointer_at gb gs payload j) \<longleftrightarrow>
     i = j \<and> v = le_value (take 8 (drop j payload)) \<and> v \<noteq> 0 \<and> is_candidate gb gs v j"
  by (auto simp: pointer_at_def Let_def)

lemma got_pointers_iff:
  "GotPointer v i \<in> set (got_pointers gb gs payload) \<longleftrightarrow>
     i + 8 \<le> length payload \<and> v = le_value (take 8 (drop i payload)) \<and> v \<noteq> 0 \<and> is_candidate gb gs v i"
  by (auto simp: got_pointers_def pointer_at_iff)

lemma got_pointers_only: "f \<in> set (got_pointers gb gs payload) \<Longrightarrow> \<exists>v i. f = GotPointer v i"
  by (auto simp: got_pointers_def pointer_at_def Let_def split: if_splits)

lemma in_scan_findings:
  "f \<in> set (scan_findings payload gb gs) \<longleftrightarrow>
     f \<in> set (nop_loop payload 0) \<or> f \<in> set (repeated_runs payload) \<or> f \<in> set (got_pointers gb gs payload)"
  by (cases payload)
    (simp_all add: scan_findings_def nop_scan repeated_runs_def got_pointers_def)

lemma nop_loop_only: "f \<in> set (nop_loop payload 0) \<Longrightarrow> \<exists>i. f = NopSled i"
  by (auto simp: nop_scan)

lemma repeated_runs_only: "f \<in> set (repeated_runs payload) \<Longrightarrow> \<exists>b n i. f = RepeatedRun b n i"
  by (auto simp: repeated_runs_def)

text \<open>C12: an 8-byte little-endian value packed anywhere into a payload, at any alignment, is
  reported when it is non-zero and inside the known GOT range; without a range it is reported
  when it looks like a user-space address and its offset is a multiple of 8. Conversely every
  reported pointer is the value of the eight bytes at its offset and passed the check.\<close>

theorem embedded_pointer_found:
  assumes "0 < v" and "v < 2 ^ 64"
  shows "(GotPointer v (length pre) \<in> set (scan_findings (pre @ le_bytes 8 v @ post) gb gs)
        \<longleftrightarrow> (case (gb, gs) of
               (Some base, Some sz) \<Rightarrow> base \<le> v \<and> v < base + sz
             | _ \<Rightarrow> 0x400000 \<le> v \<and> v \<le> 0x7fffffffffff \<and> 8 dvd length pre))
    \<and> (\<forall>x i. GotPointer x i \<in> set (scan_findings payload gb gs) \<longrightarrow>
         i + 8 \<le> length payload \<and> le_bytes 8 x = take 8 (drop i payload) \<and> is_candidate gb gs x i)"
proof
  have "le_value (le_bytes 8 v) = v"
    using assms by (simp add: le_value_le_bytes)
  then have "GotPointer v (length pre) \<in> set (got_pointers gb gs (pre @ le_bytes 8 v @ post))
      \<longleftrightarrow> is_candidate gb gs v (length pre)"
    using assms by (simp add: got_pointers_iff)
  moreover have "GotPointer v (length pre) \<notin> set (nop_loop p 0)"
    "GotPointer v (length pre) \<notin> set (repeated_runs p)" for p
    using nop_loop_only repeated_runs_only by blast+
  ultimately show "GotPointer v (length pre) \<in> set (scan_findings (pre @ le_bytes 8 v @ post) gb gs)
        \<longleftrightarrow> (case (gb, gs) of
               (Some base, Some sz) \<Rightarrow> base \<le> v \<and> v < base + sz
             | _ \<Rightarrow> 0x400000 \<le> v \<and> v \<le> 0x7fffffffffff \<and> 8 dvd length pre)"
    by (simp add: in_scan_findings is_candidate_def dvd_eq_mod_eq_0 split: option.split)
  show "\<forall>x i. GotPointer x i \<in> set (scan_findings payload gb gs) \<longrightarrow>
         i + 8 \<le> length payload \<and> le_bytes 8 x = take 8 (drop i payload) \<and> is_candidate gb gs x i"
  proof (intro allI impI)
    fix x i
    assume "GotPointer x i \<in> set (scan_findings payload gb gs)"
    then have "GotPointer x i \<in> set (got_pointers gb gs payload)"
      using nop_loop_only repeated_runs_only by (fastforce simp: in_scan_findings)
    then have "i + 8 \<le> length payload" "x = le_value (take 8 (drop i payload))" "is_candidate gb gs x i"
      unfolding got_pointers_iff by blast+
    then show "i + 8 \<le> length payload \<and> le_bytes 8 x = take 8 (drop i payload) \<and> is_candidate gb gs x i"
      using le_bytes_le_value [of "take 8 (drop i payload)"] by simp
  qed
qed

theorem embedded_pointer_found_witness:
  "GotPointer 0x4032d8 3 \<in> set (scan_findings ([1, 2, 3] @ le_bytes 8 0x4032d8 @ [4]) (Some 0x4032d0) (Some 0x30))
   \<and> GotPointer 0x4032d8 3 \<notin> set (scan_findings ([1, 2, 3] @ le_bytes 8 0x4032d8 @ [4]) None None)"
proof -
  have three: "length [1, 2, 3 :: byte] = 3" by simp
  show ?thesis
    using embedded_pointer_found [of "0x4032d8" "[1, 2, 3]" "[4]" "Some 0x4032d0" "Some 0x30", unfolded three]
      embedded_pointer_found [of "0x4032d8" "[1, 2, 3]" "[4]" None None, unfolded three]
    by simp
qed

section \<open>The indicators together\<close>

lemma scan_run_maximal:
  "(j, n) \<in> set (finditer REPEATED_BYTE_RUN 0 payload) \<Longrightarrow>
   12 \<le> n \<and> maximal_run payload (payload ! j) n j"
  using runs_maximal [of "[]" payload j n] by (simp add: at_boundary_def)

lemma same_run_length:
  assumes "0 < m" "i + m \<le> length payload" "\<And>k. k < m \<Longrightarrow> payload ! (i + k) = b"
  shows "m \<le> run_length (drop i payload)"
proof (rule ccontr)
  assume "\<not> m \<le> run_length (drop i payload)"
  then have n: "run_length (drop i payload) < m" by simp
  moreover have "run_length (drop i payload) < length (drop i payload)" using n assms(2) by simp
  ultimately show False
    using run_length_stops [of "drop i payload"] assms(2) assms(3) [of 0] assms(3) [OF n] assms(1)
    by simp
qed

text \<open>A sled lies inside a repeated-byte finding for 0x90.\<close>

lemma sled_gives_run:
  assumes "sled_at payload i"
  shows "\<exists>n j. RepeatedRun 0x90 n j \<in> set (repeated_runs payload) \<and> j \<le> i \<and> i + 16 \<le> j + n"
proof -
  have sled: "i + 16 \<le> length payload" "\<And>k. k < 16 \<Longrightarrow> payload ! (i + k) = 0x90"
    using assms by (auto simp: sled_at_iff)
  have "REPEATED_BYTE_RUN (drop i payload) \<noteq> None"
    using same_run_length [OF _ sled] by (simp add: REPEATED_BYTE_RUN_def)
  then obtain j n where jn: "(j, n) \<in> set (finditer REPEATED_BYTE_RUN 0 payload)" "j \<le> i" "i < j + n"
    using run_matcher.finditer_covers [of i payload _ 0] sled(1) by fastforce
  have run: "maximal_run payload (payload ! j) n j" using scan_run_maximal [OF jn(1)] by simp
  have byte: "payload ! j = 0x90"
    using maximal_run_nth [OF run jn(2,3)] sled(2) [of 0] by simp
  have "i + 16 \<le> j + n"
  proof (rule ccontr)
    assume "\<not> i + 16 \<le> j + n"
    then have "payload ! (j + n) = 0x90" "j + n < length payload"
      using sled(1) sled(2) [of "j + n - i"] jn(3) by auto
    with run byte show False by (simp add: maximal_run_def)
  qed
  with jn byte show ?thesis by (force simp: repeated_runs_def)
qed

lemma sled_reported: "sled_at payload i \<Longrightarrow> nop_loop payload 0 \<noteq> []"
proof -
  assume sled: "sled_at payload i"
  then have "i < length payload" by (simp add: sled_at_iff)
  moreover have "match_lit NOP_SLED (drop i payload) \<noteq> None" using sled match_sled by blast
  ultimately show ?thesis
    using lit_matcher.finditer_empty_iff [of NOP_SLED 0 payload] by (auto simp: nop_scan)
qed

lemma sled_offsets_sled: "NopSled i \<in> set (nop_loop payload 0) \<Longrightarrow> sled_at payload i"
  using match_sled [of i payload] by (auto simp: nop_scan dest: lit_matcher.finditer_sound)

text \<open>The three checks report side by side, sleds first, then runs, then pointers, each in
  order; the text list has one entry per finding. A sled is always accompanied by a
  repeated-byte finding for 0x90 that contains it, so one sled yields at least two findings.\<close>

theorem sled_reported_twice:
  "scan_payload payload gb gs =
     map finding_text (nop_loop payload 0) @ map finding_text (repeated_runs payload)
     @ map finding_text (got_pointers gb gs payload)
   \<and> (\<forall>i. NopSled i \<in> set (scan_findings payload gb gs) \<longrightarrow>
       (\<exists>n j. RepeatedRun 0x90 n j \<in> set (scan_findings payload gb gs) \<and> j \<le> i \<and> i + 16 \<le> j + n)
       \<and> 2 \<le> length (scan_payload payload gb gs))"
proof (intro conjI allI impI)
  show eq: "scan_payload payload gb gs =
     map finding_text (nop_loop payload 0) @ map finding_text (repeated_runs payload)
     @ map finding_text (got_pointers gb gs payload)"
    by (cases payload) (simp_all add: scan_payload_def scan_findings_def nop_scan repeated_runs_def got_pointers_def)
  fix i
  assume "NopSled i \<in> set (scan_findings payload gb gs)"
  then have nop: "NopSled i \<in> set (nop_loop payload 0)"
    using repeated_runs_only got_pointers_only by (fastforce simp: in_scan_findings)
  from sled_gives_run [OF sled_offsets_sled [OF this]] obtain n j
    where run: "RepeatedRun 0x90 n j \<in> set (repeated_runs payload)" "j \<le> i" "i + 16 \<le> j + n" by blast
  then show "\<exists>n j. RepeatedRun 0x90 n j \<in> set (scan_findings payload gb gs) \<and> j \<le> i \<and> i + 16 \<le> j + n"
    by (auto simp: in_scan_findings)
  have "1 \<le> length (nop_loop payload 0)" "1 \<le> length (repeated_runs payload)"
    using nop run(1) by (auto simp: Suc_le_eq)
  then show "2 \<le> length (scan_payload payload gb gs)" by (simp add: eq)
qed

theorem sled_reported_twice_witness:
  "2 \<le> length (scan_payload (replicate 4 0x41 @ replicate 40 0x90) None None)"
proof -
  let ?p = "replicate 4 0x41 @ replicate 40 0x90 :: bytes"
  have "nop_loop ?p 0 \<noteq> []" using ninety_run by (rule sled_reported)
  then obtain f where "f \<in> set (nop_loop ?p 0)" by (metis last_in_set)
  moreover from this obtain i where "f = NopSled i" using nop_loop_only by blast
  ultimately have "NopSled i \<in> set (scan_findings ?p None None)" by (simp add: in_scan_findings)
  with sled_reported_twice [of ?p None None] show ?thesis by blast
qed

lemma no_runs_iff:
  "repeated_runs payload = [] \<longleftrightarrow>
    (\<nexists>b i. i + 12 \<le> length payload \<and> (\<forall>k < 12. payload ! (i + k) = b))" (is "?E \<longleftrightarrow> ?N")
proof
  assume ?E
  then have none: "\<forall>i < length payload. run_length (drop i payload) < 12"
    using run_matcher.finditer_empty_iff [of 0 payload]
    by (simp add: repeated_runs_def REPEATED_BYTE_RUN_def split: if_splits) (metis not_less option.distinct(1))
  show ?N
  proof (rule notI, elim exE conjE)
    fix b i
    assume i: "i + 12 \<le> length payload" and same: "\<forall>k < 12. payload ! (i + k) = b"
    have "12 \<le> run_length (drop i payload)"
      using i same by (intro same_run_length) auto
    with none i show False by (auto dest!: spec [of _ i])
  qed
next
  assume ?N
  show ?E
  proof (rule ccontr)
    assume "\<not> ?E"
    then have "finditer REPEATED_BYTE_RUN 0 payload \<noteq> []" by (simp add: repeated_runs_def)
    then obtain j n where jn: "(j, n) \<in> set (finditer REPEATED_BYTE_RUN 0 payload)"
      by (metis last_in_set surj_pair)
    note run = scan_run_maximal [OF jn]
    then have fit: "12 \<le> n" "j + n \<le> length payload" by (simp_all only: maximal_run_def)
    have same: "payload ! (j + k) = payload ! j" if "k < 12" for k
      using that fit(1) by (intro maximal_run_nth [OF conjunct2 [OF run]]) simp_all
    have "j + 12 \<le> length payload" using fit by linarith
    with same have "\<exists>b i. i + 12 \<le> length payload \<and> (\<forall>k < 12. payload ! (i + k) = b)" by blast
    with \<open>?N\<close> show False by blast
  qed
qed

lemma no_pointers_iff:
  "got_pointers gb gs payload = [] \<longleftrightarrow>
    (\<nexists>i. i + 8 \<le> length payload \<and> le_value (take 8 (drop i payload)) \<noteq> 0
          \<and> is_candidate gb gs (le_value (take 8 (drop i payload))) i)"
proof -
  have "got_pointers gb gs payload = [] \<longleftrightarrow> (\<nexists>v i. GotPointer v i \<in> set (got_pointers gb gs payload))"
    using got_pointers_only by (metis empty_iff list.set(1) last_in_set)
  then show ?thesis by (auto simp: got_pointers_iff)
qed

text \<open>A payload is reported clean exactly when it has no sixteen consecutive 0x90 bytes, no
  twelve consecutive identical bytes, and no aligned or in-range non-zero 8-byte value.\<close>

theorem clean_payload_iff:
  "scan_payload payload gb gs = [] \<longleftrightarrow>
     (\<nexists>b i. i + 12 \<le> length payload \<and> (\<forall>k < 12. payload ! (i + k) = b))
     \<and> (\<nexists>i. i + 8 \<le> length payload \<and> le_value (take 8 (drop i payload)) \<noteq> 0
            \<and> is_candidate gb gs (le_value (take 8 (drop i payload))) i)"
proof -
  have "nop_loop payload 0 = []" if "repeated_runs payload = []"
    using that nop_loop_only [of "hd (nop_loop payload 0)" payload] sled_gives_run sled_offsets_sled
    by (metis empty_iff empty_set list.set_sel(1))
  then have "scan_payload payload gb gs = [] \<longleftrightarrow> repeated_runs payload = [] \<and> got_pointers gb gs payload = []"
    by (cases payload) (auto simp: scan_payload_def scan_findings_def repeated_runs_def got_pointers_def)
  then show ?thesis by (simp only: no_runs_iff no_pointers_iff)
qed

theorem clean_payload_iff_witness: "scan_payload [0x41, 0x42, 0x43] None None = []"
  using clean_payload_iff [of "[0x41, 0x42, 0x43]" None None] by simp

end
