(* ===== verification/Pcap_Investigator.thy ===== *)
theory Pcap_Investigator
  imports World Packets Payload_Scan
begin

text \<open>
  \<open>xdr/network/pcap_investigator.py\<close>: the choice of the capture source, the extraction of
  the TCP payload and \<open>log_packet\<close>, which scans the payload and publishes one event per
  finding. \<open>rdpcap\<close>, \<open>sniff\<close> and \<open>wrpcap\<close> are scapy's and are parameters. The lines
  printed per packet are not modelled.
\<close>

record investigator =
  pcap_file_dir :: "str option"

text \<open>An empty path counts as absent, as it does in a Python condition.\<close>

definition capture_file :: "investigator \<Rightarrow> str option" where
  "capture_file iv = (case pcap_file_dir iv of None \<Rightarrow> None | Some path \<Rightarrow> if path = [] then None else Some path)"

definition capture_type :: "investigator \<Rightarrow> str" where
  "capture_type iv = (if capture_file iv \<noteq> None then lit ''file'' else lit ''live'')"

definition get_packets ::
  "(str \<Rightarrow> ('w, packet list) op) \<Rightarrow> (int \<Rightarrow> ('w, packet list) op) \<Rightarrow> (str \<Rightarrow> packet list \<Rightarrow> ('w, unit) op)
   \<Rightarrow> int \<Rightarrow> str \<Rightarrow> (investigator \<times> 'w, packet list) op" where
  "get_packets rdpcap sniff wrpcap live_count save_live_as =
     and_then (look capture_file) (\<lambda>file. case file of
         Some path \<Rightarrow> outside (rdpcap path)
       | None \<Rightarrow> and_then (outside (sniff live_count)) (\<lambda>packets.
           and_then (outside (wrpcap save_live_as packets)) (\<lambda>_. ret packets)))"

definition extract_tcp_payload :: "packet \<Rightarrow> bytes" where
  "extract_tcp_payload packet = (case pk_tcp packet of Some tcp \<Rightarrow> tcp_payload tcp | None \<Rightarrow> [])"

definition finding_report :: "str \<Rightarrow> str \<Rightarrow> report" where
  "finding_report src_ip finding = \<lparr>rp_vector = NETWORK, rp_type = lit ''payload_scan_finding'',
     rp_src = src_ip, rp_severity = 3, rp_metadata = [(lit ''finding'', PStr finding)]\<rparr>"

definition packet_source :: "packet \<Rightarrow> str" where
  "packet_source packet = (case pk_ip packet of Some ip \<Rightarrow> ip_src ip | None \<Rightarrow> lit ''unknown'')"

definition log_packet ::
  "int option \<Rightarrow> int option \<Rightarrow> packet \<Rightarrow> (investigator \<times> 'a world_scheme, unit) op" where
  "log_packet got_base got_size packet =
     (let raw_payload = extract_tcp_payload packet in
      if raw_payload \<noteq> [] then
        for_each (\<lambda>finding. outside (emit_report (finding_report (packet_source packet) finding)))
          (scan_payload raw_payload got_base got_size)
      else ret ())"

section \<open>The detector contract\<close>

definition payload_reports :: "int option \<Rightarrow> int option \<Rightarrow> packet \<Rightarrow> report list" where
  "payload_reports gb gs p =
     map (finding_report (packet_source p)) (scan_payload (extract_tcp_payload p) gb gs)"

lemma finding_report_ok: "report_ok (finding_report src f)"
  by (simp add: finding_report_def report_ok_def)

lemma payload_reports_ok: "r \<in> set (payload_reports gb gs p) \<Longrightarrow> report_ok r"
  by (auto simp: payload_reports_def finding_report_ok)

lemma scan_empty [simp]: "scan_payload [] gb gs = []"
  by (simp add: scan_payload_def scan_findings_def)

lemma log_packet_eq:
  "log_packet gb gs p (iv, w) =
     (let r = for_each emit_report (payload_reports gb gs p) w in (fst r, (iv, snd r)))"
  by (simp add: log_packet_def payload_reports_def for_each_outside for_each_map Let_def ret_apply)

interpretation pcap_log: detector "log_packet gb gs" "\<lambda>iv. iv" "\<lambda>p iv. iv" "\<lambda>iv. payload_reports gb gs"
  for gb gs
proof unfold_locales
  fix l p and c :: investigator and w :: "'a world_scheme"
  show "\<exists>c' w'. log_packet gb gs p (c, w) = (Inr (), c', w') \<and> c' = c \<and> emitted (payload_reports gb gs p) w w'"
    if "bound l w"
    using emit_reports_bound [OF that, of "payload_reports gb gs p"] payload_reports_ok
    by (auto simp: log_packet_eq Let_def)
  show "\<exists>c' w'. log_packet gb gs p (c, w) =
      (if payload_reports gb gs p = [] then Inr () else Inl RuntimeError, c', w')
      \<and> ENGINE w' = ENGINE w \<and> (payload_reports gb gs p = [] \<longrightarrow> c' = c)"
    if "usable_loop (ENGINE w) = None"
    using that payload_reports_ok by (auto simp: log_packet_eq emit_reports_unbound env_ticked_def)
qed (rule payload_reports_ok)

text \<open>Logging a packet publishes one severity-3 event per finding of the payload scan, in the
  scanner's order, under the packet's IPv4 source; a TCP packet without an IPv4 layer, so every
  IPv6 one, is reported under the single source "unknown". The investigator is unchanged and
  the call returns on a bound engine.\<close>

theorem log_packet_publishes_findings:
  assumes "bound l w"
  shows "\<exists>w'. log_packet gb gs p (iv, w) = (Inr (), (iv, w'))
    \<and> emitted (map (finding_report (case pk_ip p of Some ip \<Rightarrow> ip_src ip | None \<Rightarrow> lit ''unknown''))
        (case pk_tcp p of Some tcp \<Rightarrow> scan_payload (tcp_payload tcp) gb gs | None \<Rightarrow> [])) w w'"
proof -
  have "payload_reports gb gs p =
      map (finding_report (case pk_ip p of Some ip \<Rightarrow> ip_src ip | None \<Rightarrow> lit ''unknown''))
        (case pk_tcp p of Some tcp \<Rightarrow> scan_payload (tcp_payload tcp) gb gs | None \<Rightarrow> [])"
    by (simp add: payload_reports_def extract_tcp_payload_def packet_source_def split: option.splits)
  then show ?thesis using pcap_log.step_bound [OF assms, of gb gs p iv] by fastforce
qed

lemma scan_a_run: "scan_payload (replicate 12 0x41) None None =
    [finding_text (RepeatedRun 0x41 12 0)]"
  by code_simp

theorem log_packet_publishes_findings_witness:
  "\<exists>w'. log_packet None None ((tcp_packet ''a'' 1 ''PA'' (replicate 12 0x41))\<lparr>pk_ip := None\<rparr>)
        (\<lparr>pcap_file_dir = None\<rparr>, sample_world (Some 7)) = (Inr (), (\<lparr>pcap_file_dir = None\<rparr>, w'))
    \<and> emitted [finding_report (lit ''unknown'') (finding_text (RepeatedRun 0x41 12 0))] (sample_world (Some 7)) w'"
  using log_packet_publishes_findings [OF sample_world_simps(1), of None None
      "(tcp_packet ''a'' 1 ''PA'' (replicate 12 0x41))\<lparr>pk_ip := None\<rparr>" "\<lparr>pcap_file_dir = None\<rparr>"]
  by (simp add: tcp_packet_def scan_a_run)

end
