(* ===== verification/Counting.thy ===== *)
theory Counting
  imports Prelude
begin

text \<open>
  Tallies: a dictionary that counts occurrences, filled one element at a time, as
  \<open>defaultdict(int)\<close> and \<open>Counter\<close> are.
\<close>

definition count_one :: "'x \<Rightarrow> ('x, int) dict \<Rightarrow> ('x, int) dict" where
  "count_one x d = dict_set x ((case dict_get d x of None \<Rightarrow> 0 | Some n \<Rightarrow> n) + 1) d"

text \<open>The elements in order of first appearance, each with its number of occurrences.\<close>

definition first_seen :: "'x list \<Rightarrow> 'x list" where
  "first_seen xs = rev (remdups (rev xs))"

definition tally :: "'x list \<Rightarrow> ('x, int) dict" where
  "tally xs = map (\<lambda>s. (s, int (count_list xs s))) (first_seen xs)"

lemma first_seen_simps [simp]:
  "first_seen [] = []" "set (first_seen xs) = set xs" "distinct (first_seen xs)"
  "first_seen (xs @ [x]) = (if x \<in> set xs then first_seen xs else first_seen xs @ [x])"
  by (simp_all add: first_seen_def)

lemma dict_set_map_in:
  "distinct ks \<Longrightarrow> k \<in> set ks \<Longrightarrow>
   dict_set k v (map (\<lambda>s. (s, f s)) ks) = map (\<lambda>s. (s, if s = k then v else f s)) ks"
  by (induction ks) (auto simp: dict_set_def)

lemma dict_set_absent: "k \<notin> fst ` set d \<Longrightarrow> dict_set k v d = d @ [(k, v)]"
  by (induction d) (auto simp: dict_set_def)

lemma tally_get: "dict_get (tally xs) s = (if s \<in> set xs then Some (int (count_list xs s)) else None)"
  by (simp add: tally_def dict_get_def map_of_map_restrict)

lemma tally_snoc:
  "tally (xs @ [x]) = dict_set x ((case dict_get (tally xs) x of None \<Rightarrow> 0 | Some n \<Rightarrow> n) + 1) (tally xs)"
proof (cases "x \<in> set xs")
  case True
  then have "dict_set x (int (count_list xs x) + 1) (tally xs)
      = map (\<lambda>s. (s, if s = x then int (count_list xs x) + 1 else int (count_list xs s))) (first_seen xs)"
    by (simp add: tally_def dict_set_map_in)
  also have "\<dots> = tally (xs @ [x])"
    using True by (simp add: tally_def)
  finally show ?thesis using True by (simp add: tally_get)
next
  case False
  moreover have "x \<notin> fst ` set (tally xs)" using False by (simp add: tally_def image_image)
  ultimately show ?thesis
    by (simp add: tally_get dict_set_absent) (auto simp: tally_def count_list_0_iff)
qed

lemma count_one_tally: "count_one x (tally xs) = tally (xs @ [x])"
  by (simp add: count_one_def tally_snoc)

lemma counter_tally: "fold count_one xs (tally ys) = tally (ys @ xs)"
  by (induction xs arbitrary: ys) (simp_all add: count_one_tally)

lemma counter_eq: "fold count_one xs [] = tally xs"
  using counter_tally [of xs "[]"] by (simp add: tally_def)

lemma tally_sum: "sum_list (map snd (tally xs)) = int (length xs)"
proof -
  have "sum_list (map (\<lambda>s. int (count_list xs s)) (first_seen xs)) = (\<Sum>s \<in> set xs. int (count_list xs s))"
    by (simp add: sum_list_distinct_conv_sum_set)
  also have "\<dots> = int (length xs)" by (simp add: sum_count_set flip: of_nat_sum)
  finally show ?thesis by (simp add: tally_def comp_def)
qed

lemma tally_pos: "p \<in> set (tally xs) \<Longrightarrow> 0 < snd p"
  by (auto simp: tally_def count_list_0_iff neq0_conv [symmetric] simp del: neq0_conv)

lemma tally_le: "p \<in> set (tally xs) \<Longrightarrow> snd p \<le> int (length xs)"
  by (auto simp: tally_def count_le_length)

end
