(* ===== verification/Sctp_Detector.thy ===== *)
theory Sctp_Detector
  imports World Packets Counting
begin

text \<open>
  \<open>xdr/network/sctp_detector.py\<close>: \<open>SctpFloodDetector\<close>, a tally of INIT chunks per source
  address and the threshold check at the end of a window. \<open>init_chunk_count\<close> is a
  \<open>defaultdict(int)\<close>.
\<close>

record sctp_detector =
  max_init_chunks :: int
  sctp_window_duration :: int
  init_chunk_count :: "(str, int) dict"

definition new_sctp_detector :: "int \<Rightarrow> int \<Rightarrow> sctp_detector" where
  "new_sctp_detector m d = \<lparr>max_init_chunks = m, sctp_window_duration = d, init_chunk_count = []\<rparr>"

definition count_init :: "str \<Rightarrow> sctp_detector \<Rightarrow> sctp_detector" where
  "count_init src d =
     (let n = (case dict_get (init_chunk_count d) src of None \<Rightarrow> 0 | Some n \<Rightarrow> n)
      in d\<lparr>init_chunk_count := dict_set src (n + 1) (init_chunk_count d)\<rparr>)"

definition sctp_process_packet :: "packet \<Rightarrow> (sctp_detector \<times> 'w, unit) op" where
  "sctp_process_packet packet =
     (case pk_ip packet of
        None \<Rightarrow> ret ()
      | Some ip \<Rightarrow>
          if pk_sctp_init packet then own (count_init (ip_src ip))
          else (case pk_raw packet of
                  None \<Rightarrow> ret ()
                | Some sctp_payload \<Rightarrow>
                    if ip_proto ip = 132 then
                      if 13 \<le> length sctp_payload \<and> sctp_payload ! 12 = 1
                      then own (count_init (ip_src ip)) else ret ()
                    else ret ()))"

definition flood_report :: "int \<Rightarrow> str \<Rightarrow> int \<Rightarrow> report" where
  "flood_report threshold src_ip count = \<lparr>rp_vector = NETWORK, rp_type = lit ''sctp_init_flood'',
     rp_src = src_ip, rp_severity = 4,
     rp_metadata = [(lit ''init_chunk_count'', PInt count), (lit ''threshold'', PInt threshold)]\<rparr>"

definition check_thresholds :: "(sctp_detector \<times> 'a world_scheme, unit) op" where
  "check_thresholds =
     and_then (look (\<lambda>d. (init_chunk_count d, max_init_chunks d))) (\<lambda>(items, m).
       for_each (\<lambda>(src_ip, count).
         if m < count then outside (emit_report (flood_report m src_ip count)) else ret ()) items)"

definition reset_window :: "(sctp_detector \<times> 'w, unit) op" where
  "reset_window = own (\<lambda>d. d\<lparr>init_chunk_count := []\<rparr>)"

section \<open>The tally\<close>

text \<open>The source an INIT packet is counted for.\<close>

definition init_source :: "packet \<Rightarrow> str list" where
  "init_source p = (case pk_ip p of None \<Rightarrow> [] | Some ip \<Rightarrow>
     if pk_sctp_init p
        \<or> (\<exists>load. pk_raw p = Some load \<and> ip_proto ip = 132 \<and> 13 \<le> length load \<and> load ! 12 = 1)
     then [ip_src ip] else [])"

definition init_sources :: "packet list \<Rightarrow> str list" where
  "init_sources ps = concat (map init_source ps)"

lemma count_init_tally:
  "init_chunk_count d = tally xs \<Longrightarrow> init_chunk_count (count_init x d) = tally (xs @ [x])"
  by (simp add: count_init_def tally_snoc)

lemma process_eq:
  "sctp_process_packet p (d, w) = (Inr (), (fold count_init (init_source p) d, w))"
  by (auto simp: sctp_process_packet_def init_source_def op_simps split: option.splits)

lemma count_init_keeps [simp]: "max_init_chunks (count_init x d) = max_init_chunks d"
  by (simp add: count_init_def Let_def)

lemma process_all:
  "init_chunk_count d = tally xs \<Longrightarrow> \<exists>d'. for_each sctp_process_packet ps (d, w) = (Inr (), (d', w))
    \<and> init_chunk_count d' = tally (xs @ init_sources ps) \<and> max_init_chunks d' = max_init_chunks d"
proof (induction ps arbitrary: d xs)
  case Nil
  then show ?case by (simp add: op_simps init_sources_def)
next
  case (Cons p ps)
  have "init_chunk_count (fold count_init (init_source p) d) = tally (xs @ init_source p)"
    using Cons.prems by (auto simp: init_source_def count_init_tally split: option.splits)
  moreover have "max_init_chunks (fold count_init (init_source p) d) = max_init_chunks d"
    by (auto simp: init_source_def split: option.splits)
  ultimately show ?case
    using Cons.IH [of "fold count_init (init_source p) d" "xs @ init_source p"]
    by (simp add: process_eq init_sources_def)
qed

section \<open>The detector contract\<close>

definition over_threshold :: "(str, int) dict \<times> int \<Rightarrow> report list" where
  "over_threshold v = map (\<lambda>(src, n). flood_report (snd v) src n) (filter (\<lambda>(src, n). snd v < n) (fst v))"

lemma flood_report_ok: "report_ok (flood_report m src n)"
  by (simp add: flood_report_def report_ok_def)

text \<open>The conditional loop is a loop over the sources above the threshold.\<close>

lemma check_loop:
  "for_each (\<lambda>(src_ip, count). if m < count then outside (emit_report (flood_report m src_ip count)) else ret ()) items (d, w)
   = (let r = for_each emit_report (over_threshold (items, m)) w in (fst r, (d, snd r)))"
proof (induction items arbitrary: w)
  case Nil
  then show ?case by (simp add: over_threshold_def op_simps)
next
  case (Cons it items)
  obtain src n where it: "it = (src, n)" by (cases it)
  show ?case
  proof (cases "m < n")
    case True
    obtain r w1 where e: "emit_report (flood_report m src n) w = (r, w1)" by fastforce
    with True Cons [of w1] it show ?thesis
      by (cases r) (simp_all add: over_threshold_def Let_def and_then_apply outside_apply)
  next
    case False
    with Cons it show ?thesis by (simp add: over_threshold_def)
  qed
qed

lemma check_eq:
  "check_thresholds (d, w) = (let r = for_each emit_report (over_threshold (init_chunk_count d, max_init_chunks d)) w
     in (fst r, (d, snd r)))"
  by (simp only: check_thresholds_def and_then_apply look_apply) (simp add: check_loop)

interpretation sctp_packets: detector sctp_process_packet "\<lambda>d. d" "\<lambda>p. fold count_init (init_source p)" "\<lambda>d p. []"
  by unfold_locales (auto simp: process_eq)

interpretation sctp_check: detector "\<lambda>_::unit. check_thresholds"
    "\<lambda>d. (init_chunk_count d, max_init_chunks d)" "\<lambda>_ v. v" "\<lambda>v _. over_threshold v"
proof unfold_locales
  have ok: "\<forall>r \<in> set (over_threshold v). report_ok r" for v
    by (auto simp: over_threshold_def flood_report_ok)
  fix l p and c :: sctp_detector and w :: "'a world_scheme"
  show "\<exists>c' w'. check_thresholds (c, w) = (Inr (), (c', w'))
      \<and> (init_chunk_count c', max_init_chunks c') = (init_chunk_count c, max_init_chunks c)
      \<and> emitted (over_threshold (init_chunk_count c, max_init_chunks c)) w w'" if "bound l w"
    using emit_reports_bound [OF that ok [of "(init_chunk_count c, max_init_chunks c)"]]
    by (auto simp: check_eq Let_def)
  show "\<exists>c' w'. check_thresholds (c, w) =
      (if over_threshold (init_chunk_count c, max_init_chunks c) = [] then Inr () else Inl RuntimeError, (c', w'))
      \<and> ENGINE w' = ENGINE w
      \<and> (over_threshold (init_chunk_count c, max_init_chunks c) = []
          \<longrightarrow> (init_chunk_count c', max_init_chunks c') = (init_chunk_count c, max_init_chunks c))"
    if "usable_loop (ENGINE w) = None"
    using that by (simp add: check_eq emit_reports_unbound ok env_ticked_def)
  show "report_ok r" if "r \<in> set (over_threshold v)" for r v
    using that ok by blast
qed

text \<open>C9: over one window, that is any packets after a reset followed by the threshold check,
  the detector publishes exactly one event per source that sent more INIT packets than the
  threshold allows, with the exact number in its metadata, in order of the sources' first INIT;
  it publishes nothing else and never fails on a bound engine.\<close>

theorem sctp_flood_iff:
  assumes "bound l w"
  shows "\<exists>d' w'. and_then reset_window (\<lambda>_. and_then (for_each sctp_process_packet ps) (\<lambda>_. check_thresholds)) (d, w)
      = (Inr (), (d', w'))
    \<and> emitted (map (\<lambda>src. flood_report (max_init_chunks d) src (int (count_list (init_sources ps) src)))
        (filter (\<lambda>src. max_init_chunks d < int (count_list (init_sources ps) src)) (first_seen (init_sources ps)))) w w'"
proof -
  let ?d = "d\<lparr>init_chunk_count := []\<rparr>"
  have reset: "reset_window (d, w) = (Inr (), (?d, w))" by (simp add: reset_window_def own_apply)
  have "init_chunk_count ?d = tally []" by (simp add: tally_def)
  from process_all [OF this, of ps w] obtain d1 where
    run: "for_each sctp_process_packet ps (?d, w) = (Inr (), (d1, w))" and
    d1: "init_chunk_count d1 = tally (init_sources ps)" "max_init_chunks d1 = max_init_chunks d"
    by auto
  from sctp_check.step_bound [OF assms, of d1] obtain d' w' where
    chk: "check_thresholds (d1, w) = (Inr (), (d', w'))"
      "emitted (over_threshold (init_chunk_count d1, max_init_chunks d1)) w w'" by blast
  moreover have "over_threshold (init_chunk_count d1, max_init_chunks d1) =
      map (\<lambda>src. flood_report (max_init_chunks d) src (int (count_list (init_sources ps) src)))
        (filter (\<lambda>src. max_init_chunks d < int (count_list (init_sources ps) src)) (first_seen (init_sources ps)))"
    by (simp add: d1 over_threshold_def tally_def filter_map comp_def)
  ultimately show ?thesis using reset run by (intro exI [of _ d'] exI [of _ w']) simp
qed

theorem sctp_flood_iff_witness:
  "\<exists>d' w'. and_then reset_window (\<lambda>_. and_then (for_each sctp_process_packet
       [sctp_packet ''a'', sctp_packet ''b'', raw_sctp_packet ''a'' (replicate 12 0 @ [1])]) (\<lambda>_. check_thresholds))
      (new_sctp_detector 1 15, sample_world (Some 7)) = (Inr (), (d', w'))
    \<and> emitted [flood_report 1 (lit ''a'') 2] (sample_world (Some 7)) w'"
proof -
  let ?ps = "[sctp_packet ''a'', sctp_packet ''b'', raw_sctp_packet ''a'' (replicate 12 0 @ [1])]"
  have "bound 7 (sample_world (Some 7))" by simp
  moreover have "init_sources ?ps = [lit ''a'', lit ''b'', lit ''a'']"
    by (simp add: init_sources_def init_source_def sctp_packet_def raw_sctp_packet_def nth_append)
  ultimately show ?thesis
    using sctp_flood_iff [of 7 "sample_world (Some 7)" ?ps "new_sctp_detector 1 15"]
    by (simp add: new_sctp_detector_def first_seen_def)
qed

end
