(* ===== verification/Tcp_Detector.thy ===== *)
theory Tcp_Detector
  imports World Packets
begin

text \<open>
  \<open>xdr/network/tcp_detector.py\<close>: \<open>TcpHijackDetector\<close>, which keeps for every connection the
  sequence number of its baseline and reports forward jumps beyond a threshold.
  \<open>connection\<close> states what one connection's bookkeeping is, without dictionaries, and the
  detector is shown to run one such automaton per connection.
\<close>

type_synonym ConnKey = "str \<times> str \<times> int \<times> int"

record tcp_detector =
  SEQ_JUMP_THRESHOLD :: int
  seq_registry :: "(ConnKey, int) dict"
  last_seen_time :: "(ConnKey, pyfloat) dict"
  anomaly_count :: "(ConnKey, int) dict"

definition MAX_SEQ :: int where
  "MAX_SEQ = 2 ^ 32"

definition new_tcp_detector :: "int \<Rightarrow> tcp_detector" where
  "new_tcp_detector threshold = \<lparr>SEQ_JUMP_THRESHOLD = threshold, seq_registry = [],
     last_seen_time = [], anomaly_count = []\<rparr>"

definition conn_key :: "ip_header \<Rightarrow> tcp_segment \<Rightarrow> ConnKey" where
  "conn_key ip tcp = (ip_src ip, ip_dst ip, tcp_sport tcp, tcp_dport tcp)"

definition seq_delta :: "int \<Rightarrow> int \<Rightarrow> int" where
  "seq_delta prev_seq curr_seq =
     (let delta = curr_seq - prev_seq in if delta < 0 then delta + MAX_SEQ else delta)"

definition expected_bump :: "tcp_segment \<Rightarrow> int" where
  "expected_bump tcp =
     int (length (tcp_payload tcp)) +
     (if 83 \<in> set (tcp_flags tcp) \<or> 70 \<in> set (tcp_flags tcp) then 1 else 0)"

definition conn_text :: "ConnKey \<Rightarrow> str" where
  "conn_text key = (case key of (src_ip, dst_ip, src_port, dst_port) \<Rightarrow>
     src_ip @ lit '':'' @ dec src_port @ lit '' -> '' @ dst_ip @ lit '': '' @ dec dst_port)"

definition hijack_report :: "ConnKey \<Rightarrow> int \<Rightarrow> int \<Rightarrow> int \<Rightarrow> int \<Rightarrow> int \<Rightarrow> report" where
  "hijack_report key prev_seq curr_seq delta bump anomalies =
     \<lparr>rp_vector = NETWORK, rp_type = lit ''tcp_hijack_seq_anomaly'', rp_src = conn_text key,
      rp_severity = 4,
      rp_metadata = [(lit ''prev_seq'', PInt prev_seq), (lit ''curr_seq'', PInt curr_seq),
        (lit ''delta'', PInt delta), (lit ''expected_bump'', PInt bump),
        (lit ''anomaly_count'', PInt anomalies)]\<rparr>"

definition anomalies_of :: "ConnKey \<Rightarrow> (ConnKey, int) dict \<Rightarrow> int" where
  "anomalies_of key d = (case dict_get d key of None \<Rightarrow> 0 | Some n \<Rightarrow> n)"

definition flag_hijack ::
  "ConnKey \<Rightarrow> int \<Rightarrow> int \<Rightarrow> int \<Rightarrow> int \<Rightarrow> (tcp_detector \<times> 'a world_scheme, unit) op" where
  "flag_hijack key prev_seq curr_seq delta bump =
     and_then (look anomaly_count) (\<lambda>counts. case dict_get counts key of
         None \<Rightarrow> raise_err KeyError
       | Some n \<Rightarrow> outside (emit_report (hijack_report key prev_seq curr_seq delta bump n)))"

text \<open>Reading \<open>time.time()\<close> into \<open>last_seen_time[key]\<close>.\<close>

definition see_now :: "ConnKey \<Rightarrow> (tcp_detector \<times> 'a world_scheme, unit) op" where
  "see_now key = and_then (outside time_now) (\<lambda>now.
     own (\<lambda>d. d\<lparr>last_seen_time := dict_set key now (last_seen_time d)\<rparr>))"

definition set_baseline :: "ConnKey \<Rightarrow> int \<Rightarrow> (tcp_detector \<times> 'a world_scheme, unit) op" where
  "set_baseline key curr_seq =
     and_then (own (\<lambda>d. d\<lparr>seq_registry := dict_set key curr_seq (seq_registry d)\<rparr>)) (\<lambda>_. see_now key)"

definition tcp_process_packet :: "packet \<Rightarrow> (tcp_detector \<times> 'a world_scheme, unit) op" where
  "tcp_process_packet pkt =
     (case (pk_tcp pkt, pk_ip pkt) of
        (Some tcp, Some ip) \<Rightarrow>
          (let key = conn_key ip tcp; curr_seq = tcp_seq tcp in
           and_then (look seq_registry) (\<lambda>registry. case dict_get registry key of
               None \<Rightarrow>
                 and_then (set_baseline key curr_seq) (\<lambda>_.
                   own (\<lambda>d. d\<lparr>anomaly_count := dict_set key 0 (anomaly_count d)\<rparr>))
             | Some prev_seq \<Rightarrow>
                 (let delta = seq_delta prev_seq curr_seq; bump = expected_bump tcp in
                  and_then (look SEQ_JUMP_THRESHOLD) (\<lambda>threshold.
                    and_then
                      (if threshold < delta then
                         and_then (own (\<lambda>d. d\<lparr>anomaly_count :=
                             dict_set key (anomalies_of key (anomaly_count d) + 1) (anomaly_count d)\<rparr>))
                           (\<lambda>_. flag_hijack key prev_seq curr_seq delta bump)
                       else ret ())
                      (\<lambda>_. if bump \<le> delta then set_baseline key curr_seq else ret ())))))
      | _ \<Rightarrow> ret ())"

section \<open>Sequence arithmetic\<close>

lemma seq_delta_mod:
  assumes "0 \<le> a" "a < MAX_SEQ" "0 \<le> b" "b < MAX_SEQ"
  shows "seq_delta a b = (b - a) mod MAX_SEQ"
proof (cases "b < a")
  case True
  then have "(b - a) mod MAX_SEQ = (b - a + MAX_SEQ) mod MAX_SEQ" by simp
  also have "\<dots> = b - a + MAX_SEQ" using True assms by (intro mod_pos_pos_trivial) auto
  finally show ?thesis using True by (simp add: seq_delta_def Let_def)
next
  case False
  then show ?thesis using assms by (simp add: seq_delta_def Let_def)
qed

text \<open>The forward distance is exact modulo 2^32, wrap-around included: on 32-bit sequence
  numbers it is the difference of the words, it always lies in 0..2^32-1, it is zero only for
  equal numbers, and adding it to the previous number gives the current one modulo 2^32.\<close>

theorem seq_delta_wraps:
  fixes a b :: "32 word"
  shows "seq_delta (uint a) (uint b) = uint (b - a)
    \<and> 0 \<le> seq_delta (uint a) (uint b) \<and> seq_delta (uint a) (uint b) < MAX_SEQ
    \<and> (seq_delta (uint a) (uint b) = 0 \<longleftrightarrow> a = b)
    \<and> (uint a + seq_delta (uint a) (uint b)) mod MAX_SEQ = uint b"
proof -
  have range: "0 \<le> uint a" "uint a < MAX_SEQ" "0 \<le> uint b" "uint b < MAX_SEQ"
    using unsigned_less [of a] unsigned_less [of b] by (simp_all add: MAX_SEQ_def)
  have eq: "seq_delta (uint a) (uint b) = uint (b - a)"
    using seq_delta_mod [OF range] by (simp add: uint_word_ariths MAX_SEQ_def)
  moreover have "uint (b - a) < MAX_SEQ" using unsigned_less [of "b - a"] by (simp add: MAX_SEQ_def)
  moreover have "uint (b - a) = 0 \<longleftrightarrow> a = b" by (metis eq_iff_diff_eq_0 uint_0_iff)
  moreover have "(uint a + seq_delta (uint a) (uint b)) mod MAX_SEQ = uint b"
    using range by (simp add: seq_delta_mod mod_add_right_eq)
  ultimately show ?thesis by simp
qed

section \<open>One connection\<close>

text \<open>The baseline and the number of anomalies; \<open>None\<close> before the first segment.\<close>

type_synonym conn_state = "(int \<times> int) option"

definition conn_step :: "int \<Rightarrow> tcp_segment \<Rightarrow> conn_state \<Rightarrow> conn_state" where
  "conn_step thr t st = (case st of
       None \<Rightarrow> Some (tcp_seq t, 0)
     | Some (base, n) \<Rightarrow> let delta = seq_delta base (tcp_seq t) in
         Some (if expected_bump t \<le> delta then tcp_seq t else base, if thr < delta then n + 1 else n))"

definition conn_gives :: "int \<Rightarrow> ConnKey \<Rightarrow> tcp_segment \<Rightarrow> conn_state \<Rightarrow> report list" where
  "conn_gives thr key t st = (case st of
       None \<Rightarrow> []
     | Some (base, n) \<Rightarrow> let delta = seq_delta base (tcp_seq t) in
         if thr < delta then [hijack_report key base (tcp_seq t) delta (expected_bump t) (n + 1)] else [])"

text \<open>The connection and segment of a packet, and a connection's state in the detector.\<close>

definition conn_of :: "packet \<Rightarrow> (ConnKey \<times> tcp_segment) option" where
  "conn_of p = (case (pk_tcp p, pk_ip p) of (Some t, Some ip) \<Rightarrow> Some (conn_key ip t, t) | _ \<Rightarrow> None)"

type_synonym tcp_view = "int \<times> (ConnKey, int) dict \<times> (ConnKey, int) dict"

definition tcp_view :: "tcp_detector \<Rightarrow> tcp_view" where
  "tcp_view d = (SEQ_JUMP_THRESHOLD d, seq_registry d, anomaly_count d)"

definition connection :: "ConnKey \<Rightarrow> tcp_view \<Rightarrow> conn_state" where
  "connection key v = (case v of (thr, reg, counts) \<Rightarrow>
     (case dict_get reg key of None \<Rightarrow> None | Some b \<Rightarrow> Some (b, anomalies_of key counts)))"

definition tcp_follow :: "packet \<Rightarrow> tcp_view \<Rightarrow> tcp_view" where
  "tcp_follow p v = (case conn_of p of None \<Rightarrow> v | Some (key, t) \<Rightarrow>
     (case v of (thr, reg, counts) \<Rightarrow>
       (case dict_get reg key of
          None \<Rightarrow> (thr, dict_set key (tcp_seq t) reg, dict_set key 0 counts)
        | Some base \<Rightarrow> (let delta = seq_delta base (tcp_seq t) in
            (thr, if expected_bump t \<le> delta then dict_set key (tcp_seq t) reg else reg,
             if thr < delta then dict_set key (anomalies_of key counts + 1) counts else counts)))))"

definition tcp_gives :: "tcp_view \<Rightarrow> packet \<Rightarrow> report list" where
  "tcp_gives v p = (case conn_of p of None \<Rightarrow> [] | Some (key, t) \<Rightarrow> conn_gives (fst v) key t (connection key v))"

lemma hijack_report_ok: "report_ok (hijack_report key a b c d e)"
  by (simp add: hijack_report_def report_ok_def)

lemma see_now_eq: "see_now key (d, w) = (Inr (),
    (d\<lparr>last_seen_time := dict_set key (env_clock w (env_reads w)) (last_seen_time d)\<rparr>,
     w\<lparr>env_reads := Suc (env_reads w)\<rparr>))"
  by (simp add: see_now_def op_simps)

lemma set_baseline_eq: "set_baseline key s (d, w) = (Inr (),
    (d\<lparr>seq_registry := dict_set key s (seq_registry d),
       last_seen_time := dict_set key (env_clock w (env_reads w)) (last_seen_time d)\<rparr>,
     w\<lparr>env_reads := Suc (env_reads w)\<rparr>))"
  by (simp add: set_baseline_def op_simps see_now_eq)

text \<open>The flagging part of a step, and the step as that part followed by the baseline update.\<close>

definition flag_part :: "ConnKey \<Rightarrow> tcp_segment \<Rightarrow> int \<Rightarrow> int \<Rightarrow> (tcp_detector \<times> 'a world_scheme, unit) op" where
  "flag_part key t thr base = (let delta = seq_delta base (tcp_seq t) in
     if thr < delta then
       and_then (own (\<lambda>d. d\<lparr>anomaly_count :=
           dict_set key (anomalies_of key (anomaly_count d) + 1) (anomaly_count d)\<rparr>))
         (\<lambda>_. flag_hijack key base (tcp_seq t) delta (expected_bump t))
     else ret ())"

lemma tcp_step_known:
  assumes "conn_of p = Some (key, t)" "dict_get (seq_registry d) key = Some base"
  shows "tcp_process_packet p (d, w) =
    and_then (flag_part key t (SEQ_JUMP_THRESHOLD d) base)
      (\<lambda>_. if expected_bump t \<le> seq_delta base (tcp_seq t) then set_baseline key (tcp_seq t) else ret ()) (d, w)"
  using assms by (auto simp: conn_of_def tcp_process_packet_def flag_part_def Let_def look_apply
      split: option.splits)

lemma tcp_step_new:
  assumes "conn_of p = Some (key, t)" "dict_get (seq_registry d) key = None"
  shows "\<exists>d'. tcp_process_packet p (d, w) = (Inr (), (d', w\<lparr>env_reads := Suc (env_reads w)\<rparr>))
    \<and> tcp_view d' = tcp_follow p (tcp_view d)"
  using assms by (auto simp: conn_of_def tcp_process_packet_def Let_def op_simps set_baseline_eq
      tcp_view_def tcp_follow_def split: option.splits)

lemma tcp_step_other: "conn_of p = None \<Longrightarrow> tcp_process_packet p (d, w) = (Inr (), (d, w))"
  by (auto simp: conn_of_def tcp_process_packet_def op_simps split: option.splits)

lemma flag_part_eq:
  "flag_part key t thr base (d, w) =
    (let delta = seq_delta base (tcp_seq t); n = anomalies_of key (anomaly_count d) + 1;
         d' = d\<lparr>anomaly_count := dict_set key n (anomaly_count d)\<rparr>;
         r = emit_report (hijack_report key base (tcp_seq t) delta (expected_bump t) n) w
     in if thr < delta then (fst r, (d', snd r)) else (Inr (), (d, w)))"
  by (simp add: flag_part_def flag_hijack_def Let_def op_simps)

interpretation tcp_packets: detector tcp_process_packet tcp_view tcp_follow tcp_gives
proof unfold_locales
  fix l p d and w :: "'a world_scheme"
  assume b: "bound l w"
  show "\<exists>d' w'. tcp_process_packet p (d, w) = (Inr (), (d', w'))
      \<and> tcp_view d' = tcp_follow p (tcp_view d) \<and> emitted (tcp_gives (tcp_view d) p) w w'"
  proof (cases "conn_of p")
    case None
    then show ?thesis by (simp add: tcp_step_other tcp_follow_def tcp_gives_def)
  next
    case (Some kt)
    then obtain key t where kt: "conn_of p = Some (key, t)" by (cases kt) auto
    show ?thesis
    proof (cases "dict_get (seq_registry d) key")
      case None
      have "tcp_gives (tcp_view d) p = []"
        by (simp add: tcp_gives_def kt conn_gives_def connection_def tcp_view_def None)
      with tcp_step_new [OF kt None, of w] show ?thesis by auto
    next
      case (Some base)
      let ?delta = "seq_delta base (tcp_seq t)" and ?n = "anomalies_of key (anomaly_count d) + 1"
      let ?r = "hijack_report key base (tcp_seq t) ?delta (expected_bump t) ?n"
      obtain w1 where w1: "emit_report ?r w = (Inr (), w1)" "emitted [?r] w w1"
        using emit_report_bound [OF b hijack_report_ok] by blast
      have "emitted [?r] w (w1\<lparr>env_reads := Suc (env_reads w1)\<rparr>)"
        using emitted_trans [OF w1(2) emitted_tick] by simp
      with w1 kt Some show ?thesis
        by (auto simp: tcp_step_known and_then_apply flag_part_eq Let_def set_baseline_eq ret_apply
            tcp_gives_def conn_gives_def connection_def tcp_view_def tcp_follow_def)
    qed
  qed
next
  fix p d and w :: "'a world_scheme"
  assume b: "usable_loop (ENGINE w) = None"
  show "\<exists>d' w'. tcp_process_packet p (d, w) =
      (if tcp_gives (tcp_view d) p = [] then Inr () else Inl RuntimeError, (d', w'))
      \<and> ENGINE w' = ENGINE w \<and> (tcp_gives (tcp_view d) p = [] \<longrightarrow> tcp_view d' = tcp_follow p (tcp_view d))"
  proof (cases "conn_of p")
    case None
    then show ?thesis by (simp add: tcp_step_other tcp_follow_def tcp_gives_def)
  next
    case (Some kt)
    then obtain key t where kt: "conn_of p = Some (key, t)" by (cases kt) auto
    show ?thesis
    proof (cases "dict_get (seq_registry d) key")
      case None
      have "tcp_gives (tcp_view d) p = []"
        by (simp add: tcp_gives_def kt conn_gives_def connection_def tcp_view_def None)
      with tcp_step_new [OF kt None, of w] show ?thesis by auto
    next
      case (Some base)
      then show ?thesis
        using b kt
        by (auto simp: tcp_step_known and_then_apply flag_part_eq Let_def set_baseline_eq ret_apply
            tcp_gives_def conn_gives_def connection_def tcp_view_def tcp_follow_def
            emit_report_unbound hijack_report_ok env_ticked_def)
    qed
  qed
next
  fix r v p
  assume "r \<in> set (tcp_gives v p)"
  then show "report_ok r"
    by (auto simp: tcp_gives_def conn_gives_def hijack_report_ok Let_def split: option.splits if_splits)
qed

section \<open>Connections are judged independently\<close>

definition segments :: "ConnKey \<Rightarrow> packet list \<Rightarrow> tcp_segment list" where
  "segments key ps = concat (map (\<lambda>p. case conn_of p of
     Some (k, t) \<Rightarrow> if k = key then [t] else [] | None \<Rightarrow> []) ps)"

lemma segments_simps [simp]:
  "segments key [] = []" "segments key (ps @ qs) = segments key ps @ segments key qs"
  "segments key [p] = (case conn_of p of Some (k, t) \<Rightarrow> if k = key then [t] else [] | None \<Rightarrow> [])"
  by (simp_all add: segments_def)

lemma anomalies_of_set [simp]:
  "anomalies_of key (dict_set k n d) = (if key = k then n else anomalies_of key d)"
  by (simp add: anomalies_of_def)

lemma fst_tcp_follow [simp]: "fst (tcp_follow p v) = fst v"
  by (auto simp: tcp_follow_def Let_def split: option.splits prod.splits)

lemma connection_follow:
  "connection key (tcp_follow p v) = fold (conn_step (fst v)) (segments key [p]) (connection key v)"
  by (cases v) (auto simp: tcp_follow_def connection_def conn_step_def Let_def split: option.splits)

lemma connection_fold:
  "connection key (fold tcp_follow ps v) = fold (conn_step (fst v)) (segments key ps) (connection key v)"
proof (induction ps arbitrary: v)
  case Nil
  then show ?case by simp
next
  case (Cons p ps)
  have "segments key (p # ps) = segments key [p] @ segments key ps" by (simp add: segments_def)
  then show ?case using Cons [of "tcp_follow p v"] by (simp add: connection_follow del: segments_simps)
qed

lemma fst_fold_follow [simp]: "fst (fold tcp_follow ps v) = fst v"
  by (induction ps arbitrary: v) simp_all

text \<open>The verdict on the \<open>i\<close>-th packet, from the earlier packets of its own connection.\<close>

definition verdict :: "int \<Rightarrow> packet list \<Rightarrow> nat \<Rightarrow> report list" where
  "verdict thr ps i = (case conn_of (ps ! i) of None \<Rightarrow> []
     | Some (key, t) \<Rightarrow> conn_gives thr key t (fold (conn_step thr) (segments key (take i ps)) None))"

lemma reports_verdicts:
  assumes "\<And>key. connection key v = None"
  shows "reports_along tcp_follow tcp_gives v ps = concat (map (verdict (fst v) ps) [0..<length ps])"
proof (induction ps rule: rev_induct)
  case Nil
  then show ?case by simp
next
  case (snoc p ps)
  have "map (verdict (fst v) (ps @ [p])) [0..<length ps] = map (verdict (fst v) ps) [0..<length ps]"
    by (intro map_cong) (simp_all add: verdict_def nth_append split: option.splits)
  moreover have "tcp_gives (fold tcp_follow ps v) p = verdict (fst v) (ps @ [p]) (length ps)"
    by (simp add: tcp_gives_def verdict_def connection_fold assms split: option.splits)
  ultimately show ?case using snoc by (simp add: reports_along_append del: map_eq_conv)
qed

lemma connection_new: "connection key (tcp_view (new_tcp_detector thr)) = None"
  by (simp add: connection_def tcp_view_def new_tcp_detector_def)

text \<open>C3: a fresh detector on a bound engine processes any packet stream without failing, and
  runs one independent automaton per connection: afterwards each connection's baseline and
  anomaly count are what its own segments alone lead to, and the events published are, packet
  by packet, the verdicts on the earlier segments of the same connection.\<close>

theorem tcp_refines_connections:
  assumes "bound l w"
  shows "\<exists>d' w'. for_each tcp_process_packet ps (new_tcp_detector thr, w) = (Inr (), (d', w'))
    \<and> (\<forall>key. connection key (tcp_view d') = fold (conn_step thr) (segments key ps) None)
    \<and> emitted (concat (map (verdict thr ps) [0..<length ps])) w w'"
proof -
  let ?v = "tcp_view (new_tcp_detector thr)"
  have thr: "fst ?v = thr" by (simp add: tcp_view_def new_tcp_detector_def)
  from tcp_packets.stream_bound [OF assms, of ps "new_tcp_detector thr"] obtain d' w' where
    "for_each tcp_process_packet ps (new_tcp_detector thr, w) = (Inr (), (d', w'))"
    "tcp_view d' = fold tcp_follow ps ?v" "emitted (reports_along tcp_follow tcp_gives ?v ps) w w'"
    by blast
  then show ?thesis
    using reports_verdicts [of ?v ps] connection_fold [of _ ps ?v] by (auto simp: connection_new thr)
qed

definition sample_key :: "string \<Rightarrow> ConnKey" where
  "sample_key src = (lit src, lit ''10.0.0.1'', 4444, 80)"

lemma conn_of_sample [simp]: "conn_of (tcp_packet src s flags pl) =
  Some (sample_key src, \<lparr>tcp_sport = 4444, tcp_dport = 80, tcp_seq = s, tcp_flags = lit flags, tcp_payload = pl\<rparr>)"
  by (simp add: conn_of_def conn_key_def sample_key_def tcp_packet_def)

theorem tcp_refines_connections_witness:
  "\<exists>d' w'. for_each tcp_process_packet [tcp_packet ''a'' 1000 ''S'' [], tcp_packet ''b'' 500000 ''S'' [],
        tcp_packet ''a'' 500000 ''A'' [1]] (new_tcp_detector 100000, sample_world (Some 7)) = (Inr (), (d', w'))
    \<and> emitted [hijack_report (sample_key ''a'') 1000 500000 499000 1 1] (sample_world (Some 7)) w'"
proof -
  let ?ps = "[tcp_packet ''a'' 1000 ''S'' [], tcp_packet ''b'' 500000 ''S'' [], tcp_packet ''a'' 500000 ''A'' [1]]"
  have "concat (map (verdict 100000 ?ps) [0..<length ?ps]) =
      [hijack_report (sample_key ''a'') 1000 500000 499000 1 1]"
    by (simp add: verdict_def conn_gives_def conn_step_def seq_delta_def expected_bump_def
        upt_conv_Cons lit_def sample_key_def segments_def)
  then show ?thesis
    using tcp_refines_connections [of 7 "sample_world (Some 7)" ?ps 100000] by auto
qed

section \<open>What is and is not reported\<close>

text \<open>
  A sender that transmits in order: each segment starts where the previous one ended, modulo
  2^32. \<open>in_order q ts\<close> says that \<open>ts\<close> continue a stream whose next position is \<open>q\<close>.
\<close>

fun in_order :: "int \<Rightarrow> tcp_segment list \<Rightarrow> bool" where
  "in_order q [] = True"
| "in_order q (t # ts) = (tcp_seq t = q mod MAX_SEQ \<and> in_order (q + expected_bump t) ts)"

definition silent :: "int \<Rightarrow> tcp_segment list \<Rightarrow> conn_state \<Rightarrow> bool" where
  "silent thr ts st \<longleftrightarrow> (\<forall>key i. i < length ts \<longrightarrow>
     conn_gives thr key (ts ! i) (fold (conn_step thr) (take i ts) st) = [])"

lemma silent_Cons:
  "silent thr (t # ts) st \<longleftrightarrow> (\<forall>key. conn_gives thr key t st = []) \<and> silent thr ts (conn_step thr t st)"
  by (simp add: silent_def All_less_Suc2 all_conj_distrib)

lemma expected_bump_nonneg: "0 \<le> expected_bump t"
  by (simp add: expected_bump_def)

lemma seq_delta_behind:
  assumes "0 \<le> a" "a < MAX_SEQ"
  shows "seq_delta ((q - a) mod MAX_SEQ) (q mod MAX_SEQ) = a"
proof -
  have "(0::int) < MAX_SEQ" by (simp add: MAX_SEQ_def)
  then have "seq_delta ((q - a) mod MAX_SEQ) (q mod MAX_SEQ) = (q mod MAX_SEQ - (q - a) mod MAX_SEQ) mod MAX_SEQ"
    by (intro seq_delta_mod) simp_all
  also have "\<dots> = a mod MAX_SEQ" by (simp add: mod_diff_eq)
  finally show ?thesis using assms by simp
qed

text \<open>The baseline lags behind the stream by less than two segments.\<close>

lemma in_order_silent_from:
  assumes "in_order q ts" "\<forall>t \<in> set ts. expected_bump t \<le> L" "2 * L \<le> thr" "thr < MAX_SEQ"
    "0 \<le> a" "a \<le> 2 * L"
  shows "silent thr ts (Some ((q - a) mod MAX_SEQ, n))"
  using assms
proof (induction ts arbitrary: q a)
  case Nil
  then show ?case by (simp add: silent_def)
next
  case (Cons t ts)
  have delta: "seq_delta ((q - a) mod MAX_SEQ) (tcp_seq t) = a"
    using seq_delta_behind [of a q] Cons.prems by simp
  let ?b = "expected_bump t"
  have b: "0 \<le> ?b" "?b \<le> L" using Cons.prems expected_bump_nonneg by auto
  have "silent thr ts (conn_step thr t (Some ((q - a) mod MAX_SEQ, n)))"
  proof (cases "?b \<le> a")
    case True
    have "silent thr ts (Some ((q + ?b - ?b) mod MAX_SEQ, n))"
      using Cons.prems b by (intro Cons.IH) simp_all
    with True Cons.prems delta show ?thesis by (simp add: conn_step_def)
  next
    case False
    have "silent thr ts (Some ((q + ?b - (a + ?b)) mod MAX_SEQ, n))"
      using Cons.prems b False by (intro Cons.IH) simp_all
    with False Cons.prems delta show ?thesis by (simp add: conn_step_def)
  qed
  moreover have "conn_gives thr key t (Some ((q - a) mod MAX_SEQ, n)) = []" for key
    using Cons.prems delta by (simp add: conn_gives_def)
  ultimately show ?case by (simp add: silent_Cons)
qed

text \<open>What the detector does with packet \<open>i\<close> of a stream is the verdict on it.\<close>

lemma process_at:
  assumes "bound l w" "i < length ps"
  shows "\<exists>d' w' d'' w''. for_each tcp_process_packet (take i ps) (new_tcp_detector thr, w) = (Inr (), (d', w'))
    \<and> tcp_process_packet (ps ! i) (d', w') = (Inr (), (d'', w'')) \<and> emitted (verdict thr ps i) w' w''"
proof -
  let ?v = "tcp_view (new_tcp_detector thr)"
  have thr: "fst ?v = thr" by (simp add: tcp_view_def new_tcp_detector_def)
  from tcp_packets.stream_bound [OF assms(1), of "take i ps" "new_tcp_detector thr"] obtain d' w' where
    s: "for_each tcp_process_packet (take i ps) (new_tcp_detector thr, w) = (Inr (), (d', w'))"
      "tcp_view d' = fold tcp_follow (take i ps) ?v" "emitted (reports_along tcp_follow tcp_gives ?v (take i ps)) w w'"
    by blast
  have "bound l w'" using assms(1) emitted_bound [OF s(3)] by simp
  from tcp_packets.step_bound [OF this, of "ps ! i" d'] obtain d'' w'' where
    p: "tcp_process_packet (ps ! i) (d', w') = (Inr (), (d'', w''))" "emitted (tcp_gives (tcp_view d') (ps ! i)) w' w''"
    by blast
  have "tcp_gives (tcp_view d') (ps ! i) = verdict thr ps i"
    by (simp add: s(2) verdict_def tcp_gives_def connection_fold connection_new thr split: option.splits)
  with s(1) p show ?thesis by auto
qed

text \<open>C33: no false alarm on an in-order connection: if every segment starts where the previous
  one ended (modulo 2^32, so across wrap-around too) and no segment consumes more than half the
  threshold, then processing a packet of the connection, after the packets before it and whatever
  packets of other connections are interleaved, returns and publishes nothing. The comparison of a segment's own length with its distance from
  the baseline lets the baseline lag by one segment, which is why it is half the threshold.\<close>

theorem in_order_connection_silent:
  assumes "bound l w" and "segments key ps = t # ts" "in_order (tcp_seq t) (t # ts)"
    and "\<forall>t' \<in> set (t # ts). 2 * expected_bump t' \<le> thr" and "thr < MAX_SEQ"
    and "i < length ps" and "conn_of (ps ! i) = Some (key, t')"
  shows "\<exists>d' w' d'' w''. for_each tcp_process_packet (take i ps) (new_tcp_detector thr, w) = (Inr (), (d', w'))
    \<and> tcp_process_packet (ps ! i) (d', w') = (Inr (), (d'', w'')) \<and> emitted [] w' w''"
proof -
  define L where "L = thr div 2"
  have L: "\<forall>t' \<in> set (t # ts). expected_bump t' \<le> L" "2 * L \<le> thr" using assms(4) by (auto simp: L_def)
  have "0 \<le> L" using L(1) expected_bump_nonneg [of t] by fastforce
  have seq: "tcp_seq t = tcp_seq t mod MAX_SEQ" using assms(3) by simp
  have b: "0 \<le> expected_bump t" "expected_bump t \<le> 2 * L"
    using expected_bump_nonneg [of t] L(1) \<open>0 \<le> L\<close> by auto
  have "silent thr ts (Some ((tcp_seq t + expected_bump t - expected_bump t) mod MAX_SEQ, 0))"
    using assms(3,5) L b by (intro in_order_silent_from) auto
  then have silent: "silent thr (t # ts) None"
    using seq by (simp add: silent_Cons conn_gives_def conn_step_def)
  have split: "ps = take i ps @ ps ! i # drop (Suc i) ps" using assms(6) by (simp add: id_take_nth_drop [symmetric])
  have "t # ts = segments key (take i ps) @ t' # segments key (drop (Suc i) ps)"
    using assms(2,7) by (subst (asm) split) (simp add: segments_def)
  then have "(t # ts) ! length (segments key (take i ps)) = t'"
    "take (length (segments key (take i ps))) (t # ts) = segments key (take i ps)"
    "length (segments key (take i ps)) < length (t # ts)"
    by simp_all
  then have "verdict thr ps i = []"
    using silent assms(7) unfolding silent_def verdict_def by fastforce
  then show ?thesis using process_at [OF assms(1,6), of thr] by simp
qed

theorem in_order_connection_silent_witness:
  "\<exists>d' w' d'' w''. for_each tcp_process_packet [tcp_packet ''a'' 4294967295 ''S'' [], tcp_packet ''b'' 7 ''A'' []]
      (new_tcp_detector 100000, sample_world (Some 7)) = (Inr (), (d', w'))
    \<and> tcp_process_packet (tcp_packet ''a'' 0 ''PA'' [1, 2, 3]) (d', w') = (Inr (), (d'', w'')) \<and> emitted [] w' w''"
proof -
  let ?ps = "[tcp_packet ''a'' 4294967295 ''S'' [], tcp_packet ''b'' 7 ''A'' [], tcp_packet ''a'' 0 ''PA'' [1, 2, 3]]"
  let ?t = "\<lambda>s flags pl. \<lparr>tcp_sport = 4444, tcp_dport = 80, tcp_seq = s, tcp_flags = lit flags, tcp_payload = pl\<rparr>"
  have segs: "segments (sample_key ''a'') ?ps = ?t 4294967295 ''S'' [] # [?t 0 ''PA'' [1, 2, 3]]"
    by (simp add: segments_def sample_key_def)
  have fits: "in_order (tcp_seq (?t 4294967295 ''S'' [])) (?t 4294967295 ''S'' [] # [?t 0 ''PA'' [1, 2, 3]])"
    "\<forall>t \<in> set (?t 4294967295 ''S'' [] # [?t 0 ''PA'' [1, 2, 3]]). 2 * expected_bump t \<le> 100000"
    by (simp_all add: MAX_SEQ_def expected_bump_def lit_def)
  have small: "(100000::int) < MAX_SEQ" "2 < length ?ps" by (simp_all add: MAX_SEQ_def)
  have conn: "conn_of (?ps ! 2) = Some (sample_key ''a'', ?t 0 ''PA'' [1, 2, 3])" by simp
  have at: "take 2 ?ps = [tcp_packet ''a'' 4294967295 ''S'' [], tcp_packet ''b'' 7 ''A'' []]"
    "?ps ! 2 = tcp_packet ''a'' 0 ''PA'' [1, 2, 3]" by simp_all
  from in_order_connection_silent [OF sample_world_simps(1) segs fits small conn] show ?thesis unfolding at .
qed

lemma step_on_connection:
  assumes "bound l w" "connection key (tcp_view d) = Some (base, n)" "conn_of p = Some (key, t)"
  shows "\<exists>d' w'. tcp_process_packet p (d, w) = (Inr (), (d', w'))
    \<and> connection key (tcp_view d') = conn_step (SEQ_JUMP_THRESHOLD d) t (Some (base, n))
    \<and> SEQ_JUMP_THRESHOLD d' = SEQ_JUMP_THRESHOLD d
    \<and> emitted (conn_gives (SEQ_JUMP_THRESHOLD d) key t (Some (base, n))) w w'"
proof -
  have thr: "fst (tcp_view d) = SEQ_JUMP_THRESHOLD d" for d by (simp add: tcp_view_def)
  from tcp_packets.step_bound [OF assms(1), of p d] obtain d' w' where
    s: "tcp_process_packet p (d, w) = (Inr (), (d', w'))" "tcp_view d' = tcp_follow p (tcp_view d)"
      "emitted (tcp_gives (tcp_view d) p) w w'" by blast
  have "SEQ_JUMP_THRESHOLD d' = SEQ_JUMP_THRESHOLD d"
    using arg_cong [OF s(2), of fst] by (simp add: thr)
  then show ?thesis
    using s assms(2,3) by (intro exI [of _ d'] exI [of _ w']) (simp add: connection_follow tcp_gives_def thr)
qed

text \<open>C34: a reported jump is adopted as the new baseline: whenever the segment consumes no more
  than the threshold, the detector publishes the report and from then on measures from the
  jumped-to number, so further segments of the injected stream, within the threshold of it, are
  not reported. (The comment above the update says that a spoofed jump must not become the
  baseline.)\<close>

theorem flagged_jump_becomes_baseline:
  assumes "bound l w" "connection key (tcp_view d) = Some (base, n)" "conn_of p = Some (key, t)"
    and "SEQ_JUMP_THRESHOLD d < seq_delta base (tcp_seq t)" "expected_bump t \<le> SEQ_JUMP_THRESHOLD d"
  shows "\<exists>d' w'. tcp_process_packet p (d, w) = (Inr (), (d', w'))
    \<and> emitted [hijack_report key base (tcp_seq t) (seq_delta base (tcp_seq t)) (expected_bump t) (n + 1)] w w'
    \<and> connection key (tcp_view d') = Some (tcp_seq t, n + 1)
    \<and> (\<forall>p' t'. conn_of p' = Some (key, t') \<longrightarrow> seq_delta (tcp_seq t) (tcp_seq t') \<le> SEQ_JUMP_THRESHOLD d
          \<longrightarrow> tcp_gives (tcp_view d') p' = [])"
proof -
  obtain d' w' where s: "tcp_process_packet p (d, w) = (Inr (), (d', w'))"
    "connection key (tcp_view d') = conn_step (SEQ_JUMP_THRESHOLD d) t (Some (base, n))"
    "SEQ_JUMP_THRESHOLD d' = SEQ_JUMP_THRESHOLD d"
    "emitted (conn_gives (SEQ_JUMP_THRESHOLD d) key t (Some (base, n))) w w'"
    using step_on_connection [OF assms(1-3)] by blast
  have conn: "connection key (tcp_view d') = Some (tcp_seq t, n + 1)"
    using s(2) assms(4,5) by (simp add: conn_step_def)
  moreover have "tcp_gives (tcp_view d') p' = []"
    if "conn_of p' = Some (key, t')" "seq_delta (tcp_seq t) (tcp_seq t') \<le> SEQ_JUMP_THRESHOLD d" for p' t'
  proof -
    have "fst (tcp_view d') = SEQ_JUMP_THRESHOLD d" using s(3) by (simp add: tcp_view_def)
    with that conn show ?thesis by (simp add: tcp_gives_def conn_gives_def)
  qed
  ultimately show ?thesis
    using s(1,4) assms(4) by (intro exI [of _ d'] exI [of _ w']) (simp add: conn_gives_def)
qed

definition seen_detector :: "int \<Rightarrow> tcp_detector" where
  "seen_detector s = (new_tcp_detector 100000)\<lparr>seq_registry := [(sample_key ''a'', s)],
     anomaly_count := [(sample_key ''a'', 0)]\<rparr>"

lemma seen_connection [simp]:
  "connection (sample_key ''a'') (tcp_view (seen_detector s)) = Some (s, 0)"
  "SEQ_JUMP_THRESHOLD (seen_detector s) = 100000"
  by (simp_all add: seen_detector_def new_tcp_detector_def tcp_view_def connection_def
      anomalies_of_def dict_get_def)

theorem flagged_jump_becomes_baseline_witness:
  "\<exists>d' w'. tcp_process_packet (tcp_packet ''a'' 900000 ''A'' [65]) (seen_detector 1000, sample_world (Some 7)) = (Inr (), (d', w'))
    \<and> emitted [hijack_report (sample_key ''a'') 1000 900000 899000 1 1] (sample_world (Some 7)) w'
    \<and> tcp_gives (tcp_view d') (tcp_packet ''a'' 900001 ''A'' [65]) = []"
proof -
  let ?t = "\<lparr>tcp_sport = 4444, tcp_dport = 80, tcp_seq = 900000, tcp_flags = lit ''A'', tcp_payload = [65]\<rparr>"
  let ?p' = "tcp_packet ''a'' 900001 ''A'' [65]"
  have "SEQ_JUMP_THRESHOLD (seen_detector 1000) < seq_delta 1000 (tcp_seq ?t)"
    "expected_bump ?t \<le> SEQ_JUMP_THRESHOLD (seen_detector 1000)"
    by (simp_all add: seq_delta_def expected_bump_def lit_def)
  from flagged_jump_becomes_baseline [OF _ seen_connection(1) conn_of_sample [of "''a''" 900000 "''A''" "[65]"] this,
    of 7 "sample_world (Some 7)"]
  obtain d' w' where "tcp_process_packet (tcp_packet ''a'' 900000 ''A'' [65]) (seen_detector 1000, sample_world (Some 7)) = (Inr (), (d', w'))"
    "emitted [hijack_report (sample_key ''a'') 1000 900000 899000 1 1] (sample_world (Some 7)) w'"
    "\<And>p' t'. conn_of p' = Some (sample_key ''a'', t') \<Longrightarrow> seq_delta 900000 (tcp_seq t') \<le> 100000
       \<Longrightarrow> tcp_gives (tcp_view d') p' = []"
    by (auto simp: seq_delta_def expected_bump_def lit_def)
  moreover from this(3) [of ?p'] have "tcp_gives (tcp_view d') ?p' = []" by (simp add: seq_delta_def)
  ultimately show ?thesis by blast
qed

text \<open>A segment older than the baseline is not recognised as old: whenever it lies behind the
  baseline by less than 2^32 minus the threshold (a retransmission, or reordering), it is
  reported as a forward jump of nearly 2^32 and the baseline moves back to it.\<close>

theorem old_segment_reported_as_jump:
  assumes "bound l w" "connection key (tcp_view d) = Some (base, n)" "conn_of p = Some (key, t)"
    and "tcp_seq t = base - k" "0 < k" "k < MAX_SEQ - SEQ_JUMP_THRESHOLD d"
    and "expected_bump t \<le> SEQ_JUMP_THRESHOLD d"
  shows "\<exists>d' w'. tcp_process_packet p (d, w) = (Inr (), (d', w'))
    \<and> emitted [hijack_report key base (base - k) (MAX_SEQ - k) (expected_bump t) (n + 1)] w w'
    \<and> connection key (tcp_view d') = Some (base - k, n + 1)"
proof -
  have "seq_delta base (tcp_seq t) = MAX_SEQ - k" using assms(4,5) by (simp add: seq_delta_def)
  then show ?thesis
    using step_on_connection [OF assms(1-3)] assms(4-7) by (force simp: conn_step_def conn_gives_def)
qed

theorem old_segment_reported_as_jump_witness:
  "\<exists>d' w'. tcp_process_packet (tcp_packet ''a'' 999 ''A'' [65]) (seen_detector 1000, sample_world (Some 7)) = (Inr (), (d', w'))
    \<and> connection (sample_key ''a'') (tcp_view d') = Some (999, 1)"
  using old_segment_reported_as_jump [OF _ seen_connection(1) [of 1000] conn_of_sample [of "''a''" 999 "''A''" "[65]"],
      of 7 "sample_world (Some 7)" 1]
  by (auto simp: MAX_SEQ_def expected_bump_def lit_def)

section \<open>Anomaly counts\<close>

fun conn_along :: "int \<Rightarrow> ConnKey \<Rightarrow> tcp_segment list \<Rightarrow> conn_state \<Rightarrow> report list" where
  "conn_along thr key [] st = []"
| "conn_along thr key (t # ts) st = conn_gives thr key t st @ conn_along thr key ts (conn_step thr t st)"

lemma conn_along_append:
  "conn_along thr key (ts @ us) st = conn_along thr key ts st @ conn_along thr key us (fold (conn_step thr) ts st)"
  by (induction ts arbitrary: st) simp_all

definition conn_verdicts :: "ConnKey \<Rightarrow> int \<Rightarrow> packet list \<Rightarrow> report list" where
  "conn_verdicts key thr ps = concat (map (\<lambda>i.
     if map_option fst (conn_of (ps ! i)) = Some key then verdict thr ps i else []) [0..<length ps])"

lemma conn_verdicts_along: "conn_verdicts key thr ps = conn_along thr key (segments key ps) None"
proof (induction ps rule: rev_induct)
  case Nil
  then show ?case by (simp add: conn_verdicts_def)
next
  case (snoc p ps)
  let ?f = "\<lambda>ps i. if map_option fst (conn_of (ps ! i)) = Some key then verdict thr ps i else []"
  have "map (?f (ps @ [p])) [0..<length ps] = map (?f ps) [0..<length ps]"
    by (intro map_cong) (simp_all add: verdict_def nth_append split: option.splits)
  then have "conn_verdicts key thr (ps @ [p]) = conn_verdicts key thr ps @ ?f (ps @ [p]) (length ps)"
    by (simp add: conn_verdicts_def del: map_eq_conv)
  moreover have "?f (ps @ [p]) (length ps) =
      conn_along thr key (segments key [p]) (fold (conn_step thr) (segments key ps) None)"
    by (auto simp: verdict_def split: option.splits)
  ultimately show ?case using snoc by (simp add: conn_along_append)
qed

definition report_count :: "report \<Rightarrow> pyval option" where
  "report_count r = dict_get (rp_metadata r) (lit ''anomaly_count'')"

lemma conn_along_counts:
  "map report_count (conn_along thr key ts (Some (b, n))) =
     map (\<lambda>j. Some (PInt (n + 1 + int j))) [0..<length (conn_along thr key ts (Some (b, n)))]
   \<and> (\<exists>b'. fold (conn_step thr) ts (Some (b, n)) = Some (b', n + int (length (conn_along thr key ts (Some (b, n))))))"
proof (induction ts arbitrary: b n)
  case Nil
  then show ?case by simp
next
  case (Cons t ts)
  let ?delta = "seq_delta b (tcp_seq t)"
  obtain b1 where st: "conn_step thr t (Some (b, n)) = Some (b1, if thr < ?delta then n + 1 else n)"
    by (simp add: conn_step_def Let_def)
  show ?case
  proof (cases "thr < ?delta")
    case True
    have "report_count (hijack_report key b (tcp_seq t) ?delta (expected_bump t) (n + 1)) = Some (PInt (n + 1))"
      by (simp add: report_count_def hijack_report_def dict_get_def)
    with True Cons [of b1 "n + 1"] st show ?thesis
      by (auto simp: conn_gives_def Let_def upt_conv_Cons map_Suc_upt [symmetric] comp_def ac_simps simp del: upt_Suc)
  next
    case False
    with Cons [of b1 n] st show ?thesis by (simp add: conn_gives_def)
  qed
qed

text \<open>The anomaly counter of a connection counts its reports: over any stream, its successive
  reports carry the numbers 1, 2, 3, ... without gap, and the counter stored for it at the end
  is the number of reports published for it.\<close>

theorem anomaly_counts_number_reports:
  "map report_count (conn_verdicts key thr ps) =
     map (\<lambda>j. Some (PInt (1 + int j))) [0..<length (conn_verdicts key thr ps)]
   \<and> (case fold (conn_step thr) (segments key ps) None of
        None \<Rightarrow> conn_verdicts key thr ps = []
      | Some (base, n) \<Rightarrow> n = int (length (conn_verdicts key thr ps)))"
proof (cases "segments key ps")
  case Nil
  then show ?thesis by (simp add: conn_verdicts_along)
next
  case (Cons t ts)
  have "conn_step thr t None = Some (tcp_seq t, 0)" "conn_gives thr key t None = []"
    by (simp_all add: conn_step_def conn_gives_def)
  then show ?thesis
    using conn_along_counts [of thr key ts "tcp_seq t" 0] by (auto simp: conn_verdicts_along Cons)
qed

end
