(* ===== verification/Correlator.thy ===== *)
theory Correlator
  imports Pcap_Investigator Sctp_Detector Tcp_Detector
begin

text \<open>
  \<open>xdr/correlator.py\<close>: \<open>XdrCorrelator\<close>, which runs the investigator and the two detectors
  over one packet stream. \<open>run_on_pcap\<close> takes \<open>rdpcap\<close> as a parameter; \<open>run_live\<close> takes
  the packet lists its successive \<open>sniff\<close> calls return, up to the keyboard interrupt that
  ends the loop; \<open>Live_Capture\<close> has the capture file it writes. The printed lines are not modelled.
\<close>

record correlator =
  verbose_log :: bool
  corr_window_duration :: int
  got_base :: "int option"
  got_size :: "int option"
  the_investigator :: investigator
  the_sctp :: sctp_detector
  the_tcp :: tcp_detector

definition new_correlator ::
  "bool \<Rightarrow> int \<Rightarrow> int \<Rightarrow> int \<Rightarrow> investigator option \<Rightarrow> int option \<Rightarrow> int option \<Rightarrow> correlator" where
  "new_correlator verbose max_init window seq_jump iv gb gs =
     \<lparr>verbose_log = verbose, corr_window_duration = window, got_base = gb, got_size = gs,
      the_investigator = (case iv of Some i \<Rightarrow> i | None \<Rightarrow> \<lparr>pcap_file_dir = None\<rparr>),
      the_sctp = new_sctp_detector max_init window,
      the_tcp = (new_tcp_detector 100000)\<lparr>SEQ_JUMP_THRESHOLD := seq_jump\<rparr>\<rparr>"

definition with_investigator :: "(investigator \<times> 'w, 'a) op \<Rightarrow> (correlator \<times> 'w, 'a) op" where
  "with_investigator = on_part the_investigator (\<lambda>d c. c\<lparr>the_investigator := d\<rparr>)"

definition with_sctp :: "(sctp_detector \<times> 'w, 'a) op \<Rightarrow> (correlator \<times> 'w, 'a) op" where
  "with_sctp = on_part the_sctp (\<lambda>d c. c\<lparr>the_sctp := d\<rparr>)"

definition with_tcp :: "(tcp_detector \<times> 'w, 'a) op \<Rightarrow> (correlator \<times> 'w, 'a) op" where
  "with_tcp = on_part the_tcp (\<lambda>d c. c\<lparr>the_tcp := d\<rparr>)"

definition correlator_process_packet :: "packet \<Rightarrow> (correlator \<times> 'a world_scheme, unit) op" where
  "correlator_process_packet packet =
     and_then (look (\<lambda>c. (verbose_log c, got_base c, got_size c))) (\<lambda>(verbose, gb, gs).
       and_then (if verbose then with_investigator (log_packet gb gs packet) else ret ()) (\<lambda>_.
         and_then (with_sctp (sctp_process_packet packet)) (\<lambda>_.
           with_tcp (tcp_process_packet packet))))"

definition run_on_pcap ::
  "(str \<Rightarrow> py_error + packet list) \<Rightarrow> str \<Rightarrow> (correlator \<times> 'a world_scheme, unit) op" where
  "run_on_pcap rdpcap path = (case rdpcap path of
       Inl e \<Rightarrow> raise_err e
     | Inr packets \<Rightarrow> and_then (for_each correlator_process_packet packets)
         (\<lambda>_. with_sctp check_thresholds))"

definition live_window :: "packet list \<Rightarrow> (correlator \<times> 'a world_scheme, unit) op" where
  "live_window packets =
     and_then (if packets \<noteq> [] then
         and_then (for_each correlator_process_packet packets) (\<lambda>_. with_sctp check_thresholds)
       else ret ())
     (\<lambda>_. with_sctp reset_window)"

definition run_live :: "packet list list \<Rightarrow> (correlator \<times> 'a world_scheme, unit) op" where
  "run_live windows = for_each live_window windows"

section \<open>The detector contract\<close>

type_synonym corr_view = "bool \<times> int option \<times> int option \<times> sctp_detector \<times> tcp_view"

definition corr_view :: "correlator \<Rightarrow> corr_view" where
  "corr_view c = (verbose_log c, got_base c, got_size c, the_sctp c, tcp_view (the_tcp c))"

definition corr_follow :: "packet \<Rightarrow> corr_view \<Rightarrow> corr_view" where
  "corr_follow p v = (case v of (verb, gb, gs, s, t) \<Rightarrow>
     (verb, gb, gs, fold count_init (init_source p) s, tcp_follow p t))"

definition corr_gives :: "corr_view \<Rightarrow> packet \<Rightarrow> report list" where
  "corr_gives v p = (case v of (verb, gb, gs, s, t) \<Rightarrow>
     (if verb then payload_reports gb gs p else []) @ tcp_gives t p)"

lemma log_part:
  assumes "bound l w"
  shows "\<exists>w'. (if verb then with_investigator (log_packet gb gs p) else ret ()) (c, w) = (Inr (), (c, w'))
    \<and> emitted (if verb then payload_reports gb gs p else []) w w'"
  using pcap_log.step_bound [OF assms, of gb gs p "the_investigator c"]
  by (auto simp: with_investigator_def on_part_apply ret_apply)

lemma sctp_part:
  "with_sctp (sctp_process_packet p) (c, w) =
     (Inr (), (c\<lparr>the_sctp := fold count_init (init_source p) (the_sctp c)\<rparr>, w))"
  by (simp add: with_sctp_def on_part_apply process_eq)

lemma process_look:
  "correlator_process_packet p (c, w) =
     and_then (if verbose_log c then with_investigator (log_packet (got_base c) (got_size c) p) else ret ())
       (\<lambda>_. and_then (with_sctp (sctp_process_packet p)) (\<lambda>_. with_tcp (tcp_process_packet p))) (c, w)"
  by (simp add: correlator_process_packet_def and_then_apply look_apply)

interpretation packets: detector correlator_process_packet corr_view corr_follow corr_gives
proof unfold_locales
  fix l p and c :: correlator and w :: "'a world_scheme"
  assume b: "bound l w"
  obtain w1 where w1: "(if verbose_log c then with_investigator (log_packet (got_base c) (got_size c) p)
      else ret ()) (c, w) = (Inr (), (c, w1))"
    "emitted (if verbose_log c then payload_reports (got_base c) (got_size c) p else []) w w1"
    using log_part [OF b] by blast
  have "bound l w1" using b emitted_bound [OF w1(2)] by simp
  from tcp_packets.step_bound [OF this, of p "the_tcp c"] obtain t w2 where
    t: "tcp_process_packet p (the_tcp c, w1) = (Inr (), (t, w2))" "tcp_view t = tcp_follow p (tcp_view (the_tcp c))"
      "emitted (tcp_gives (tcp_view (the_tcp c)) p) w1 w2" by blast
  show "\<exists>c' w'. correlator_process_packet p (c, w) = (Inr (), (c', w'))
      \<and> corr_view c' = corr_follow p (corr_view c) \<and> emitted (corr_gives (corr_view c) p) w w'"
    using w1(1) t emitted_trans [OF w1(2) t(3)]
    by (simp add: process_look sctp_part with_tcp_def on_part_apply corr_view_def corr_follow_def corr_gives_def)
next
  fix p and c :: correlator and w :: "'a world_scheme"
  assume u: "usable_loop (ENGINE w) = None"
  let ?rs = "if verbose_log c then payload_reports (got_base c) (got_size c) p else []"
  have log: "\<exists>c' w'. (if verbose_log c then with_investigator (log_packet (got_base c) (got_size c) p) else ret ()) (c, w)
      = (if ?rs = [] then Inr () else Inl RuntimeError, (c', w')) \<and> ENGINE w' = ENGINE w \<and> (?rs = [] \<longrightarrow> c' = c)"
    using pcap_log.step_unbound [OF u, of "got_base c" "got_size c" p "the_investigator c"]
    by (auto simp: with_investigator_def on_part_apply ret_apply)
  show "\<exists>c' w'. correlator_process_packet p (c, w) =
      (if corr_gives (corr_view c) p = [] then Inr () else Inl RuntimeError, (c', w'))
      \<and> ENGINE w' = ENGINE w \<and> (corr_gives (corr_view c) p = [] \<longrightarrow> corr_view c' = corr_follow p (corr_view c))"
  proof (cases "?rs = []")
    case True
    with log obtain w1 where w1: "(if verbose_log c then with_investigator (log_packet (got_base c) (got_size c) p)
        else ret ()) (c, w) = (Inr (), (c, w1))" "ENGINE w1 = ENGINE w" by auto
    then show ?thesis
      using tcp_packets.step_unbound [of w1 p "the_tcp c"] u True
      by (auto simp: process_look sctp_part with_tcp_def on_part_apply corr_view_def corr_follow_def corr_gives_def)
  next
    case False
    with log show ?thesis
      by (auto simp: process_look corr_gives_def corr_view_def)
  qed
next
  fix r v p
  assume "r \<in> set (corr_gives v p)"
  then show "report_ok r"
    by (auto simp: corr_gives_def dest: payload_reports_ok tcp_packets.gives_ok split: prod.splits if_splits)
qed

section \<open>Whole runs\<close>

definition flood_reports :: "int \<Rightarrow> packet list \<Rightarrow> report list" where
  "flood_reports m ps = map (\<lambda>src. flood_report m src (int (count_list (init_sources ps) src)))
     (filter (\<lambda>src. m < int (count_list (init_sources ps) src)) (first_seen (init_sources ps)))"

lemma flood_reports_tally: "over_threshold (tally (init_sources ps), m) = flood_reports m ps"
  by (simp add: over_threshold_def tally_def flood_reports_def filter_map comp_def)

lemma tally_fold:
  "init_chunk_count d = tally xs \<Longrightarrow>
   init_chunk_count (fold count_init ys d) = tally (xs @ ys) \<and> max_init_chunks (fold count_init ys d) = max_init_chunks d"
  by (induction ys arbitrary: d xs) (auto simp: count_init_tally)

lemma corr_fold:
  "fold corr_follow ps (verb, gb, gs, s, t) =
     (verb, gb, gs, fold count_init (init_sources ps) s, fold tcp_follow ps t)"
  by (induction ps arbitrary: s t) (simp_all add: corr_follow_def init_sources_def)

lemma corr_reports:
  "reports_along corr_follow corr_gives (verb, gb, gs, s, t) ps =
     concat (map (\<lambda>i. (if verb then payload_reports gb gs (ps ! i) else [])
       @ tcp_gives (fold tcp_follow (take i ps) t) (ps ! i)) [0..<length ps])"
proof (induction ps rule: rev_induct)
  case Nil
  then show ?case by simp
next
  case (snoc p ps)
  let ?g = "\<lambda>ps i. (if verb then payload_reports gb gs (ps ! i) else []) @ tcp_gives (fold tcp_follow (take i ps) t) (ps ! i)"
  have "map (?g (ps @ [p])) [0..<length ps] = map (?g ps) [0..<length ps]"
    by (intro map_cong) (simp_all add: nth_append)
  then show ?case
    using snoc by (simp add: reports_along_append corr_fold corr_gives_def del: map_eq_conv)
qed

text \<open>Processing packets and checking the thresholds, from an empty tally.\<close>

definition scan_window :: "packet list \<Rightarrow> (correlator \<times> 'a world_scheme, unit) op" where
  "scan_window ps = and_then (for_each correlator_process_packet ps) (\<lambda>_. with_sctp check_thresholds)"

definition window_reports :: "correlator \<Rightarrow> packet list \<Rightarrow> report list" where
  "window_reports c ps = reports_along corr_follow corr_gives (corr_view c) ps
     @ flood_reports (max_init_chunks (the_sctp c)) ps"

lemma scan_window_runs:
  assumes "bound l w" "init_chunk_count (the_sctp c) = []"
  shows "\<exists>c' w'. scan_window ps (c, w) = (Inr (), (c', w'))
    \<and> (verbose_log c', got_base c', got_size c') = (verbose_log c, got_base c, got_size c)
    \<and> max_init_chunks (the_sctp c') = max_init_chunks (the_sctp c)
    \<and> tcp_view (the_tcp c') = fold tcp_follow ps (tcp_view (the_tcp c))
    \<and> emitted (window_reports c ps) w w'"
proof -
  from packets.stream_bound [OF assms(1), of ps c] obtain c1 w1 where
    s: "for_each correlator_process_packet ps (c, w) = (Inr (), (c1, w1))"
      "corr_view c1 = fold corr_follow ps (corr_view c)"
      "emitted (reports_along corr_follow corr_gives (corr_view c) ps) w w1" by blast
  have v: "corr_view c1 = (verbose_log c, got_base c, got_size c,
      fold count_init (init_sources ps) (the_sctp c), fold tcp_follow ps (tcp_view (the_tcp c)))"
    using s(2) by (simp add: corr_view_def corr_fold)
  then have sel: "verbose_log c1 = verbose_log c" "got_base c1 = got_base c" "got_size c1 = got_size c"
    "the_sctp c1 = fold count_init (init_sources ps) (the_sctp c)"
    "tcp_view (the_tcp c1) = fold tcp_follow ps (tcp_view (the_tcp c))"
    by (simp_all add: corr_view_def)
  have count: "init_chunk_count (the_sctp c1) = tally (init_sources ps)"
    "max_init_chunks (the_sctp c1) = max_init_chunks (the_sctp c)"
    using tally_fold [of "the_sctp c" "[]" "init_sources ps"] assms(2) by (simp_all add: sel tally_def)
  have "bound l w1" using assms(1) emitted_bound [OF s(3)] by simp
  from sctp_check.step_bound [OF this, of "the_sctp c1"] obtain d' w' where
    chk: "check_thresholds (the_sctp c1, w1) = (Inr (), (d', w'))"
      "max_init_chunks d' = max_init_chunks (the_sctp c1)"
      "emitted (flood_reports (max_init_chunks (the_sctp c)) ps) w1 w'"
    by (auto simp: count flood_reports_tally)
  then show ?thesis
    using s(1) sel count emitted_trans [OF s(3) chk(3)]
    by (simp add: scan_window_def with_sctp_def on_part_apply window_reports_def)
qed

lemma new_correlator_view:
  "corr_view (new_correlator verb m d thr iv gb gs) =
     (verb, gb, gs, new_sctp_detector m d, tcp_view (new_tcp_detector thr))"
  by (simp add: corr_view_def new_correlator_def tcp_view_def new_tcp_detector_def)

lemma new_correlator_sel [simp]:
  "init_chunk_count (the_sctp (new_correlator verb m d thr iv gb gs)) = []"
  "max_init_chunks (the_sctp (new_correlator verb m d thr iv gb gs)) = m"
  by (simp_all add: new_correlator_def new_sctp_detector_def)

lemma new_window_reports:
  "window_reports (new_correlator verb m d thr iv gb gs) ps =
     concat (map (\<lambda>i. (if verb then payload_reports gb gs (ps ! i) else []) @ verdict thr ps i) [0..<length ps])
     @ flood_reports m ps"
proof -
  have "tcp_gives (fold tcp_follow (take i ps) (tcp_view (new_tcp_detector thr))) (ps ! i) = verdict thr ps i" for i
    by (simp add: tcp_gives_def verdict_def connection_fold connection_new split: option.splits)
      (simp add: tcp_view_def new_tcp_detector_def)
  then show ?thesis by (simp add: window_reports_def new_correlator_view corr_reports)
qed

text \<open>C4: analysing a capture file on a bound engine never fails once the file is read, and publishes
  exactly: for each packet in order its payload findings (when per-packet logging is on)
  followed by the hijack verdict on the earlier packets of its connection, and after the last
  packet one flood event per source over the INIT threshold. A file that cannot be read raises
  the reader's error with nothing published.\<close>

theorem run_on_pcap_publishes:
  assumes "bound l w"
  shows "case rdpcap path of
      Inl e \<Rightarrow> run_on_pcap rdpcap path (c, w) = (Inl e, (c, w))
    | Inr ps \<Rightarrow> \<exists>c' w'. run_on_pcap rdpcap path (new_correlator verb m d thr iv gb gs, w) = (Inr (), (c', w'))
        \<and> emitted (concat (map (\<lambda>i. (if verb then payload_reports gb gs (ps ! i) else []) @ verdict thr ps i)
              [0..<length ps]) @ flood_reports m ps) w w'"
proof (cases "rdpcap path")
  case (Inl e)
  then show ?thesis by (simp add: run_on_pcap_def raise_err_apply)
next
  case (Inr ps)
  have run: "run_on_pcap rdpcap path s = scan_window ps s" for s :: "correlator \<times> 'a world_scheme"
    by (simp add: run_on_pcap_def Inr scan_window_def)
  have "init_chunk_count (the_sctp (new_correlator verb m d thr iv gb gs)) = []" by simp
  from scan_window_runs [OF assms this, of ps] show ?thesis
    unfolding Inr run new_window_reports sum.case by blast
qed

definition attack_packets :: "packet list" where
  "attack_packets = [sctp_packet ''a'', sctp_packet ''a'', tcp_packet ''a'' 1000 ''S'' [],
     tcp_packet ''a'' 900000 ''A'' (replicate 12 0x41)]"

lemma attack_reports:
  "concat (map (\<lambda>i. (if verb then payload_reports None None (attack_packets ! i) else [])
       @ verdict 100000 attack_packets i) [0..<length attack_packets]) @ flood_reports 1 attack_packets
   = (if verb then [finding_report (lit ''a'') (finding_text (RepeatedRun 0x41 12 0))] else [])
     @ [hijack_report (sample_key ''a'') 1000 900000 899000 12 1, flood_report 1 (lit ''a'') 2]"
proof -
  have sctp: "conn_of (sctp_packet src) = None" "extract_tcp_payload (sctp_packet src) = []"
    "init_source (sctp_packet src) = [lit src]" for src
    by (simp_all add: conn_of_def sctp_packet_def extract_tcp_payload_def init_source_def)
  have tcp: "extract_tcp_payload (tcp_packet src s flags pl) = pl" "packet_source (tcp_packet src s flags pl) = lit src"
    "init_source (tcp_packet src s flags pl) = []" for src s flags pl
    by (simp_all add: tcp_packet_def extract_tcp_payload_def packet_source_def init_source_def)
  note [simp del] = replicate_Suc
  show ?thesis
    by (simp add: attack_packets_def upt_conv_Cons payload_reports_def sctp tcp scan_a_run verdict_def
        conn_gives_def conn_step_def seq_delta_def expected_bump_def segments_def sample_key_def lit_def
        flood_reports_def init_sources_def first_seen_def)
qed

theorem run_on_pcap_publishes_witness:
  "\<exists>c' w'. run_on_pcap (\<lambda>_. Inr attack_packets) (lit ''x.pcap'')
        (new_correlator True 1 15 100000 None None None, sample_world (Some 7)) = (Inr (), (c', w'))
    \<and> emitted [finding_report (lit ''a'') (finding_text (RepeatedRun 0x41 12 0)),
        hijack_report (sample_key ''a'') 1000 900000 899000 12 1, flood_report 1 (lit ''a'') 2] (sample_world (Some 7)) w'"
  using run_on_pcap_publishes [OF sample_world_simps(1), of "\<lambda>_. Inr attack_packets" "lit ''x.pcap''" _ True 1 15
      100000 None None None] attack_reports [of True]
  by simp

text \<open>\<open>--quiet\<close> does more than suppress log lines: payload scanning happens inside the
  logging call, so a quiet run publishes the events of a verbose run without the payload
  findings, whatever the traffic contains.\<close>

theorem quiet_run_scans_no_payload:
  assumes "bound l w"
  shows "\<exists>c' w' rs. run_on_pcap (\<lambda>_. Inr ps) path (new_correlator False m d thr iv gb gs, w) = (Inr (), (c', w'))
    \<and> emitted rs w w' \<and> (\<forall>r \<in> set rs. rp_type r \<noteq> lit ''payload_scan_finding'')
    \<and> (\<exists>c'' w'' rs'. run_on_pcap (\<lambda>_. Inr ps) path (new_correlator True m d thr iv gb gs, w) = (Inr (), (c'', w''))
        \<and> emitted rs' w w'' \<and> rs = filter (\<lambda>r. rp_type r \<noteq> lit ''payload_scan_finding'') rs')"
proof -
  let ?keep = "\<lambda>r. rp_type r \<noteq> lit ''payload_scan_finding''"
  let ?run = "\<lambda>verb. concat (map (\<lambda>i. (if verb then payload_reports gb gs (ps ! i) else []) @ verdict thr ps i) [0..<length ps])
    @ flood_reports m ps"
  have empty: "init_chunk_count (the_sctp (new_correlator verb m d thr iv gb gs)) = []" for verb by simp
  have run: "run_on_pcap (\<lambda>_. Inr ps) path s = scan_window ps s" for s :: "correlator \<times> 'a world_scheme"
    by (simp add: run_on_pcap_def scan_window_def)
  have both: "\<exists>c' w'. run_on_pcap (\<lambda>_. Inr ps) path (new_correlator verb m d thr iv gb gs, w) = (Inr (), (c', w'))
      \<and> emitted (?run verb) w w'" for verb
    using scan_window_runs [OF assms empty, of ps] unfolding run new_window_reports by blast
  have none: "filter ?keep (payload_reports gb gs p) = []" for p
    by (auto simp: filter_empty_conv payload_reports_def finding_report_def)
  have tcp: "r \<in> set (verdict thr ps i) \<Longrightarrow> ?keep r" for r i
    by (auto simp: verdict_def conn_gives_def hijack_report_def Let_def split: option.splits if_splits)
  then have verdicts: "filter ?keep (verdict thr ps i) = verdict thr ps i" for i
    by (simp add: filter_id_conv)
  have floods: "r \<in> set (flood_reports m ps) \<Longrightarrow> ?keep r" for r
    by (auto simp: flood_reports_def flood_report_def)
  then have "filter ?keep (flood_reports m ps) = flood_reports m ps"
    by (simp add: filter_id_conv)
  then have "?run False = filter ?keep (?run True)"
    by (simp add: filter_concat comp_def none verdicts)
  moreover have "\<forall>r \<in> set (?run False). ?keep r" using tcp floods by auto
  ultimately show ?thesis using both [of False] both [of True] by blast
qed

theorem quiet_run_scans_no_payload_witness:
  "\<exists>c' w' rs. run_on_pcap (\<lambda>_. Inr attack_packets) (lit ''x.pcap'')
      (new_correlator False 1 15 100000 None None None, sample_world (Some 7)) = (Inr (), (c', w'))
    \<and> emitted rs (sample_world (Some 7)) w' \<and> (\<forall>r \<in> set rs. rp_type r \<noteq> lit ''payload_scan_finding'')"
  using quiet_run_scans_no_payload [OF sample_world_simps(1), of attack_packets "lit ''x.pcap''" 1 15 100000 None None None]
  by blast

section \<open>Live windows\<close>

fun live_reports :: "bool \<Rightarrow> int option \<Rightarrow> int option \<Rightarrow> int \<Rightarrow> tcp_view \<Rightarrow> packet list list \<Rightarrow> report list" where
  "live_reports verb gb gs m t [] = []"
| "live_reports verb gb gs m t (ps # pss) =
     concat (map (\<lambda>i. (if verb then payload_reports gb gs (ps ! i) else [])
       @ tcp_gives (fold tcp_follow (take i ps) t) (ps ! i)) [0..<length ps])
     @ flood_reports m ps @ live_reports verb gb gs m (fold tcp_follow ps t) pss"

lemma reset_part: "with_sctp reset_window (c, w) = (Inr (), (c\<lparr>the_sctp := (the_sctp c)\<lparr>init_chunk_count := []\<rparr>\<rparr>, w))"
  by (simp add: with_sctp_def on_part_apply reset_window_def own_apply)

lemma live_window_runs:
  assumes "bound l w" "init_chunk_count (the_sctp c) = []"
  shows "\<exists>c' w'. live_window ps (c, w) = (Inr (), (c', w'))
    \<and> (verbose_log c', got_base c', got_size c') = (verbose_log c, got_base c, got_size c)
    \<and> max_init_chunks (the_sctp c') = max_init_chunks (the_sctp c) \<and> init_chunk_count (the_sctp c') = []
    \<and> tcp_view (the_tcp c') = fold tcp_follow ps (tcp_view (the_tcp c))
    \<and> emitted (window_reports c ps) w w'"
proof (cases "ps = []")
  case True
  then show ?thesis
    by (simp add: live_window_def reset_part ret_apply window_reports_def flood_reports_def init_sources_def)
next
  case False
  then have "live_window ps (c, w) = and_then (scan_window ps) (\<lambda>_. with_sctp reset_window) (c, w)"
    by (simp add: live_window_def scan_window_def)
  then show ?thesis
    using scan_window_runs [OF assms, of ps] by (auto simp: reset_part and_then_apply)
qed

lemma live_reports_no_flood:
  assumes "\<forall>ps \<in> set pss. \<forall>src. int (count_list (init_sources ps) src) \<le> m"
  shows "\<forall>r \<in> set (live_reports verb gb gs m t pss). rp_type r \<noteq> lit ''sctp_init_flood''"
  using assms
proof (induction pss arbitrary: t)
  case Nil
  then show ?case by simp
next
  case (Cons ps pss)
  have "flood_reports m ps = []"
    using Cons.prems by (auto simp: flood_reports_def filter_empty_conv not_less)
  moreover have "r \<in> set (payload_reports gb gs p) \<Longrightarrow> rp_type r \<noteq> lit ''sctp_init_flood''" for r p
    by (auto simp: payload_reports_def finding_report_def)
  moreover have "r \<in> set (tcp_gives v p) \<Longrightarrow> rp_type r \<noteq> lit ''sctp_init_flood''" for r v p
    by (auto simp: tcp_gives_def conn_gives_def hijack_report_def Let_def split: option.splits if_splits)
  ultimately show ?case
    using Cons.IH [of "fold tcp_follow ps t"] Cons.prems
    by (simp add: ball_Un) (metis (no_types, lifting))
qed

lemma run_live_runs:
  assumes "bound l w" "init_chunk_count (the_sctp c) = []"
  shows "\<exists>c' w'. run_live pss (c, w) = (Inr (), (c', w'))
    \<and> (verbose_log c', got_base c', got_size c') = (verbose_log c, got_base c, got_size c)
    \<and> emitted (live_reports (verbose_log c) (got_base c) (got_size c) (max_init_chunks (the_sctp c))
        (tcp_view (the_tcp c)) pss) w w'
    \<and> init_chunk_count (the_sctp c') = [] \<and> tcp_view (the_tcp c') = fold tcp_follow (concat pss) (tcp_view (the_tcp c))"
  using assms
proof (induction pss arbitrary: c w)
  case Nil
  then show ?case by (simp add: run_live_def ret_apply)
next
  case (Cons ps pss)
  from live_window_runs [OF Cons.prems, of ps] obtain c1 w1 where
    s: "live_window ps (c, w) = (Inr (), (c1, w1))"
      "verbose_log c1 = verbose_log c" "got_base c1 = got_base c" "got_size c1 = got_size c"
      "max_init_chunks (the_sctp c1) = max_init_chunks (the_sctp c)" "init_chunk_count (the_sctp c1) = []"
      "tcp_view (the_tcp c1) = fold tcp_follow ps (tcp_view (the_tcp c))"
    and e: "emitted (window_reports c ps) w w1" by auto
  have "bound l w1" using Cons.prems(1) emitted_bound [OF e] by simp
  from Cons.IH [OF this s(6)] obtain c' w' where
    i: "run_live pss (c1, w1) = (Inr (), (c', w'))"
      "(verbose_log c', got_base c', got_size c') = (verbose_log c, got_base c, got_size c)"
      "emitted (live_reports (verbose_log c) (got_base c) (got_size c) (max_init_chunks (the_sctp c))
        (fold tcp_follow ps (tcp_view (the_tcp c))) pss) w1 w'"
      "init_chunk_count (the_sctp c') = []"
      "tcp_view (the_tcp c') = fold tcp_follow (concat pss) (fold tcp_follow ps (tcp_view (the_tcp c)))"
    by (auto simp: s)
  have run: "run_live (ps # pss) (c, w) = (Inr (), (c', w'))"
    using s(1) i(1) by (simp add: run_live_def)
  have "live_reports (verbose_log c) (got_base c) (got_size c) (max_init_chunks (the_sctp c))
      (tcp_view (the_tcp c)) (ps # pss) = window_reports c ps
    @ live_reports (verbose_log c) (got_base c) (got_size c) (max_init_chunks (the_sctp c))
        (fold tcp_follow ps (tcp_view (the_tcp c))) pss"
    by (simp add: window_reports_def corr_view_def corr_reports)
  with run i emitted_trans [OF e i(3)] show ?case by (auto simp del: live_reports.simps)
qed

text \<open>C30: in a live capture INIT chunks are counted per window and sequence numbers across
  windows: each window publishes its packets' findings and verdicts, then the floods of that
  window alone, so a source that spreads its INIT chunks over windows without exceeding the
  threshold in any of them is never reported; TCP baselines carry over from window to window.\<close>

theorem run_live_windows:
  assumes "bound l w" "init_chunk_count (the_sctp c) = []"
  shows "\<exists>c' w'. run_live pss (c, w) = (Inr (), (c', w'))
    \<and> emitted (live_reports (verbose_log c) (got_base c) (got_size c) (max_init_chunks (the_sctp c))
        (tcp_view (the_tcp c)) pss) w w'
    \<and> init_chunk_count (the_sctp c') = [] \<and> tcp_view (the_tcp c') = fold tcp_follow (concat pss) (tcp_view (the_tcp c))
    \<and> ((\<forall>ps \<in> set pss. \<forall>src. int (count_list (init_sources ps) src) \<le> max_init_chunks (the_sctp c)) \<longrightarrow>
         (\<forall>r \<in> set (live_reports (verbose_log c) (got_base c) (got_size c) (max_init_chunks (the_sctp c))
            (tcp_view (the_tcp c)) pss). rp_type r \<noteq> lit ''sctp_init_flood''))"
  using run_live_runs [OF assms, of pss] by (auto simp: live_reports_no_flood)

theorem run_live_windows_witness:
  "\<exists>c' w'. run_live [[sctp_packet ''a''], [sctp_packet ''a'']]
        (new_correlator True 1 15 100000 None None None, sample_world (Some 7)) = (Inr (), (c', w'))
    \<and> emitted [] (sample_world (Some 7)) w'"
proof -
  let ?c = "new_correlator True 1 15 100000 None None None"
  have "conn_of (sctp_packet ''a'') = None" "extract_tcp_payload (sctp_packet ''a'') = []"
    "init_source (sctp_packet ''a'') = [lit ''a'']"
    by (simp_all add: conn_of_def sctp_packet_def extract_tcp_payload_def init_source_def)
  then have "live_reports True None None 1 v [[sctp_packet ''a''], [sctp_packet ''a'']] = []" for v
    by (simp add: payload_reports_def tcp_gives_def flood_reports_def init_sources_def first_seen_def)
  moreover have "init_chunk_count (the_sctp ?c) = []" by simp
  ultimately show ?thesis
    using run_live_windows [OF sample_world_simps(1), of ?c "[[sctp_packet ''a''], [sctp_packet ''a'']]"]
    by (auto simp: new_correlator_def new_sctp_detector_def)
qed

section \<open>Without a bound engine\<close>

lemma packets_quiet:
  assumes "usable_loop (ENGINE w) = None" "for_each correlator_process_packet ps (c, w) = (r, (c', w'))"
    "reports_along corr_follow corr_gives (corr_view c) ps = []"
  shows "corr_view c' = fold corr_follow ps (corr_view c)"
  using packets.stream_unbound_view [OF assms(1,3)] assms(2) by simp

text \<open>C37: started on its own (nothing binds the engine to an event loop, or the loop is closed) the correlator works on
  clean captures only: the run raises RuntimeError exactly when there is something to report,
  and no event reaches the bus.\<close>

theorem unbound_run_fails_on_detection:
  assumes "usable_loop (ENGINE w) = None"
  shows "fst (run_on_pcap (\<lambda>_. Inr ps) path (new_correlator verb m d thr iv gb gs, w)) =
      (if concat (map (\<lambda>i. (if verb then payload_reports gb gs (ps ! i) else []) @ verdict thr ps i) [0..<length ps])
          @ flood_reports m ps = [] then Inr () else Inl RuntimeError)
    \<and> ENGINE (snd (snd (run_on_pcap (\<lambda>_. Inr ps) path (new_correlator verb m d thr iv gb gs, w)))) = ENGINE w"
proof -
  let ?c = "new_correlator verb m d thr iv gb gs"
  let ?rs = "reports_along corr_follow corr_gives (corr_view ?c) ps"
  obtain r c1 w1 where run: "for_each correlator_process_packet ps (?c, w) = (r, (c1, w1))" by (metis surj_pair)
  have r: "r = (if ?rs = [] then Inr () else Inl RuntimeError)" "ENGINE w1 = ENGINE w"
    using packets.stream_unbound [OF assms, of ps ?c] by (simp_all add: run)
  have rs: "?rs = concat (map (\<lambda>i. (if verb then payload_reports gb gs (ps ! i) else []) @ verdict thr ps i) [0..<length ps])"
    using new_window_reports [of verb m d thr iv gb gs ps] by (simp add: window_reports_def)
  show ?thesis
  proof (cases "?rs = []")
    case False
    with run r rs show ?thesis by (simp add: run_on_pcap_def)
  next
    case True
    have view: "the_sctp c1 = fold count_init (init_sources ps) (new_sctp_detector m d)"
      using packets_quiet [OF assms run] True
      unfolding new_correlator_view corr_fold by (simp add: corr_view_def)
    have "init_chunk_count (the_sctp c1) = tally (init_sources ps)" "max_init_chunks (the_sctp c1) = m"
      using tally_fold [of "new_sctp_detector m d" "[]" "init_sources ps"]
      by (simp_all add: view new_sctp_detector_def tally_def)
    then show ?thesis
      using sctp_check.step_unbound [of w1 "the_sctp c1"] assms r run True
      by (auto simp: run_on_pcap_def rs [symmetric] flood_reports_tally with_sctp_def on_part_apply)
  qed
qed

theorem unbound_run_fails_on_detection_witness:
  "fst (run_on_pcap (\<lambda>_. Inr attack_packets) (lit ''x.pcap'')
      (new_correlator True 1 15 100000 None None None, sample_world None)) = Inl RuntimeError
   \<and> fst (run_on_pcap (\<lambda>_. Inr []) (lit ''x.pcap'')
      (new_correlator True 1 15 100000 None None None, sample_world None)) = Inr ()"
proof
  show "fst (run_on_pcap (\<lambda>_. Inr attack_packets) (lit ''x.pcap'')
      (new_correlator True 1 15 100000 None None None, sample_world None)) = Inl RuntimeError"
    using unbound_run_fails_on_detection [OF sample_world_simps(2), of attack_packets "lit ''x.pcap''" True 1 15 100000 None None None]
    unfolding attack_reports by simp
  show "fst (run_on_pcap (\<lambda>_. Inr []) (lit ''x.pcap'')
      (new_correlator True 1 15 100000 None None None, sample_world None)) = Inr ()"
    using unbound_run_fails_on_detection [OF sample_world_simps(2), of "[]" "lit ''x.pcap''" True 1 15 100000 None None None]
    by (simp add: flood_reports_def init_sources_def)
qed

end
