(* ===== verification/Got_Verify.thy ===== *)
theory Got_Verify
  imports Py_Text
begin

text \<open>
  \<open>parse_gotverify\<close> of \<open>xdr/binary/elf_analyzer.py\<close>: the comparison of the addresses found
  with the section table \<open>readelf -SW\<close> prints. \<open>readelf\<close> is a parameter: for an option and
  a path, what the tool writes or the error of running it. The regular expression is matched
  by \<open>match_row\<close> at every position; its parts exclude one another's characters, so the
  greedy match is the only one. \<open>alnum\<close> is the Unicode database's predicate beyond ASCII.
\<close>

type_synonym readelf = "string \<Rightarrow> str \<Rightarrow> py_error + str"

definition is_hex :: "int \<Rightarrow> bool" where
  "is_hex c \<longleftrightarrow> (48 \<le> c \<and> c \<le> 57) \<or> (97 \<le> c \<and> c \<le> 102) \<or> (65 \<le> c \<and> c \<le> 70)"

definition is_word :: "(int \<Rightarrow> bool) \<Rightarrow> int \<Rightarrow> bool" where
  "is_word alnum c \<longleftrightarrow> (48 \<le> c \<and> c \<le> 57) \<or> (97 \<le> c \<and> c \<le> 122) \<or> (65 \<le> c \<and> c \<le> 90) \<or> c = 95
     \<or> (128 \<le> c \<and> \<not> is_space c \<and> alnum c)"

text \<open>One or more characters of a class; a literal.\<close>

definition eat_some :: "(int \<Rightarrow> bool) \<Rightarrow> str \<Rightarrow> str option" where
  "eat_some P s = (case s of [] \<Rightarrow> None | c # r \<Rightarrow> if P c then Some (dropWhile P r) else None)"

definition eat_text :: "str \<Rightarrow> str \<Rightarrow> str option" where
  "eat_text t s = (if take (length t) s = t then Some (drop (length t) s) else None)"

definition match_row :: "(int \<Rightarrow> bool) \<Rightarrow> str \<Rightarrow> str \<Rightarrow> str option" where
  "match_row alnum name s =
     Option.bind (eat_text [93] s) (\<lambda>s.
     Option.bind (eat_some is_space s) (\<lambda>s.
     Option.bind (eat_text name s) (\<lambda>s.
     Option.bind (eat_some is_space s) (\<lambda>s.
     Option.bind (eat_some (is_word alnum) s) (\<lambda>s.
     Option.bind (eat_some is_space s) (\<lambda>s.
       let h = takeWhile is_hex s in if h = [] then None else Some h))))))"

fun search_row :: "(int \<Rightarrow> bool) \<Rightarrow> str \<Rightarrow> str \<Rightarrow> str option" where
  "search_row alnum name [] = None"
| "search_row alnum name (c # s) =
     (case match_row alnum name (c # s) of Some h \<Rightarrow> Some h | None \<Rightarrow> search_row alnum name s)"

text \<open>\<open>f"{n:x}"\<close> and the group without its leading zeros.\<close>

definition hex_text :: "int \<Rightarrow> str" where
  "hex_text n = map digit_char (digits_in 16 n)"

definition unpadded :: "str \<Rightarrow> str" where
  "unpadded h = (let r = dropWhile (\<lambda>c. c = 48) h in if r = [] then [48] else r)"

datatype got_answer = NotParsed | NotListed | Compared str str bool

fun got_verdict :: "(int \<Rightarrow> bool) \<Rightarrow> str \<Rightarrow> str \<times> int option \<Rightarrow> got_answer" where
  "got_verdict alnum out (name, None) = NotParsed"
| "got_verdict alnum out (name, Some py_addr) =
     (case search_row alnum name out of
        None \<Rightarrow> NotListed
      | Some h \<Rightarrow> Compared (hex_text py_addr) (unpadded h) (unpadded h = hex_text py_addr))"

text \<open>What is printed per section, and the call's own effect: a tool that is missing or fails
  is reported and ignored.\<close>

definition gotverify_report ::
  "(int \<Rightarrow> bool) \<Rightarrow> readelf \<Rightarrow> str \<Rightarrow> (str, int option) dict \<Rightarrow> py_error + (str \<times> got_answer) list" where
  "gotverify_report alnum readelf path results =
     (case readelf ''-SW'' path of
        Inl e \<Rightarrow> if e = FileNotFoundError \<or> e = CalledProcessError then Inr [] else Inl e
      | Inr out \<Rightarrow> Inr (map (\<lambda>(name, a). (name, got_verdict alnum out (name, a))) results))"

definition parse_gotverify :: "readelf \<Rightarrow> str \<Rightarrow> ('s, unit) op" where
  "parse_gotverify readelf path =
     (case readelf ''-SW'' path of
        Inl e \<Rightarrow> if e = FileNotFoundError \<or> e = CalledProcessError then ret () else raise_err e
      | Inr out \<Rightarrow> ret ())"

lemma gotverify_effect:
  "parse_gotverify readelf path s =
     (case gotverify_report alnum readelf path results of Inl e \<Rightarrow> (Inl e, s) | Inr lines \<Rightarrow> (Inr (), s))"
  by (simp add: parse_gotverify_def gotverify_report_def op_simps split: sum.split)

section \<open>A section table\<close>

text \<open>A row of the table, with the text around its columns.\<close>

record section_row =
  rw_lead :: str
  rw_gap :: str
  rw_name :: str
  rw_gap2 :: str
  rw_type :: str
  rw_gap3 :: str
  rw_addr :: str
  rw_tail :: str

definition row_text :: "section_row \<Rightarrow> str" where
  "row_text r = rw_lead r @ 93 # rw_gap r @ rw_name r @ rw_gap2 r @ rw_type r @ rw_gap3 r @ rw_addr r @ rw_tail r"

definition spaces :: "str \<Rightarrow> bool" where
  "spaces s \<longleftrightarrow> s \<noteq> [] \<and> (\<forall>c \<in> set s. is_space c)"

definition name_ok :: "str \<Rightarrow> bool" where
  "name_ok s \<longleftrightarrow> s \<noteq> [] \<and> (\<forall>c \<in> set s. \<not> is_space c) \<and> 93 \<notin> set s"

definition row_ok :: "(int \<Rightarrow> bool) \<Rightarrow> section_row \<Rightarrow> bool" where
  "row_ok alnum r \<longleftrightarrow> 93 \<notin> set (rw_lead r) \<and> 93 \<notin> set (rw_tail r)
     \<and> spaces (rw_gap r) \<and> spaces (rw_gap2 r) \<and> spaces (rw_gap3 r) \<and> name_ok (rw_name r)
     \<and> rw_type r \<noteq> [] \<and> (\<forall>c \<in> set (rw_type r). is_word alnum c)
     \<and> rw_addr r \<noteq> [] \<and> (\<forall>c \<in> set (rw_addr r). is_hex c) \<and> rw_tail r \<noteq> [] \<and> \<not> is_hex (hd (rw_tail r))"

lemma word_not_space: "is_word alnum c \<Longrightarrow> \<not> is_space c"
  by (auto simp: is_word_def is_space_def)

lemma hex_word: "is_hex c \<Longrightarrow> is_word alnum c"
  by (auto simp: is_word_def is_hex_def)

lemma not_bracket: "\<not> is_word alnum 93" "\<not> is_hex 93" "\<not> is_space 93"
  by (simp_all add: is_word_def is_hex_def is_space_def)

lemma eat_text_append [simp]: "eat_text t (t @ s) = Some s"
  by (simp add: eat_text_def)

lemma eat_some_run:
  "u \<noteq> [] \<Longrightarrow> \<forall>c \<in> set u. P c \<Longrightarrow> s = [] \<or> \<not> P (hd s) \<Longrightarrow> eat_some P (u @ s) = Some s"
  by (cases u; cases s) (simp_all add: eat_some_def dropWhile_append)

text \<open>Two names without spaces, each followed by a space, agree when one is a prefix of the other.\<close>

lemma name_prefix:
  assumes "name_ok a" "name_ok b" "spaces g"
  shows "(Option.bind (eat_text a (b @ g @ s)) (eat_some is_space) \<noteq> None) = (a = b)"
proof
  assume "Option.bind (eat_text a (b @ g @ s)) (eat_some is_space) \<noteq> None"
  then have e: "take (length a) (b @ g @ s) = a" "eat_some is_space (drop (length a) (b @ g @ s)) \<noteq> None"
    by (auto simp: eat_text_def split: if_splits)
  obtain c g' where g: "g = c # g'" "is_space c" using assms(3) by (cases g) (auto simp: spaces_def)
  consider "length a < length b" | "length a = length b" | "length b < length a" by linarith
  then show "a = b"
  proof cases
    case 1
    then have "drop (length a) (b @ g @ s) = b ! length a # drop (Suc (length a)) b @ g @ s"
      by (simp add: Cons_nth_drop_Suc)
    moreover have "\<not> is_space (b ! length a)" using assms(2) 1 by (simp add: name_ok_def)
    ultimately show ?thesis using e(2) by (simp add: eat_some_def)
  next
    case 2
    then show ?thesis using e(1) by simp
  next
    case 3
    then have "a ! length b = c" using e(1) g by (metis append_Cons nth_append_length nth_take)
    then show ?thesis using assms(1) g(2) 3 by (metis name_ok_def nth_mem)
  qed
next
  assume "a = b"
  moreover obtain c g' where "g = c # g'" "is_space c" using assms(3) by (cases g) (auto simp: spaces_def)
  ultimately show "Option.bind (eat_text a (b @ g @ s)) (eat_some is_space) \<noteq> None" by (simp add: eat_some_def)
qed


lemma eat_bracket: "eat_text [93] (93 # s) = Some s" "c \<noteq> 93 \<Longrightarrow> eat_text [93] (c # s) = None"
  by (simp_all add: eat_text_def)

lemma match_row_other: "c \<noteq> 93 \<Longrightarrow> match_row alnum name (c # s) = None"
  by (simp add: match_row_def eat_bracket)

lemma search_skip: "93 \<notin> set pre \<Longrightarrow> search_row alnum name (pre @ s) = search_row alnum name s"
  by (induction pre) (simp_all add: match_row_other)

lemma search_none: "93 \<notin> set s \<Longrightarrow> search_row alnum name s = None"
  using search_skip [of s alnum name "[]"] by simp

text \<open>The match at a row's bracket: the row is the section's, and the address column is taken.\<close>

lemma match_at_row:
  assumes "row_ok alnum r" "name_ok name"
  shows "match_row alnum name (93 # rw_gap r @ rw_name r @ rw_gap2 r @ rw_type r @ rw_gap3 r @ rw_addr r @ rw_tail r @ s)
    = (if rw_name r = name then Some (rw_addr r) else None)"
proof -
  have R: "spaces (rw_gap r)" "spaces (rw_gap2 r)" "spaces (rw_gap3 r)" "name_ok (rw_name r)"
    "rw_type r \<noteq> []" "\<forall>c \<in> set (rw_type r). is_word alnum c"
    "rw_addr r \<noteq> []" "\<forall>c \<in> set (rw_addr r). is_hex c" "rw_tail r \<noteq> []" "\<not> is_hex (hd (rw_tail r))"
    using assms(1) by (simp_all add: row_ok_def)
  let ?rest3 = "rw_addr r @ rw_tail r @ s" and ?rest2 = "rw_gap3 r @ rw_addr r @ rw_tail r @ s"
  let ?rest1 = "rw_type r @ rw_gap3 r @ rw_addr r @ rw_tail r @ s"
  have start: "eat_some is_space (rw_gap r @ rw_name r @ t) = Some (rw_name r @ t)" for t
    using R(1,4) by (intro eat_some_run) (auto simp: spaces_def name_ok_def hd_append)
  have "\<not> is_space (hd (rw_type r))" using R(5,6) word_not_space hd_in_set by blast
  then have gap2: "eat_some is_space (rw_gap2 r @ ?rest1) = Some ?rest1"
    using R(2,5) by (intro eat_some_run) (auto simp: spaces_def hd_append)
  have "\<not> is_word alnum (hd (rw_gap3 r))" using R(3) word_not_space hd_in_set unfolding spaces_def by blast
  then have ty: "eat_some (is_word alnum) (rw_type r @ ?rest2) = Some ?rest2"
    using R(3,5,6) by (intro eat_some_run) (auto simp: spaces_def hd_append)
  have "\<not> is_space (hd (rw_addr r))" using R(7,8) hex_word word_not_space hd_in_set by blast
  then have gap3: "eat_some is_space (rw_gap3 r @ ?rest3) = Some ?rest3"
    using R(3,7) by (intro eat_some_run) (auto simp: spaces_def hd_append)
  have addr: "takeWhile is_hex ?rest3 = rw_addr r"
    using R(8-10) by (cases "rw_tail r") (simp_all add: takeWhile_append2)
  show ?thesis
  proof (cases "rw_name r = name")
    case True
    have "match_row alnum (rw_name r) (93 # rw_gap r @ rw_name r @ rw_gap2 r @ ?rest1) = Some (rw_addr r)"
      using R(7) by (simp add: match_row_def eat_bracket start gap2 ty gap3 addr)
    with True show ?thesis by simp
  next
    case False
    then have "Option.bind (eat_text name (rw_name r @ rw_gap2 r @ ?rest1)) (eat_some is_space) = None"
      using name_prefix [OF assms(2) R(4) R(2), of ?rest1] by auto
    then have "match_row alnum name (93 # rw_gap r @ rw_name r @ rw_gap2 r @ ?rest1) = None"
      by (simp add: match_row_def eat_bracket start split: Option.bind_splits)
    then show ?thesis using False by simp
  qed
qed

lemma row_no_bracket:
  assumes "row_ok alnum r"
  shows "93 \<notin> set (rw_gap r @ rw_name r @ rw_gap2 r @ rw_type r @ rw_gap3 r @ rw_addr r @ rw_tail r)"
  using assms not_bracket by (auto simp: row_ok_def spaces_def name_ok_def)

lemma search_table:
  assumes "\<forall>r \<in> set rows. row_ok alnum r" "name_ok name"
  shows "search_row alnum name (concat (map row_text rows)) = map_option rw_addr (find (\<lambda>r. rw_name r = name) rows)"
  using assms(1)
proof (induction rows)
  case Nil
  then show ?case by simp
next
  case (Cons r rows)
  let ?body = "rw_gap r @ rw_name r @ rw_gap2 r @ rw_type r @ rw_gap3 r @ rw_addr r @ rw_tail r"
  let ?rest = "concat (map row_text rows)"
  have r: "row_ok alnum r" using Cons.prems by simp
  then have lead: "93 \<notin> set (rw_lead r)" by (simp add: row_ok_def)
  have "search_row alnum name (concat (map row_text (r # rows))) = search_row alnum name (93 # ?body @ ?rest)"
    using search_skip [OF lead] by (simp add: row_text_def)
  also have "\<dots> = (if rw_name r = name then Some (rw_addr r) else search_row alnum name ?rest)"
    using match_at_row [OF r assms(2), of ?rest] search_skip [OF row_no_bracket [OF r], of alnum name ?rest]
    by simp
  finally show ?case using Cons by simp
qed

section \<open>The verdict\<close>

lemma hex_text_chars: "0 \<le> n \<Longrightarrow> hex_text n = [48] \<and> n = 0 \<or> hex_text n \<noteq> [] \<and> hd (hex_text n) \<noteq> 48"
proof (induction "16 :: int" n rule: digits_in.induct)
  case (1 n)
  show ?case
  proof (cases "n < 16")
    case True
    then show ?thesis using 1(2) by (simp add: hex_text_def digits_in.simps [of 16 n] digit_char_def)
  next
    case False
    then have step: "hex_text n = hex_text (n div 16) @ [digit_char (n mod 16)]"
      by (simp add: hex_text_def digits_in.simps [of 16 n])
    have "n div 16 \<noteq> 0" "0 \<le> n div 16" using False by (simp_all add: zdiv_eq_0_iff)
    with 1(1) False have "hex_text (n div 16) \<noteq> [] \<and> hd (hex_text (n div 16)) \<noteq> 48" by auto
    then show ?thesis by (simp add: step)
  qed
qed

lemma unpadded_zeros:
  assumes "0 \<le> n"
  shows "unpadded (replicate k 48 @ hex_text n) = hex_text n"
proof -
  have "dropWhile (\<lambda>c. c = 48) (replicate k 48 @ s) = dropWhile (\<lambda>c. c = (48 :: int)) s" for s
    by (simp add: dropWhile_append)
  then show ?thesis
    using hex_text_chars [OF assms] by (cases "hex_text n") (auto simp: unpadded_def Let_def)
qed

lemma unpadded_hex_pad: "0 \<le> n \<Longrightarrow> unpadded (hex_pad w n) = hex_text n"
  using unpadded_zeros [of n] by (simp add: hex_pad_def hex_text_def Let_def)

text \<open>C17: the comparison reads the right row: over a section table, printed row by row with
  16-digit addresses, a section is compared with the first row of exactly its name (the row of
  \<open>.got.plt\<close> is never taken for \<open>.got\<close>) and matches exactly when the numbers are equal;
  without such a row it is reported as not listed.\<close>

theorem got_verdict_compares_numbers:
  assumes "\<forall>r \<in> set rows. row_ok alnum r" "name_ok name" "93 \<notin> set pre" "0 \<le> py_addr"
    and "\<forall>r \<in> set rows. rw_name r = name \<longrightarrow> (\<exists>a\<ge>0. rw_addr r = hex_pad 16 a)"
  shows "(\<forall>r \<in> set rows. rw_name r \<noteq> name) \<and> got_verdict alnum (pre @ concat (map row_text rows)) (name, Some py_addr) = NotListed
    \<or> (\<exists>i a. i < length rows \<and> rw_name (rows ! i) = name \<and> (\<forall>j < i. rw_name (rows ! j) \<noteq> name)
        \<and> 0 \<le> a \<and> rw_addr (rows ! i) = hex_pad 16 a
        \<and> got_verdict alnum (pre @ concat (map row_text rows)) (name, Some py_addr)
          = Compared (hex_text py_addr) (hex_text a) (a = py_addr))"
proof (cases "find (\<lambda>r. rw_name r = name) rows")
  case None
  then have "search_row alnum name (pre @ concat (map row_text rows)) = None"
    using assms(1-3) by (simp add: search_skip search_table)
  moreover have "\<forall>r \<in> set rows. rw_name r \<noteq> name" using None by (simp add: find_None_iff)
  ultimately show ?thesis by simp
next
  case (Some r)
  then obtain i where i: "i < length rows" "rw_name (rows ! i) = name" "rows ! i = r" "\<forall>j < i. rw_name (rows ! j) \<noteq> name"
    by (auto simp: find_Some_iff)
  then obtain a where a: "0 \<le> a" "rw_addr r = hex_pad 16 a" using assms(5) nth_mem by blast
  have "search_row alnum name (pre @ concat (map row_text rows)) = Some (hex_pad 16 a)"
    using assms(1-3) Some a(2) by (simp add: search_skip search_table)
  moreover have "hex_text a = hex_text py_addr \<longleftrightarrow> a = py_addr"
    by (simp add: hex_text_def digit_chars_inject)
  ultimately have "got_verdict alnum (pre @ concat (map row_text rows)) (name, Some py_addr)
      = Compared (hex_text py_addr) (hex_text a) (a = py_addr)"
    using unpadded_hex_pad [OF a(1)] by simp
  with i a show ?thesis by blast
qed

text \<open>Two rows of the shape readelf prints, the longer name first.\<close>

definition sample_row :: "string \<Rightarrow> string \<Rightarrow> int \<Rightarrow> section_row" where
  "sample_row ix name a = \<lparr>rw_lead = lit ''  ['' @ lit ix, rw_gap = [32], rw_name = lit name, rw_gap2 = [32, 32],
     rw_type = lit ''PROGBITS'', rw_gap3 = [32], rw_addr = hex_pad 16 a, rw_tail = lit '' 002fb8 000048'' @ [10]\<rparr>"

lemma sample_row_ok:
  "row_ok (\<lambda>_. False) (sample_row ''23'' ''.got.plt'' 16384)" "row_ok (\<lambda>_. False) (sample_row ''24'' ''.got'' 16312)"
  "name_ok (lit ''.got'')"
  by code_simp+

theorem got_verdict_compares_numbers_witness:
  "got_verdict (\<lambda>_. False) (concat (map row_text [sample_row ''23'' ''.got.plt'' 16384, sample_row ''24'' ''.got'' 16312]))
     (lit ''.got'', Some 16312) = Compared (hex_text 16312) (hex_text 16312) True"
proof -
  let ?rows = "[sample_row ''23'' ''.got.plt'' 16384, sample_row ''24'' ''.got'' 16312]"
  have ok: "\<forall>r \<in> set ?rows. row_ok (\<lambda>_. False) r" using sample_row_ok by simp
  have names: "rw_name (?rows ! 0) \<noteq> lit ''.got''" "rw_name (?rows ! 1) = lit ''.got''"
    by (simp_all add: sample_row_def lit_def)
  have padded: "\<forall>r \<in> set ?rows. rw_name r = lit ''.got'' \<longrightarrow> (\<exists>a\<ge>0. rw_addr r = hex_pad 16 a)"
    by (auto simp: sample_row_def intro!: exI [of _ 16312])
  have addr: "hex_pad 16 16312 = hex_pad 16 a \<longrightarrow> 0 \<le> a \<longrightarrow> a = 16312" for a
    using unpadded_hex_pad [of a 16] unpadded_hex_pad [of 16312 16]
    by (auto simp: hex_text_def digit_chars_inject)
  from got_verdict_compares_numbers [OF ok sample_row_ok(3), of "[]" 16312] padded names addr
  show ?thesis by (fastforce simp: sample_row_def less_Suc_eq numeral_2_eq_2 nth_Cons split: nat.splits)
qed

end
