(* ===== verification/Elf_Analyzer.thy ===== *)
theory Elf_Analyzer
  imports Little_Endian Got_Verify
begin

text \<open>
  \<open>xdr/binary/elf_analyzer.py\<close>: the ELF header reader with its cross-check against
  \<open>readelf -h\<close>, the walk over the section header table and \<open>ElfParser\<close>. Files are a
  parameter, a map from paths to contents. Offsets and sizes of 2^63 and more raise
  \<open>OverflowError\<close> when a file is positioned or read.
\<close>

type_synonym files = "str \<Rightarrow> bytes option"
type_synonym got_table = "(str, (int \<times> int) option) dict"

definition HEADER_SIZE :: nat where "HEADER_SIZE = 64"
definition SHENTSIZE :: int where "SHENTSIZE = 64"

text \<open>\<open><16sHHIQQQIHHHHHH\<close>: the widths of the header's vals.\<close>

definition ELF64_HDR_FMT :: "nat list" where
  "ELF64_HDR_FMT = [16, 2, 2, 4, 8, 8, 8, 4, 2, 2, 2, 2, 2, 2]"

definition elf_magic :: bytes where
  "elf_magic = [0x7f, 0x45, 0x4c, 0x46]"

definition open_rb :: "files \<Rightarrow> str \<Rightarrow> ('s, bytes) op" where
  "open_rb fs path = (case fs path of None \<Rightarrow> raise_err FileNotFoundError | Some content \<Rightarrow> ret content)"

definition read_elf_header :: "files \<Rightarrow> str \<Rightarrow> ('s, int \<times> int \<times> int) op" where
  "read_elf_header fs path =
     and_then (open_rb fs path) (\<lambda>content.
       let buffer = take HEADER_SIZE content in
       if length buffer < HEADER_SIZE then raise_err (SystemExit 1)
       else if take 4 buffer \<noteq> elf_magic then raise_err (SystemExit 1)
       else (let vals = unpack_le ELF64_HDR_FMT buffer
             in ret (vals ! 6, vals ! 12, vals ! 13)))"

section \<open>The cross-check against readelf -h\<close>

definition first_number :: "str \<Rightarrow> py_error + int" where
  "first_number val = (case split_words val of
       [] \<Rightarrow> Inl IndexError
     | w # _ \<Rightarrow> (case parse_int w of None \<Rightarrow> Inl ValueError | Some n \<Rightarrow> Inr n))"

definition readelf_key :: "str \<Rightarrow> str option" where
  "readelf_key key =
     (if key = lit ''Start of section headers'' then Some (lit ''re_e_shoff'')
      else if key = lit ''Number of section headers'' then Some (lit ''re_e_shnum'')
      else if key = lit ''Section header string table index'' then Some (lit ''re_e_shstrndx'')
      else None)"

definition parse_line :: "str \<Rightarrow> (str, int) dict \<Rightarrow> py_error + (str, int) dict" where
  "parse_line raw vals =
     (let line = strip raw in
      if line = [] \<or> 58 \<notin> set line then Inr vals
      else (case split_once 58 line of (k, v) \<Rightarrow>
        (case readelf_key (strip k) of
           None \<Rightarrow> Inr vals
         | Some name \<Rightarrow> (case first_number (strip v) of
             Inl e \<Rightarrow> Inl e
           | Inr n \<Rightarrow> Inr (dict_set name n vals)))))"

fun parse_lines :: "str list \<Rightarrow> (str, int) dict \<Rightarrow> py_error + (str, int) dict" where
  "parse_lines [] vals = Inr vals"
| "parse_lines (l # ls) vals = (case parse_line l vals of Inl e \<Rightarrow> Inl e | Inr fields' \<Rightarrow> parse_lines ls fields')"

definition parse_checkelf_file :: "str \<Rightarrow> py_error + (str, int) dict" where
  "parse_checkelf_file txt = parse_lines (lines_of (universal_newlines txt)) []"

definition cross_check_header :: "readelf \<Rightarrow> str \<Rightarrow> int \<Rightarrow> int \<Rightarrow> int \<Rightarrow> ('s, unit) op" where
  "cross_check_header readelf path e_shoff e_shnum e_shstrndx =
     (case readelf ''-h'' path of
        Inl e \<Rightarrow> raise_err e
      | Inr txt \<Rightarrow> (case parse_checkelf_file txt of
          Inl e \<Rightarrow> raise_err e
        | Inr vals \<Rightarrow>
            if dict_get vals (lit ''re_e_shoff'') \<noteq> Some e_shoff
               \<or> dict_get vals (lit ''re_e_shnum'') \<noteq> Some e_shnum
               \<or> dict_get vals (lit ''re_e_shstrndx'') \<noteq> Some e_shstrndx
            then raise_err (SystemExit 1) else ret ()))"

section \<open>The section header table\<close>

text \<open>\<open>f.seek(pos)\<close> and \<open>f.read(n)\<close>.\<close>

definition seek_to :: "bytes \<Rightarrow> int \<Rightarrow> ('s, bytes) op" where
  "seek_to content pos = (if 2 ^ 63 \<le> pos then raise_err OverflowError else ret (drop (nat pos) content))"

definition read_bytes :: "bytes \<Rightarrow> int \<Rightarrow> ('s, bytes) op" where
  "read_bytes rest n = (if 2 ^ 63 \<le> n then raise_err OverflowError else ret (take (nat n) rest))"

definition unpack_q :: "bytes \<Rightarrow> ('s, int) op" where
  "unpack_q bs = (if length bs = 8 then ret (le_value bs) else raise_err StructError)"

definition byte_slice :: "nat \<Rightarrow> nat \<Rightarrow> bytes \<Rightarrow> bytes" where
  "byte_slice i j bs = take (j - i) (drop i bs)"

definition section_name :: "bytes \<Rightarrow> bytes \<Rightarrow> str" where
  "section_name string_tab entry =
     decode_utf8 Ignore (takeWhile (\<lambda>b. b \<noteq> 0) (drop (nat (le_value (byte_slice 0 4 entry))) string_tab))"

definition section_range :: "bytes \<Rightarrow> int \<times> int" where
  "section_range entry = (le_value (byte_slice 16 24 entry), le_value (byte_slice 32 40 entry))"

definition note_entry :: "bytes \<Rightarrow> bytes \<Rightarrow> got_table \<Rightarrow> got_table" where
  "note_entry string_tab entry got =
     (let name = section_name string_tab entry in
      if name \<in> set (dict_keys got) then dict_set name (Some (section_range entry)) got else got)"

fun walk_entries :: "bytes \<Rightarrow> nat \<Rightarrow> bytes \<Rightarrow> got_table \<Rightarrow> got_table" where
  "walk_entries string_tab 0 rest got = got"
| "walk_entries string_tab (Suc n) rest got =
     (let entry = take (nat SHENTSIZE) rest in
      if length entry < nat SHENTSIZE then got
      else walk_entries string_tab n (drop (nat SHENTSIZE) rest) (note_entry string_tab entry got))"

definition no_got :: got_table where
  "no_got = [(lit ''.got'', None), (lit ''.got.plt'', None)]"

definition walk_got_section :: "files \<Rightarrow> str \<Rightarrow> int \<Rightarrow> int \<Rightarrow> int \<Rightarrow> ('s, got_table) op" where
  "walk_got_section fs path e_shoff e_shnum e_shstrndx =
     and_then (open_rb fs path) (\<lambda>content.
     and_then (seek_to content (e_shoff + e_shstrndx * SHENTSIZE)) (\<lambda>rest.
     and_then (read_bytes rest SHENTSIZE) (\<lambda>strtab_header.
     and_then (unpack_q (byte_slice 24 32 strtab_header)) (\<lambda>sh_strtab_offset.
     and_then (unpack_q (byte_slice 32 40 strtab_header)) (\<lambda>sh_strtab_size.
     and_then (seek_to content sh_strtab_offset) (\<lambda>rest.
     and_then (read_bytes rest sh_strtab_size) (\<lambda>string_tab.
     and_then (seek_to content e_shoff) (\<lambda>rest.
       ret (walk_entries string_tab (nat e_shnum) rest no_got)))))))))"

definition addresses :: "got_table \<Rightarrow> (str, int option) dict" where
  "addresses got = map (\<lambda>(name, info). (name, map_option fst info)) got"

definition find_got_addresses :: "files \<Rightarrow> str \<Rightarrow> int \<Rightarrow> int \<Rightarrow> int \<Rightarrow> ('s, (str, int option) dict) op" where
  "find_got_addresses fs path e_shoff e_shnum e_shstrndx =
     and_then (walk_got_section fs path e_shoff e_shnum e_shstrndx) (\<lambda>got. ret (addresses got))"

definition analyze_elf :: "files \<Rightarrow> readelf \<Rightarrow> str \<Rightarrow> ('s, (str, int option) dict) op" where
  "analyze_elf fs readelf path =
     and_then (read_elf_header fs path) (\<lambda>(e_shoff, e_shnum, e_shstrndx).
     and_then (cross_check_header readelf path e_shoff e_shnum e_shstrndx) (\<lambda>_.
     and_then (find_got_addresses fs path e_shoff e_shnum e_shstrndx) (\<lambda>got_addresses.
     and_then (parse_gotverify readelf path) (\<lambda>_. ret got_addresses))))"

section \<open>ElfParser\<close>

record elf_parser =
  binary_path :: str
  got_sections :: "got_table option"

definition new_elf_parser :: "str \<Rightarrow> elf_parser" where
  "new_elf_parser path = \<lparr>binary_path = path, got_sections = None\<rparr>"

definition elf_parse :: "files \<Rightarrow> readelf \<Rightarrow> (elf_parser \<times> 'w, (str, int option) dict) op" where
  "elf_parse fs readelf =
     and_then (look binary_path) (\<lambda>path.
     and_then (read_elf_header fs path) (\<lambda>(e_shoff, e_shnum, e_shstrndx).
     and_then (cross_check_header readelf path e_shoff e_shnum e_shstrndx) (\<lambda>_.
     and_then (walk_got_section fs path e_shoff e_shnum e_shstrndx) (\<lambda>got.
     and_then (own (\<lambda>p. p\<lparr>got_sections := Some got\<rparr>)) (\<lambda>_.
     and_then (parse_gotverify readelf path) (\<lambda>_. ret (addresses got)))))))"

definition range_of :: "got_table \<Rightarrow> int option \<times> int option" where
  "range_of got =
     (let found = List.map_filter snd got in
      if found = [] then (None, None)
      else (let got_base = Min (set (map fst found)); got_end = Max (set (map (\<lambda>(addr, size). addr + size) found))
            in (Some got_base, Some (got_end - got_base))))"

definition get_got_range :: "files \<Rightarrow> readelf \<Rightarrow> (elf_parser \<times> 'w, int option \<times> int option) op" where
  "get_got_range fs readelf =
     and_then (look got_sections) (\<lambda>cached.
     and_then (if cached = None then and_then (elf_parse fs readelf) (\<lambda>_. ret ()) else ret ()) (\<lambda>_.
     and_then (look got_sections) (\<lambda>got. case got of
         None \<Rightarrow> raise_err TypeError
       | Some got \<Rightarrow> ret (range_of got))))"

section \<open>Reading the header\<close>

lemma open_rb_apply: "open_rb fs path s = (case fs path of None \<Rightarrow> (Inl FileNotFoundError, s) | Some c \<Rightarrow> (Inr c, s))"
  by (simp add: open_rb_def op_simps split: option.splits)

text \<open>A header whose section fields are given; the other fields are arbitrary.\<close>

definition header_fields :: "int list \<Rightarrow> int \<Rightarrow> int \<Rightarrow> int \<Rightarrow> int list" where
  "header_fields fs e_shoff e_shnum e_shstrndx =
     take 6 fs @ [e_shoff] @ take 5 (drop 6 fs) @ [e_shnum, e_shstrndx]"

lemma header_fields_nth:
  assumes "length fs = 11"
  shows "length (header_fields fs a b c) = 14" "header_fields fs a b c ! 6 = a"
    "header_fields fs a b c ! 12 = b" "header_fields fs a b c ! 13 = c"
  using assms by (simp_all add: header_fields_def nth_append)

text \<open>C16: reading back a packed header: for any file that starts with a well-formed 64-byte header,
  with any values in its other fields and anything after it, the reader returns exactly the
  section header offset, count and string table index that were packed; a file shorter than 64
  bytes or with another magic exits with status 1, and nothing else does.\<close>

theorem elf_header_roundtrip:
  "(length vals = 11 \<longrightarrow> (\<forall>(n, v) \<in> set (zip ELF64_HDR_FMT (header_fields vals shoff shnum shstrndx)). 0 \<le> v \<and> v < 256 ^ n)
      \<longrightarrow> take 4 (pack_le ELF64_HDR_FMT (header_fields vals shoff shnum shstrndx)) = elf_magic
      \<longrightarrow> fs path = Some (pack_le ELF64_HDR_FMT (header_fields vals shoff shnum shstrndx) @ rest)
      \<longrightarrow> read_elf_header fs path s = (Inr (shoff, shnum, shstrndx), s))
   \<and> (fst (read_elf_header fs path s) = Inl (SystemExit 1) \<longleftrightarrow>
        (\<exists>content. fs path = Some content \<and> (length content < 64 \<or> take 4 content \<noteq> elf_magic)))"
proof
  let ?f = "header_fields vals shoff shnum shstrndx"
  show "length vals = 11 \<longrightarrow> (\<forall>(n, v) \<in> set (zip ELF64_HDR_FMT ?f). 0 \<le> v \<and> v < 256 ^ n)
      \<longrightarrow> take 4 (pack_le ELF64_HDR_FMT ?f) = elf_magic
      \<longrightarrow> fs path = Some (pack_le ELF64_HDR_FMT ?f @ rest)
      \<longrightarrow> read_elf_header fs path s = (Inr (shoff, shnum, shstrndx), s)"
  proof (intro impI)
    assume l: "length vals = 11" and range: "\<forall>(n, v) \<in> set (zip ELF64_HDR_FMT ?f). 0 \<le> v \<and> v < 256 ^ n"
      and magic: "take 4 (pack_le ELF64_HDR_FMT ?f) = elf_magic"
      and content: "fs path = Some (pack_le ELF64_HDR_FMT ?f @ rest)"
    have len: "length ELF64_HDR_FMT = length ?f" using header_fields_nth(1) [OF l] by (simp add: ELF64_HDR_FMT_def)
    have size: "length (pack_le ELF64_HDR_FMT ?f) = 64"
      using length_pack_le [OF len] by (simp add: ELF64_HDR_FMT_def)
    have "unpack_le ELF64_HDR_FMT (pack_le ELF64_HDR_FMT ?f @ []) = ?f"
      by (rule unpack_pack_le [OF len range])
    then show "read_elf_header fs path s = (Inr (shoff, shnum, shstrndx), s)"
      using content size magic header_fields_nth [OF l]
      by (simp add: read_elf_header_def and_then_apply open_rb_apply HEADER_SIZE_def Let_def ret_apply)
  qed
  show "fst (read_elf_header fs path s) = Inl (SystemExit 1) \<longleftrightarrow>
      (\<exists>content. fs path = Some content \<and> (length content < 64 \<or> take 4 content \<noteq> elf_magic))"
    by (cases "fs path")
      (auto simp: read_elf_header_def and_then_apply open_rb_apply HEADER_SIZE_def Let_def op_simps)
qed

theorem elf_header_roundtrip_witness:
  "fst (read_elf_header (\<lambda>_. Some (take 3 elf_magic)) (lit ''x'') ()) = Inl (SystemExit 1)
   \<and> read_elf_header (\<lambda>_. Some (pack_le ELF64_HDR_FMT (header_fields (0x464c457f # replicate 10 1) 4096 12 11) @ [7])) (lit ''x'') ()
      = (Inr (4096, 12, 11), ())"
proof
  show "fst (read_elf_header (\<lambda>_. Some (take 3 elf_magic)) (lit ''x'') ()) = Inl (SystemExit 1)"
    using elf_header_roundtrip [of "[]" 0 0 0 "\<lambda>_. Some (take 3 elf_magic)" "lit ''x''" "[]" "()"]
    by (simp add: elf_magic_def)
  let ?fl = "0x464c457f # replicate 10 (1::int)"
  have "length ?fl = 11" by simp
  moreover have "\<forall>(n, v) \<in> set (zip ELF64_HDR_FMT (header_fields ?fl 4096 12 11)). 0 \<le> v \<and> v < 256 ^ n"
    "take 4 (pack_le ELF64_HDR_FMT (header_fields ?fl 4096 12 11)) = elf_magic"
    by (code_simp)+
  ultimately show "read_elf_header (\<lambda>_. Some (pack_le ELF64_HDR_FMT (header_fields ?fl 4096 12 11) @ [7])) (lit ''x'') ()
      = (Inr (4096, 12, 11), ())"
    using elf_header_roundtrip [of ?fl 4096 12 11 "\<lambda>_. Some (pack_le ELF64_HDR_FMT (header_fields ?fl 4096 12 11) @ [7])"
        "lit ''x''" "[7]" "()"] by blast
qed

section \<open>The walk\<close>

text \<open>The complete entries of a table of \<open>n\<close> entries, up to where the file ends.\<close>

definition complete_entries :: "nat \<Rightarrow> bytes \<Rightarrow> bytes list" where
  "complete_entries n rest =
     takeWhile (\<lambda>entry. length entry = 64) (map (\<lambda>i. take 64 (drop (64 * i) rest)) [0..<n])"

lemma complete_entries_Suc:
  "complete_entries (Suc n) rest =
     (if length rest < 64 then [] else take 64 rest # complete_entries n (drop 64 rest))"
proof -
  have "map (\<lambda>i. take 64 (drop (64 * i) rest)) [0..<Suc n] =
      take 64 rest # map (\<lambda>i. take 64 (drop (64 * i) (drop 64 rest))) [0..<n]"
    by (simp add: upt_conv_Cons map_Suc_upt [symmetric] comp_def add.commute del: upt_Suc)
  then show ?thesis by (simp add: complete_entries_def)
qed

lemma walk_entries_fold: "walk_entries strtab n rest got = fold (note_entry strtab) (complete_entries n rest) got"
proof (induction n arbitrary: rest got)
  case 0
  then show ?case by (simp add: complete_entries_def)
next
  case (Suc n)
  show ?case
    by (simp add: complete_entries_Suc Suc SHENTSIZE_def Let_def)
qed

text \<open>The last of the entries with a given name.\<close>

definition last_named :: "bytes \<Rightarrow> str \<Rightarrow> bytes list \<Rightarrow> bytes option" where
  "last_named strtab name entries =
     (let es = filter (\<lambda>entry. section_name strtab entry = name) entries
      in if es = [] then None else Some (last es))"

lemma last_named_snoc:
  "last_named strtab name (es @ [e]) = (if section_name strtab e = name then Some e else last_named strtab name es)"
  by (simp add: last_named_def)

lemma dict_keys_set_present:
  "k \<in> set (dict_keys d) \<Longrightarrow> dict_keys (dict_set k v d) = dict_keys d"
  by (induction d) (auto simp: dict_keys_def dict_set_def)

lemma fold_note:
  "dict_keys (fold (note_entry strtab) es got) = dict_keys got
   \<and> dict_get (fold (note_entry strtab) es got) name =
      (if name \<in> set (dict_keys got)
       then (case last_named strtab name es of None \<Rightarrow> dict_get got name | Some e \<Rightarrow> Some (Some (section_range e)))
       else dict_get got name)"
proof (induction es rule: rev_induct)
  case Nil
  then show ?case by (simp add: last_named_def)
next
  case (snoc e es)
  then show ?case by (auto simp: note_entry_def Let_def last_named_snoc dict_keys_set_present)
qed

text \<open>The two keys are always present, in this order.\<close>

lemma no_got_keys: "dict_keys no_got = [lit ''.got'', lit ''.got.plt'']"
  by (simp add: no_got_def dict_keys_def)

lemma no_got_get: "name = ''.got'' \<or> name = ''.got.plt'' \<Longrightarrow> dict_get no_got (lit name) = Some None"
  by (auto simp: no_got_def dict_get_def)

lemma got_table_shape:
  "dict_keys d = [lit ''.got'', lit ''.got.plt''] \<Longrightarrow>
   d = [(lit ''.got'', the (dict_get d (lit ''.got''))), (lit ''.got.plt'', the (dict_get d (lit ''.got.plt'')))]"
  by (auto simp: dict_keys_def dict_get_def map_eq_Cons_conv)

definition named_range :: "bytes \<Rightarrow> bytes list \<Rightarrow> string \<Rightarrow> (int \<times> int) option" where
  "named_range strtab es name = map_option section_range (last_named strtab (lit name) es)"

lemma walk_result:
  "walk_entries strtab n rest no_got =
     [(lit ''.got'', named_range strtab (complete_entries n rest) ''.got''),
      (lit ''.got.plt'', named_range strtab (complete_entries n rest) ''.got.plt'')]"
proof -
  let ?d = "fold (note_entry strtab) (complete_entries n rest) no_got"
  have "dict_get ?d (lit name) = Some (named_range strtab (complete_entries n rest) name)"
    if "name = ''.got'' \<or> name = ''.got.plt''" for name
    using that fold_note [of strtab "complete_entries n rest" no_got "lit name"]
    by (auto simp: no_got_keys named_range_def no_got_get split: option.splits)
  moreover have "dict_keys ?d = [lit ''.got'', lit ''.got.plt'']"
    using fold_note [of strtab "complete_entries n rest" no_got "[]"] by (simp add: no_got_keys)
  ultimately show ?thesis
    unfolding walk_entries_fold by (subst got_table_shape [OF \<open>dict_keys ?d = _\<close>]) simp
qed

text \<open>The string table the header points to, when the file holds its section header.\<close>

definition strtab_of :: "bytes \<Rightarrow> int \<Rightarrow> int \<Rightarrow> bytes" where
  "strtab_of content e_shoff e_shstrndx =
     (let hdr = take 64 (drop (nat (e_shoff + e_shstrndx * 64)) content)
      in take (nat (le_value (byte_slice 32 40 hdr))) (drop (nat (le_value (byte_slice 24 32 hdr))) content))"

lemma byte_slice_length: "j \<le> length bs \<Longrightarrow> i \<le> j \<Longrightarrow> length (byte_slice i j bs) = j - i"
  by (simp add: byte_slice_def)

definition table_readable :: "bytes \<Rightarrow> int \<Rightarrow> int \<Rightarrow> bool" where
  "table_readable content e_shoff e_shstrndx \<longleftrightarrow>
     (let hdr = take 64 (drop (nat (e_shoff + e_shstrndx * 64)) content) in
      e_shoff < 2 ^ 63 \<and> e_shoff + e_shstrndx * 64 < 2 ^ 63 \<and> 40 \<le> length hdr
      \<and> le_value (byte_slice 24 32 hdr) < 2 ^ 63 \<and> le_value (byte_slice 32 40 hdr) < 2 ^ 63)"

lemma walk_got_section_eq:
  assumes "fs path = Some content" "table_readable content shoff idx"
  shows "walk_got_section fs path shoff shnum idx s =
    (Inr [(lit ''.got'', named_range (strtab_of content shoff idx) (complete_entries (nat shnum) (drop (nat shoff) content)) ''.got''),
      (lit ''.got.plt'', named_range (strtab_of content shoff idx) (complete_entries (nat shnum) (drop (nat shoff) content)) ''.got.plt'')], s)"
  using assms byte_slice_length [of 32 "take 64 (drop (nat (shoff + idx * 64)) content)" 24]
    byte_slice_length [of 40 "take 64 (drop (nat (shoff + idx * 64)) content)" 32]
  by (simp add: walk_got_section_def and_then_apply open_rb_apply seek_to_def read_bytes_def unpack_q_def
      SHENTSIZE_def ret_apply walk_result table_readable_def strtab_of_def Let_def min_def split: if_splits)

text \<open>C14: the section walk returns, for .got and for .got.plt, the address and size of the last
  complete entry of the table whose name in the string table is that one, and nothing for a
  name no entry has; a table cut off by the end of the file is walked up to there. The state is
  untouched, and a string table header that is not in the file raises instead.\<close>

theorem got_walk_finds_last_named:
  assumes "fs path = Some content"
  shows "(table_readable content shoff idx \<longrightarrow>
      (\<exists>got. walk_got_section fs path shoff shnum idx s = (Inr got, s)
        \<and> (\<forall>name \<in> {''.got'', ''.got.plt''}. dict_get got (lit name) =
            Some (map_option section_range (last_named (strtab_of content shoff idx) (lit name)
              (complete_entries (nat shnum) (drop (nat shoff) content)))))))
    \<and> (\<not> table_readable content shoff idx \<longrightarrow>
      fst (walk_got_section fs path shoff shnum idx s) \<in> {Inl OverflowError, Inl StructError})"
proof
  show "table_readable content shoff idx \<longrightarrow>
      (\<exists>got. walk_got_section fs path shoff shnum idx s = (Inr got, s)
        \<and> (\<forall>name \<in> {''.got'', ''.got.plt''}. dict_get got (lit name) =
            Some (map_option section_range (last_named (strtab_of content shoff idx) (lit name)
              (complete_entries (nat shnum) (drop (nat shoff) content))))))"
    using walk_got_section_eq [of fs path content shoff idx shnum s, OF assms]
    by (auto simp: dict_get_def named_range_def)
  let ?hdr = "take 64 (drop (nat (shoff + idx * 64)) content)"
  have "length (byte_slice 24 32 bs) = 8 \<and> length (byte_slice 32 40 bs) = 8 \<longleftrightarrow> 40 \<le> length bs" for bs
    by (simp add: byte_slice_def) linarith
  note this [of ?hdr]
  then show "\<not> table_readable content shoff idx \<longrightarrow>
      fst (walk_got_section fs path shoff shnum idx s) \<in> {Inl OverflowError, Inl StructError}"
    using assms
    by (auto simp: walk_got_section_def and_then_apply open_rb_apply seek_to_def read_bytes_def unpack_q_def
        table_readable_def op_simps SHENTSIZE_def Let_def)
qed

text \<open>A section header entry, and a file made of a table of two entries and a string table.\<close>

definition shdr :: "int \<Rightarrow> int \<Rightarrow> int \<Rightarrow> int \<Rightarrow> bytes" where
  "shdr name addr off sz = pack_le [4, 4, 8, 8, 8, 8, 8, 8, 8] [name, 1, 0, addr, off, sz, 0, 0, 0]"

definition sample_elf :: bytes where
  "sample_elf = shdr 0 0 128 12 @ shdr 1 8192 512 32 @ [0, 0xff] @ [46, 103, 111, 116, 0, 120, 0, 0, 0, 0]"

lemma sample_entries:
  "complete_entries 3 sample_elf = [shdr 0 0 128 12, shdr 1 8192 512 32]"
  "section_name (strtab_of sample_elf 0 0) (shdr 1 8192 512 32) = lit ''.got''"
  "section_name (strtab_of sample_elf 0 0) (shdr 0 0 128 12) = []"
  "section_range (shdr 1 8192 512 32) = (8192, 32)"
  "table_readable sample_elf 0 0"
  by (code_simp)+

theorem got_walk_finds_last_named_witness:
  "\<exists>got. walk_got_section (\<lambda>_. Some sample_elf) (lit ''x'') 0 3 0 () = (Inr got, ())
    \<and> dict_get got (lit ''.got'') = Some (Some (8192, 32)) \<and> dict_get got (lit ''.got.plt'') = Some None"
  using got_walk_finds_last_named [of "\<lambda>_. Some sample_elf" "lit ''x''" sample_elf 0 0 3 "()"] sample_entries
  by (auto simp: last_named_def)

section \<open>Names that are not valid UTF-8\<close>

lemma decode_ignore_junk:
  "\<forall>b \<in> set bs. uint b < 128 \<or> 244 < uint b \<Longrightarrow>
   decode_utf8 Ignore bs = map uint (filter (\<lambda>b. uint b < 128) bs)"
proof (induction bs)
  case Nil
  then show ?case by simp
next
  case (Cons b bs)
  show ?case
  proof (cases "uint b < 128")
    case True
    then have "decode_utf8 Ignore (b # bs) = uint b # decode_utf8 Ignore bs"
      using decode_utf8_ascii_prefix [of "[b]" Ignore bs] by (simp add: is_ascii_def)
    with True Cons show ?thesis by simp
  next
    case False
    then have "decode_utf8 Ignore (b # bs) = decode_utf8 Ignore bs"
      using Cons.prems by (intro decode_utf8_skip) auto
    with False Cons show ?thesis by simp
  qed
qed

text \<open>Bytes that can occur in no UTF-8 text vanish from a section's name before it is compared:
  a section named .got with any such bytes anywhere in it is taken for .got, and being later in
  the table it replaces the genuine one.\<close>

theorem invalid_name_bytes_ignored:
  assumes "takeWhile (\<lambda>b. b \<noteq> 0) (drop (nat (le_value (byte_slice 0 4 entry))) strtab) = name"
    and "\<forall>b \<in> set name. uint b < 128 \<or> 244 < uint b"
    and "map uint (filter (\<lambda>b. uint b < 128) name) = lit ''.got''"
  shows "section_name strtab entry = lit ''.got''
    \<and> dict_get (fold (note_entry strtab) (es @ [entry]) no_got) (lit ''.got'') = Some (Some (section_range entry))"
proof -
  have name: "section_name strtab entry = lit ''.got''"
    using decode_ignore_junk [OF assms(2)] assms(1,3) by (simp add: section_name_def)
  then show ?thesis
    using fold_note [of strtab "es @ [entry]" no_got "lit ''.got''"] by (simp add: no_got_keys last_named_snoc)
qed

theorem invalid_name_bytes_ignored_witness:
  "section_name ([0, 0xff] @ [46, 103, 0xf8, 111, 116, 0]) (shdr 1 8192 512 32) = lit ''.got''"
proof -
  have "takeWhile (\<lambda>b. b \<noteq> 0) (drop (nat (le_value (byte_slice 0 4 (shdr 1 8192 512 32))))
      ([0, 0xff] @ [46, 103, 0xf8, 111, 116, 0])) = [0xff, 46, 103, 0xf8, 111, 116 :: byte]"
    "\<forall>b \<in> set [0xff, 46, 103, 0xf8, 111, 116 :: byte]. uint b < 128 \<or> 244 < uint b"
    "map uint (filter (\<lambda>b. uint b < 128) [0xff, 46, 103, 0xf8, 111, 116 :: byte]) = lit ''.got''"
    by (code_simp)+
  from invalid_name_bytes_ignored [OF this] show ?thesis by blast
qed

section \<open>The lines of readelf -h\<close>

definition rstrip :: "str \<Rightarrow> str" where
  "rstrip s = rev (dropWhile is_space (rev s))"

lemma strip_rstrip: "strip s = rstrip (dropWhile is_space s)"
  by (simp add: strip_def rstrip_def)

lemma rstrip_append:
  "rstrip (a @ b) = (if \<forall>c \<in> set b. is_space c then rstrip a else a @ rstrip b)"
  by (auto simp: rstrip_def dropWhile_append)

lemma rstrip_idem: "rstrip (rstrip s) = rstrip s"
  by (simp add: rstrip_def)

lemma rstrip_no_space: "\<forall>c \<in> set s. \<not> is_space c \<Longrightarrow> rstrip s = s"
  by (simp add: rstrip_def dropWhile_no_space)

lemma rstrip_after:
  "a \<noteq> [] \<Longrightarrow> \<forall>c \<in> set a. \<not> is_space c \<Longrightarrow> rstrip (a @ b) = a @ rstrip b"
proof (cases "\<forall>c \<in> set b. is_space c")
  case True
  moreover assume "\<forall>c \<in> set a. \<not> is_space c"
  moreover have "rstrip b = []" using True by (simp add: rstrip_def takeWhile_all)
  ultimately show ?thesis by (simp add: rstrip_append rstrip_no_space)
next
  case False
  then show ?thesis unfolding rstrip_append [of a b] by (rule if_not_P)
qed

lemma rstrip_hd: "s = [] \<or> is_space (hd s) \<Longrightarrow> rstrip s = [] \<or> is_space (hd (rstrip s))"
proof (cases s)
  case (Cons c cs)
  assume "s = [] \<or> is_space (hd s)"
  with Cons show ?thesis
    using rstrip_append [of "[c]" cs] by (cases "\<forall>x \<in> set cs. is_space x") (simp_all add: rstrip_def)
qed (simp add: rstrip_def)

lemma dropWhile_spaces: "\<forall>c \<in> set sp. is_space c \<Longrightarrow> dropWhile is_space (sp @ s) = dropWhile is_space s"
  by (simp add: dropWhile_append)

lemma split_once_first: "c \<notin> set k \<Longrightarrow> split_once c (k @ c # v) = (k, v)"
  by (induction k) (auto simp: split_once_def)

lemma dec_no_space: "0 \<le> n \<Longrightarrow> \<forall>c \<in> set (dec n). \<not> is_space c"
  using dec_nonneg_chars not_space_digit by blast

lemma first_number_dec:
  assumes "0 \<le> n" "tail = [] \<or> is_space (hd tail)"
  shows "first_number (dec n @ tail) = Inr n"
proof -
  note D = dec_no_space [OF assms(1)]
  have "dropWhile is_space (dec n @ tail) = dec n @ tail"
    using D by (cases "dec n") auto
  moreover have "takeWhile (\<lambda>c. \<not> is_space c) (dec n @ tail) = dec n"
    using D assms(2) by (cases tail) (simp_all add: takeWhile_append2 takeWhile_all)
  ultimately have "\<exists>ws. split_words (dec n @ tail) = dec n # ws"
    by (subst split_words.simps) (simp add: Let_def)
  then show ?thesis using assms(1) by (auto simp: first_number_def parse_int_dec)
qed

lemma readelf_key_shape:
  assumes "readelf_key key = Some name"
  shows "58 \<notin> set key" "key \<noteq> []" "dropWhile is_space key = key" "rstrip key = key"
  using assms
  by (auto simp: readelf_key_def lit_def is_space_def rstrip_def split: if_splits)

text \<open>The parser reads back what readelf prints: a line made of spaces, one of the three field
  names, a colon, spaces, the number and any text that does not continue the number sets
  exactly that field to that number.\<close>

theorem readelf_line_roundtrip:
  assumes "readelf_key key = Some name" "0 \<le> n"
    and "\<forall>c \<in> set pad. is_space c" "\<forall>c \<in> set gap. is_space c" "tail = [] \<or> is_space (hd tail)"
  shows "parse_line (pad @ key @ 58 # gap @ dec n @ tail) fields' = Inr (dict_set name n fields')"
proof -
  note K = readelf_key_shape [OF assms(1)] and D = dec_no_space [OF assms(2)]
  have digits: "\<not> (\<forall>c \<in> set (dec n @ tail). is_space c)" using D dec_not_Nil [of n] by (cases "dec n") auto
  have right: "rstrip (key @ 58 # gap @ dec n @ tail) = key @ 58 # gap @ dec n @ rstrip tail"
    using rstrip_append [of "key @ 58 # gap" "dec n @ tail"] unfolding if_not_P [OF digits]
    by (simp add: rstrip_after [OF dec_not_Nil D])
  have "dropWhile is_space (pad @ key @ 58 # gap @ dec n @ tail) = key @ 58 # gap @ dec n @ tail"
    using K(2) hd_dropWhile [of is_space key] unfolding K(3)
    by (cases key) (auto simp: dropWhile_spaces [OF assms(3)])
  then have line: "strip (pad @ key @ 58 # gap @ dec n @ tail) = key @ 58 # gap @ dec n @ rstrip tail"
    using right by (simp add: strip_rstrip)
  have split: "split_once 58 (key @ 58 # gap @ dec n @ rstrip tail) = (key, gap @ dec n @ rstrip tail)"
    by (rule split_once_first [OF K(1)])
  have "dropWhile is_space (gap @ dec n @ rstrip tail) = dec n @ rstrip tail"
    using D dec_not_Nil [of n] by (cases "dec n") (auto simp: dropWhile_spaces [OF assms(4)])
  then have number: "strip (gap @ dec n @ rstrip tail) = dec n @ rstrip tail"
    using rstrip_after [OF dec_not_Nil D] by (simp add: strip_rstrip rstrip_idem)
  have "first_number (dec n @ rstrip tail) = Inr n"
    by (intro first_number_dec [OF assms(2)] rstrip_hd assms(5))
  moreover have "strip key = key" using K by (simp add: strip_rstrip)
  ultimately show ?thesis
    using assms(1) by (simp add: parse_line_def line split number)
qed

theorem readelf_line_roundtrip_witness:
  "parse_line (lit ''  Start of section headers:          13984 (bytes into file)'') []
     = Inr [(lit ''re_e_shoff'', 13984)]"
proof -
  have "readelf_key (lit ''Start of section headers'') = Some (lit ''re_e_shoff'')" by (simp add: readelf_key_def)
  from readelf_line_roundtrip [OF this, of 13984 "replicate 2 32" "replicate 10 32" "lit '' (bytes into file)''" "[]"]
  have "parse_line (replicate 2 32 @ lit ''Start of section headers'' @ 58 # replicate 10 32 @ dec 13984
      @ lit '' (bytes into file)'') [] = Inr (dict_set (lit ''re_e_shoff'') 13984 [])"
    by (simp add: is_space_def lit_def)
  moreover have "replicate 2 32 @ lit ''Start of section headers'' @ 58 # replicate 10 32 @ dec 13984
      @ lit '' (bytes into file)'' = lit ''  Start of section headers:          13984 (bytes into file)''"
    by code_simp
  ultimately show ?thesis by (simp add: dict_set_def)
qed

section \<open>The GOT range\<close>

lemma cross_check_ok:
  "cross_check_header readelf path a b c s = (Inr (), s') \<longleftrightarrow> s' = s \<and>
     (\<exists>txt fields'. readelf ''-h'' path = Inr txt \<and> parse_checkelf_file txt = Inr fields'
        \<and> dict_get fields' (lit ''re_e_shoff'') = Some a \<and> dict_get fields' (lit ''re_e_shnum'') = Some b
        \<and> dict_get fields' (lit ''re_e_shstrndx'') = Some c)"
  by (auto simp: cross_check_header_def op_simps split: sum.splits)

text \<open>The steps on the file only read.\<close>

lemma elf_steps_pure:
  "read_elf_header fs path s = (fst (read_elf_header fs path ()), s)"
  "cross_check_header readelf path a b c s = (fst (cross_check_header readelf path a b c ()), s)"
  "walk_got_section fs path a b c s = (fst (walk_got_section fs path a b c ()), s)"
  "parse_gotverify readelf path s = (fst (parse_gotverify readelf path ()), s)"
  by (auto simp: read_elf_header_def cross_check_header_def walk_got_section_def open_rb_apply seek_to_def
      read_bytes_def unpack_q_def parse_gotverify_def op_simps Let_def split: option.splits sum.splits prod.splits)

lemma elf_parse_ok:
  "elf_parse fs readelf (p, w) = (Inr addrs, (p', w')) \<longleftrightarrow>
     (\<exists>a b c got. read_elf_header fs (binary_path p) () = (Inr (a, b, c), ())
        \<and> cross_check_header readelf (binary_path p) a b c () = (Inr (), ())
        \<and> walk_got_section fs (binary_path p) a b c () = (Inr got, ())
        \<and> parse_gotverify readelf (binary_path p) () = (Inr (), ())
        \<and> addrs = addresses got \<and> p' = p\<lparr>got_sections := Some got\<rparr> \<and> w' = w)"
proof -
  have unit: "m () = (x, ()) \<longleftrightarrow> fst (m ()) = x" for m :: "(unit, 'b) op" and x
    by (metis (full_types) fst_conv old.unit.exhaust surj_pair)
  note pure = elf_steps_pure [where s = "s :: elf_parser \<times> 'a" for s]
  show ?thesis
    unfolding elf_parse_def
    by (auto simp: and_then_apply look_apply own_apply ret_apply pure unit split: sum.splits)
qed

lemma range_of_found:
  "range_of got = (None, None) \<longleftrightarrow> (\<forall>name info. (name, info) \<in> set got \<longrightarrow> info = None)"
proof -
  have "List.map_filter snd got = [] \<longleftrightarrow> (\<forall>p \<in> set got. snd p = None)"
    by (induction got) (auto simp: List.map_filter_simps split: option.splits)
  moreover have "(\<forall>p \<in> set got. snd p = None) \<longleftrightarrow> (\<forall>name info. (name, info) \<in> set got \<longrightarrow> info = None)"
    by (metis prod.collapse snd_conv)
  ultimately show ?thesis by (simp add: range_of_def Let_def)
qed

lemma in_map_filter: "x \<in> set (List.map_filter f xs) \<longleftrightarrow> (\<exists>y \<in> set xs. f y = Some x)"
  by (force simp: List.map_filter_def)

lemma range_of_hull:
  assumes "range_of got = (Some b, Some s)"
  shows "(\<forall>name addr size. (name, Some (addr, size)) \<in> set got \<longrightarrow> b \<le> addr \<and> addr + size \<le> b + s)
    \<and> (\<exists>name size. (name, Some (b, size)) \<in> set got)
    \<and> (\<exists>name addr size. (name, Some (addr, size)) \<in> set got \<and> addr + size = b + s)"
proof -
  let ?found = "List.map_filter snd got"
  have ne: "?found \<noteq> []" and b: "b = Min (set (map fst ?found))"
    and s: "b + s = Max (set (map (\<lambda>(addr, size). addr + size) ?found))"
    using assms by (auto simp: range_of_def Let_def split: if_splits)
  have "b \<in> set (map fst ?found)" unfolding b by (rule Min_in) (use ne in auto)
  moreover have "b + s \<in> set (map (\<lambda>(addr, size). addr + size) ?found)"
    unfolding s by (rule Max_in) (use ne in auto)
  moreover have "b \<le> addr \<and> addr + size \<le> b + s" if "(name, Some (addr, size)) \<in> set got" for name addr size
  proof -
    have "(addr, size) \<in> set ?found" using that by (force simp: in_map_filter)
    then have "addr \<in> set (map fst ?found)" "addr + size \<in> set (map (\<lambda>(addr, size). addr + size) ?found)"
      by force+
    then show ?thesis unfolding s unfolding b by (auto intro!: Min_le Max_ge)
  qed
  ultimately show ?thesis
    by (force simp: in_map_filter)
qed

lemma range_of_both: "(\<exists>b s. range_of got = (Some b, Some s)) \<or> range_of got = (None, None)"
  by (simp add: range_of_def Let_def)

lemma get_got_range_cached:
  "got_sections p = Some got \<Longrightarrow> get_got_range fs readelf (p, w) = (Inr (range_of got), (p, w))"
  by (simp add: get_got_range_def op_simps)

lemma get_got_range_ok:
  assumes "get_got_range fs readelf (p, w) = (Inr r, (p', w'))"
  shows "\<exists>got. got_sections p' = Some got \<and> r = range_of got \<and> w' = w
    \<and> (got_sections p = None \<longrightarrow> (\<exists>addrs. elf_parse fs readelf (p, w) = (Inr addrs, (p', w))))"
proof (cases "got_sections p")
  case (Some got)
  with assms show ?thesis by (auto simp: get_got_range_cached)
next
  case None
  obtain x p1 w1 where e: "elf_parse fs readelf (p, w) = (x, (p1, w1))" by (metis surj_pair)
  with None assms have "x \<noteq> Inl y" for y
    by (auto simp: get_got_range_def and_then_apply look_apply)
  then obtain addrs where x: "x = Inr addrs" by (cases x) auto
  with e elf_parse_ok [of fs readelf p w addrs p1 w1] obtain got where
    got: "got_sections p1 = Some got" "w1 = w" by auto
  with None assms e x show ?thesis
    by (auto simp: get_got_range_def and_then_apply look_apply ret_apply)
qed

text \<open>C15: the GOT range is the hull of the sections found: when there is none it is (None, None);
  otherwise it starts where some section starts, ends exactly where some section ends, and
  contains every one. A range is only ever returned for a file whose header fields agree with readelf's, and
  it is computed once: asking again gives the same range whatever has become of the file.\<close>

theorem got_range_hull_and_cache:
  fixes w :: 'w
  assumes "get_got_range fs readelf (new_elf_parser path, w) = (Inr (gb, gs), (p', w'))"
  shows "\<exists>got. got_sections p' = Some got \<and> w' = w
    \<and> ((gb, gs) = (None, None) \<longleftrightarrow> (\<forall>name info. (name, info) \<in> set got \<longrightarrow> info = None))
    \<and> (\<forall>name addr size. (name, Some (addr, size)) \<in> set got \<longrightarrow>
        (\<exists>b s. gb = Some b \<and> gs = Some s \<and> b \<le> addr \<and> addr + size \<le> b + s))
    \<and> (\<forall>b. gb = Some b \<longrightarrow> (\<exists>name size. (name, Some (b, size)) \<in> set got))
    \<and> (\<forall>b s. gb = Some b \<and> gs = Some s \<longrightarrow> (\<exists>name addr size. (name, Some (addr, size)) \<in> set got \<and> addr + size = b + s))
    \<and> (\<forall>fs' readelf' (w'' :: 'w). get_got_range fs' readelf' (p', w'') = (Inr (gb, gs), (p', w'')))
    \<and> (\<exists>shoff shnum idx txt vals. read_elf_header fs path () = (Inr (shoff, shnum, idx), ())
        \<and> readelf ''-h'' path = Inr txt \<and> parse_checkelf_file txt = Inr vals
        \<and> dict_get vals (lit ''re_e_shoff'') = Some shoff \<and> dict_get vals (lit ''re_e_shnum'') = Some shnum
        \<and> dict_get vals (lit ''re_e_shstrndx'') = Some idx)"
proof -
  from get_got_range_ok [OF assms] obtain got addrs where
    got: "got_sections p' = Some got" "(gb, gs) = range_of got" "w' = w" and
    run: "elf_parse fs readelf (new_elf_parser path, w) = (Inr addrs, (p', w))"
    by (auto simp: new_elf_parser_def)
  have hull: "(\<forall>name addr size. (name, Some (addr, size)) \<in> set got \<longrightarrow>
        (\<exists>b s. gb = Some b \<and> gs = Some s \<and> b \<le> addr \<and> addr + size \<le> b + s))
    \<and> (\<forall>b. gb = Some b \<longrightarrow> (\<exists>name size. (name, Some (b, size)) \<in> set got))
    \<and> (\<forall>b s. gb = Some b \<and> gs = Some s \<longrightarrow> (\<exists>name addr size. (name, Some (addr, size)) \<in> set got \<and> addr + size = b + s))"
  proof (cases "range_of got = (None, None)")
    case True
    with got(2) show ?thesis by (auto simp: range_of_found)
  next
    case False
    with range_of_both [of got] obtain b s where r: "range_of got = (Some b, Some s)" by blast
    with got(2) show ?thesis using range_of_hull [OF r] by auto
  qed
  have agree: "\<exists>shoff shnum idx txt vals. read_elf_header fs path () = (Inr (shoff, shnum, idx), ())
        \<and> readelf ''-h'' path = Inr txt \<and> parse_checkelf_file txt = Inr vals
        \<and> dict_get vals (lit ''re_e_shoff'') = Some shoff \<and> dict_get vals (lit ''re_e_shnum'') = Some shnum
        \<and> dict_get vals (lit ''re_e_shstrndx'') = Some idx"
    using run unfolding elf_parse_ok cross_check_ok by (auto simp: new_elf_parser_def)
  have "get_got_range fs' readelf' (p', w'') = (Inr (gb, gs), (p', w''))" for fs' readelf' and w'' :: 'w
    using get_got_range_cached [OF got(1)] got(2) by simp
  moreover have "(gb, gs) = (None, None) \<longleftrightarrow> (\<forall>name info. (name, info) \<in> set got \<longrightarrow> info = None)"
    using range_of_found [of got] got(2) by simp
  ultimately show ?thesis
    using got(1,3) hull agree by blast
qed

text \<open>A file with a header, the sample table behind it and the string table.\<close>

definition sample_file :: bytes where
  "sample_file = pack_le ELF64_HDR_FMT (header_fields (0x464c457f # replicate 10 1) 64 2 0)
     @ shdr 0 0 192 12 @ shdr 1 8192 512 32 @ [0, 46, 103, 111, 116, 0, 120, 0, 0, 0, 0, 0]"

definition sample_readelf :: str where
  "sample_readelf = lit ''  Start of section headers: 64 (bytes into file)'' @ [10]
     @ lit ''  Number of section headers: 2'' @ [10] @ lit ''  Section header string table index: 0'' @ [10]"

lemma sample_range:
  "get_got_range (\<lambda>_. Some sample_file) (\<lambda>_ _. Inr sample_readelf) (new_elf_parser (lit ''x''), ()) =
     (Inr (Some 8192, Some 32), (\<lparr>binary_path = lit ''x'',
       got_sections = Some [(lit ''.got'', Some (8192, 32)), (lit ''.got.plt'', None)]\<rparr>, ()))"
  by code_simp

lemma sample_range_any:
  "get_got_range (\<lambda>_. Some sample_file) (\<lambda>_ _. Inr sample_readelf) (new_elf_parser (lit ''x''), w) =
     (Inr (Some 8192, Some 32), (\<lparr>binary_path = lit ''x'',
       got_sections = Some [(lit ''.got'', Some (8192, 32)), (lit ''.got.plt'', None)]\<rparr>, w))"
proof -
  obtain addrs where "elf_parse (\<lambda>_. Some sample_file) (\<lambda>_ _. Inr sample_readelf) (new_elf_parser (lit ''x''), ()) =
      (Inr addrs, (\<lparr>binary_path = lit ''x'',
        got_sections = Some [(lit ''.got'', Some (8192, 32)), (lit ''.got.plt'', None)]\<rparr>, ()))"
    using get_got_range_ok [OF sample_range] by (auto simp: new_elf_parser_def)
  then have "elf_parse (\<lambda>_. Some sample_file) (\<lambda>_ _. Inr sample_readelf) (new_elf_parser (lit ''x''), w) =
      (Inr addrs, (\<lparr>binary_path = lit ''x'',
        got_sections = Some [(lit ''.got'', Some (8192, 32)), (lit ''.got.plt'', None)]\<rparr>, w))"
    unfolding elf_parse_ok by auto
  moreover have "range_of [(lit ''.got'', Some (8192, 32)), (lit ''.got.plt'', None)] = (Some 8192, Some 32)"
    using get_got_range_ok [OF sample_range] by (simp add: range_of_def)
  ultimately show ?thesis
    by (simp add: get_got_range_def and_then_apply look_apply ret_apply new_elf_parser_def)
qed

theorem got_range_hull_and_cache_witness:
  "get_got_range (\<lambda>_. None) (\<lambda>_ _. Inl FileNotFoundError) (\<lparr>binary_path = lit ''x'',
       got_sections = Some [(lit ''.got'', Some (8192, 32)), (lit ''.got.plt'', None)]\<rparr>, ()) =
     (Inr (Some 8192, Some 32), (\<lparr>binary_path = lit ''x'',
       got_sections = Some [(lit ''.got'', Some (8192, 32)), (lit ''.got.plt'', None)]\<rparr>, ()))"
  using got_range_hull_and_cache [OF sample_range] by blast

end
