(* ===== verification/Stage_Map.thy ===== *)
theory Stage_Map
  imports Prelude
begin

text \<open>
  \<open>xdr/correlation/stage_map.py\<close>: the table from detector event types to kill-chain
  stages, copied entry by entry, misspelling included: \<open>file_modified\<close> maps to
  \<open>persit\<close>.
\<close>

definition STAGE_MAP :: "(str, str) dict" where
  "STAGE_MAP =
     [(lit ''sctp_init_flood'', lit ''recon''),
      (lit ''tcp_hijack_seq_anomaly'', lit ''exploit''),
      (lit ''payload_scan_finding'', lit ''exploit''),
      (lit ''file_created'', lit ''persist''),
      (lit ''file_modified'', lit ''persit''),
      (lit ''ebpf_unexpected_bpf_syscall'', lit ''persist'')]"

definition get_stage :: "str \<Rightarrow> str option" where
  "get_stage event_type = dict_get STAGE_MAP event_type"

lemma get_stage_eq [text_simps]:
  "get_stage ty =
     (if ty = lit ''sctp_init_flood'' then Some (lit ''recon'')
      else if ty = lit ''tcp_hijack_seq_anomaly'' then Some (lit ''exploit'')
      else if ty = lit ''payload_scan_finding'' then Some (lit ''exploit'')
      else if ty = lit ''file_created'' then Some (lit ''persist'')
      else if ty = lit ''file_modified'' then Some (lit ''persit'')
      else if ty = lit ''ebpf_unexpected_bpf_syscall'' then Some (lit ''persist'')
      else None)"
  by (simp add: get_stage_def STAGE_MAP_def dict_get_def eq_commute)

lemma get_stage_recon: "get_stage ty = Some (lit ''recon'') \<longleftrightarrow> ty = lit ''sctp_init_flood''"
  by (simp add: get_stage_eq)

lemma get_stage_exploit:
  "get_stage ty = Some (lit ''exploit'') \<longleftrightarrow>
     ty = lit ''tcp_hijack_seq_anomaly'' \<or> ty = lit ''payload_scan_finding''"
  by (simp add: get_stage_eq)

lemma get_stage_persist:
  "get_stage ty = Some (lit ''persist'') \<longleftrightarrow>
     ty = lit ''file_created'' \<or> ty = lit ''ebpf_unexpected_bpf_syscall''"
  by (simp add: get_stage_eq)

lemmas stage_iffs = get_stage_recon get_stage_exploit get_stage_persist

end
