(* ===== verification/Kill_Chain.thy ===== *)
theory Kill_Chain
  imports Events Stage_Map "HOL-Library.Multiset"
begin

text \<open>
  \<open>xdr/correlation/kill_chain_rules.py\<close>: the sliding-window correlator. The window is the
  \<open>defaultdict(deque)\<close> as a dictionary from sources to event lists, oldest arrival first.
  An operation works on the correlator and the surrounding state \<open>'w\<close>, which holds the
  clock and whatever the incident callback changes.
\<close>

record kill_chain =
  window_duration :: pyfloat
  window :: "(str, event list) dict"

definition new_kill_chain :: "pyfloat \<Rightarrow> kill_chain" where
  "new_kill_chain d = \<lparr>window_duration = d, window = []\<rparr>"

definition REQUIRED_STAGES :: "str set" where
  "REQUIRED_STAGES = {lit ''recon'', lit ''exploit'', lit ''persist''}"

type_synonym ('w, 'a) kc_op = "(kill_chain \<times> 'w, 'a) op"

section \<open>Operations\<close>

text \<open>Reading a missing key of the \<open>defaultdict\<close> stores an empty deque there.\<close>

definition window_of :: "kill_chain \<Rightarrow> str \<Rightarrow> event list" where
  "window_of k src = (case dict_get (window k) src of None \<Rightarrow> [] | Some q \<Rightarrow> q)"

definition append_event :: "event \<Rightarrow> kill_chain \<Rightarrow> kill_chain" where
  "append_event e k =
     k\<lparr>window := dict_set (ev_src e) (window_of k (ev_src e) @ [e]) (window k)\<rparr>"

fun pop_stale :: "pyfloat \<Rightarrow> event list \<Rightarrow> event list" where
  "pop_stale cutoff [] = []"
| "pop_stale cutoff (e # q) = (if ev_timestamp e < cutoff then pop_stale cutoff q else e # q)"

definition prune_at :: "pyfloat \<Rightarrow> str \<Rightarrow> kill_chain \<Rightarrow> kill_chain" where
  "prune_at cutoff src k =
     (let q = pop_stale cutoff (window_of k src) in
      if q = [] then k\<lparr>window := dict_del src (window k)\<rparr>
      else k\<lparr>window := dict_set src q (window k)\<rparr>)"

definition prune_window :: "str \<Rightarrow> ('a env_scheme, unit) kc_op" where
  "prune_window src =
     and_then (outside time_now) (\<lambda>now.
       change (\<lambda>(k, w). (prune_at (float_sub now (window_duration k)) src k, w)))"

definition evaluate_kill_chain :: "str \<Rightarrow> kill_chain \<Rightarrow> bool" where
  "evaluate_kill_chain src k =
     (case dict_get (window k) src of
        None \<Rightarrow> False
      | Some q \<Rightarrow>
          (let present_stages = set (map (\<lambda>e. get_stage (ev_type e)) q) - {None}
           in Some ` REQUIRED_STAGES \<subseteq> present_stages))"

definition timeline_entry :: "event \<Rightarrow> pyval" where
  "timeline_entry e = PDict
     [(lit ''uuid'', PStr (ev_uuid e)), (lit ''timestamp'', PFloat (ev_timestamp e)),
      (lit ''vector'', PStr (vector_value (ev_vector e))), (lit ''event_type'', PStr (ev_type e)),
      (lit ''severity'', PInt (ev_severity e)), (lit ''metadata'', PDict (ev_metadata e))]"

definition total_severity :: "event list \<Rightarrow> int" where
  "total_severity es = sum_list (map ev_severity es)"

definition max_severity :: "event list \<Rightarrow> int" where
  "max_severity es = (if es = [] then 1 else foldl max (ev_severity (hd es)) (map ev_severity (tl es)))"

definition risk_score :: "event list \<Rightarrow> pyfloat" where
  "risk_score es =
     round2 (float_mult (int_truediv (total_severity es) (int (length es) * 5)) 100)"

definition incident_report :: "str \<Rightarrow> pyfloat \<Rightarrow> pyfloat \<Rightarrow> event list \<Rightarrow> pyval" where
  "incident_report src duration now correlated = PDict
     [(lit ''incident_type'', PStr (lit ''correlated_apt_kill_chain'')),
      (lit ''source_ip'', PStr src),
      (lit ''correlation_window_seconds'', PFloat duration),
      (lit ''generated_at'', PFloat now),
      (lit ''summary'', PDict
        [(lit ''total_events_involved'', PInt (int (length correlated))),
         (lit ''max_event_severity'', PInt (max_severity correlated)),
         (lit ''calculated_risk_score'', PFloat (risk_score correlated))]),
      (lit ''timeline'', PList (map timeline_entry correlated))]"

definition dispatch_incident :: "(pyval \<Rightarrow> ('w, unit) op) option \<Rightarrow> pyval \<Rightarrow> ('w, unit) kc_op" where
  "dispatch_incident on_incident report =
     (case on_incident of None \<Rightarrow> ret () | Some f \<Rightarrow> outside (f report))"

text \<open>Division by the number of events raises on an empty window.\<close>

definition escalate ::
  "(pyval \<Rightarrow> ('a env_scheme, unit) op) option \<Rightarrow> str \<Rightarrow> ('a env_scheme, unit) kc_op" where
  "escalate on_incident src =
     and_then (ask (\<lambda>(k, w). (sort_key ev_timestamp (window_of k src), window_duration k)))
       (\<lambda>(correlated, duration). and_then (outside time_now) (\<lambda>now.
         if correlated = [] then raise_err ZeroDivisionError
         else and_then (json_dumps (incident_report src duration now correlated))
                (dispatch_incident on_incident)))"

definition add_event ::
  "(pyval \<Rightarrow> ('a env_scheme, unit) op) option \<Rightarrow> event \<Rightarrow> ('a env_scheme, unit) kc_op" where
  "add_event on_incident e =
     and_then (change (\<lambda>(k, w). (append_event e k, w))) (\<lambda>_.
       and_then (prune_window (ev_src e)) (\<lambda>_.
         and_then (ask (\<lambda>(k, w). evaluate_kill_chain (ev_src e) k)) (\<lambda>complete.
           if complete then escalate on_incident (ev_src e) else ret ())))"

section \<open>The window\<close>

lemma pop_stale_eq: "pop_stale cutoff q = dropWhile (\<lambda>e. ev_timestamp e < cutoff) q"
  by (induction q) simp_all

lemma pop_stale_sorted:
  "sorted (map ev_timestamp q) \<Longrightarrow> pop_stale cutoff q = filter (\<lambda>e. cutoff \<le> ev_timestamp e) q"
proof (induction q)
  case Nil
  then show ?case by simp
next
  case (Cons e q)
  show ?case
  proof (cases "ev_timestamp e < cutoff")
    case True
    with Cons show ?thesis by simp
  next
    case False
    with Cons.prems have "\<forall>x \<in> set q. cutoff \<le> ev_timestamp x" by fastforce
    with False show ?thesis by (simp add: filter_id_conv)
  qed
qed

text \<open>What one \<open>add_event\<close> does to the window, when the clock reads \<open>now\<close>.\<close>

definition slide :: "pyfloat \<Rightarrow> event \<Rightarrow> kill_chain \<Rightarrow> kill_chain" where
  "slide now e k = prune_at (float_sub now (window_duration k)) (ev_src e) (append_event e k)"

lemma window_of_append [simp]:
  "window_of (append_event e k) src = (if src = ev_src e then window_of k src @ [e] else window_of k src)"
  by (simp add: append_event_def window_of_def)

lemma window_of_prune [simp]:
  "window_of (prune_at c src k) s = (if s = src then pop_stale c (window_of k src) else window_of k s)"
  by (simp add: prune_at_def window_of_def Let_def)

lemma durations [simp]:
  "window_duration (append_event e k) = window_duration k"
  "window_duration (prune_at c src k) = window_duration k"
  "window_duration (slide now e k) = window_duration k"
  by (simp_all add: append_event_def prune_at_def slide_def Let_def)

lemma window_of_slide:
  "window_of (slide now e k) s =
     (if s = ev_src e
      then pop_stale (float_sub now (window_duration k)) (window_of k s @ [e])
      else window_of k s)"
  by (auto simp: slide_def)

lemma dict_get_slide:
  "dict_get (window (slide now e k)) s =
     (if s = ev_src e
      then (case window_of (slide now e k) s of [] \<Rightarrow> None | x # xs \<Rightarrow> Some (x # xs))
      else dict_get (window k) s)"
  by (auto simp: slide_def prune_at_def append_event_def window_of_def Let_def
      split: list.splits option.splits)

lemma add_event_unfold:
  "add_event on_incident e (k, w) =
     (let now = env_clock w (env_reads w); k' = slide now e k;
          w' = w\<lparr>env_reads := Suc (env_reads w)\<rparr>
      in if evaluate_kill_chain (ev_src e) k' then escalate on_incident (ev_src e) (k', w')
         else (Inr (), (k', w')))"
  by (simp add: add_event_def prune_window_def op_simps slide_def Let_def)

text \<open>The correlator itself is changed by the window step only, however the call ends.\<close>

lemma escalate_keeps: "fst (snd (escalate on_incident src (k, w))) = k"
  by (auto simp: escalate_def dispatch_incident_def json_dumps_def op_simps
      split: option.splits prod.splits sum.splits)

lemma add_event_window:
  "fst (snd (add_event on_incident e (k, w))) = slide (env_clock w (env_reads w)) e k"
  by (simp add: add_event_unfold Let_def escalate_keeps)

section \<open>When an incident is raised\<close>

definition stage_present :: "string \<Rightarrow> event list \<Rightarrow> bool" where
  "stage_present st q \<longleftrightarrow> (\<exists>e \<in> set q. get_stage (ev_type e) = Some (lit st))"

lemma stage_present_image: "stage_present st q \<longleftrightarrow> Some (lit st) \<in> set (map (\<lambda>e. get_stage (ev_type e)) q)"
  by (auto simp: stage_present_def image_iff) metis+

lemma evaluate_iff:
  "evaluate_kill_chain src k \<longleftrightarrow>
     stage_present ''recon'' (window_of k src) \<and> stage_present ''exploit'' (window_of k src)
     \<and> stage_present ''persist'' (window_of k src)"
proof (cases "dict_get (window k) src")
  case None
  then show ?thesis by (simp add: evaluate_kill_chain_def window_of_def stage_present_def)
next
  case (Some q)
  then show ?thesis
    by (simp add: evaluate_kill_chain_def window_of_def stage_present_image REQUIRED_STAGES_def
        del: set_map)
qed

text \<open>An incident callback that records the report and cannot fail.\<close>

definition escalated :: "str \<Rightarrow> pyfloat \<Rightarrow> kill_chain \<Rightarrow> pyval" where
  "escalated src now k =
     incident_report src (window_duration k) now (sort_key ev_timestamp (window_of k src))"

definition metadata_ok :: "event \<Rightarrow> bool" where
  "metadata_ok e \<longleftrightarrow> json_ok (PDict (ev_metadata e))"

lemma incident_report_json:
  "\<forall>e \<in> set es. metadata_ok e \<Longrightarrow> json_ok (incident_report src d now es)"
  by (simp add: incident_report_def timeline_entry_def metadata_ok_def list_all_iff)

lemma window_nonempty: "evaluate_kill_chain src k \<Longrightarrow> window_of k src \<noteq> []"
  by (auto simp: evaluate_iff stage_present_def)

lemma sort_key_Nil_iff [simp]: "sort_key f xs = [] \<longleftrightarrow> xs = []"
  by (metis length_0_conv length_sort)

lemma escalate_runs:
  assumes "window_of k src \<noteq> []" and "\<forall>e \<in> set (window_of k src). metadata_ok e"
  shows "escalate (Some f) src (k, w) =
    (let now = env_clock w (env_reads w); r = f (escalated src now k) (w\<lparr>env_reads := Suc (env_reads w)\<rparr>)
     in (fst r, (k, snd r)))"
  using assms incident_report_json [of "sort_key ev_timestamp (window_of k src)"]
  by (simp add: escalate_def op_simps json_dumps_def dispatch_incident_def escalated_def Let_def)

text \<open>C1: adding an event slides its source's window (append, then drop from the oldest arrival
  while it is older than the cutoff) and raises an incident exactly when the resulting window
  holds a recon, an exploit and a persist event; the incident handed to the callback is the
  report of that window, built at the next clock reading. With metadata that JSON can carry the
  call fails only if the callback does.\<close>

theorem add_event_escalates_iff:
  assumes "\<forall>e' \<in> set (window_of k (ev_src e) @ [e]). metadata_ok e'"
  shows "add_event (Some f) e (k, w) =
    (let k' = slide (env_clock w (env_reads w)) e k; q = window_of k' (ev_src e);
         w' = w\<lparr>env_reads := Suc (env_reads w)\<rparr>
     in if stage_present ''recon'' q \<and> stage_present ''exploit'' q \<and> stage_present ''persist'' q
        then (let r = f (escalated (ev_src e) (env_clock w (Suc (env_reads w))) k')
                        (w\<lparr>env_reads := Suc (Suc (env_reads w))\<rparr>)
              in (fst r, (k', snd r)))
        else (Inr (), (k', w')))"
proof -
  let ?k = "slide (env_clock w (env_reads w)) e k"
  have "set (window_of ?k (ev_src e)) \<subseteq> set (window_of k (ev_src e) @ [e])"
    by (auto simp: window_of_slide pop_stale_eq dest: set_dropWhileD)
  with assms have "\<forall>e' \<in> set (window_of ?k (ev_src e)). metadata_ok e'" by blast
  then show ?thesis
    using window_nonempty [of "ev_src e" ?k]
    by (simp add: add_event_unfold escalate_runs evaluate_iff Let_def)
qed

text \<open>The three events of a complete chain from one source.\<close>

definition chain_window :: kill_chain where
  "chain_window = \<lparr>window_duration = 300, window =
     [(lit ''10.0.0.9'', [sample_event ''sctp_init_flood'' ''10.0.0.9'' 4 990,
                          sample_event ''payload_scan_finding'' ''10.0.0.9'' 3 995])]\<rparr>"

definition chain_event :: event where
  "chain_event = sample_event ''file_created'' ''10.0.0.9'' 1 999"

lemmas chain_defs = chain_window_def chain_event_def sample_event_def sample_env_def

lemma chain_slide:
  "window_of (slide (env_clock sample_env 0) chain_event chain_window) (lit ''10.0.0.9'') =
     [sample_event ''sctp_init_flood'' ''10.0.0.9'' 4 990,
      sample_event ''payload_scan_finding'' ''10.0.0.9'' 3 995, chain_event]"
proof -
  have "float_sub 1000 300 = 700"
    by (simp add: float_sub_def)
  then show ?thesis
    by (simp add: window_of_slide chain_defs) (simp add: window_of_def dict_get_def)
qed

theorem add_event_escalates_iff_witness:
  "fst (add_event (Some (\<lambda>report. raise_err TypeError)) chain_event (chain_window, sample_env)) = Inl TypeError"
proof -
  have "\<forall>e' \<in> set (window_of chain_window (ev_src chain_event) @ [chain_event]). metadata_ok e'"
    by (simp add: window_of_def dict_get_def chain_defs metadata_ok_def)
  from add_event_escalates_iff [OF this, of "\<lambda>report. raise_err TypeError" sample_env] chain_slide
  show ?thesis
    by (simp add: Let_def op_simps stage_present_def stage_iffs)
      (simp add: chain_defs stage_present_def stage_iffs op_simps)
qed

section \<open>The incident report\<close>

definition report_field :: "string \<Rightarrow> pyval \<Rightarrow> pyval option" where
  "report_field key v = (case v of PDict d \<Rightarrow> dict_get d (lit key) | _ \<Rightarrow> None)"

lemma foldl_max_Max: "foldl max a xs = Max (set (a # xs))" for a :: int
proof (induction xs arbitrary: a)
  case Nil
  then show ?case by simp
next
  case (Cons x xs)
  then show ?case by (cases "xs = []") (simp_all add: max.assoc)
qed

lemma max_severity_Max: "es \<noteq> [] \<Longrightarrow> max_severity es = Max (ev_severity ` set es)"
  by (cases es) (simp_all add: max_severity_def foldl_max_Max)

lemma total_severity_bounds:
  "\<forall>e \<in> set es. event_ok e \<Longrightarrow> int (length es) \<le> total_severity es \<and> total_severity es \<le> int (length es) * 5"
  by (induction es) (auto simp: total_severity_def event_ok_def)

lemma severity_ratio:
  assumes "\<forall>e \<in> set es. event_ok e" "es \<noteq> []"
  shows "1 / 5 \<le> of_int (total_severity es) / (of_int (int (length es) * 5) :: rat)"
    and "of_int (total_severity es) / (of_int (int (length es) * 5) :: rat) \<le> 1"
proof -
  have pos: "0 < (of_int (int (length es) * 5) :: rat)" using assms(2) by simp
  have lo: "(of_int (int (length es)) :: rat) \<le> of_int (total_severity es)"
    and hi: "(of_int (total_severity es) :: rat) \<le> of_int (int (length es) * 5)"
    using total_severity_bounds [OF assms(1)] by (simp_all only: of_int_le_iff)
  show "1 / 5 \<le> of_int (total_severity es) / (of_int (int (length es) * 5) :: rat)"
    using lo pos by (simp add: field_simps)
  show "of_int (total_severity es) / (of_int (int (length es) * 5) :: rat) \<le> 1"
    using hi pos by (simp add: field_simps)
qed

lemma risk_floor: "round2 (float_mult (fl (1 / 5)) 100) = 20"
  by code_simp

lemma round2_mono: "x \<le> y \<Longrightarrow> round2 x \<le> round2 y"
  by (auto simp: round2_def intro!: fl_mono divide_right_mono round_even_mono mult_right_mono)

lemma risk_score_bounds:
  assumes "\<forall>e \<in> set es. event_ok e" "es \<noteq> []"
  shows "20 \<le> risk_score es \<and> risk_score es \<le> 100"
proof -
  let ?r = "of_int (total_severity es) / (of_int (int (length es) * 5) :: rat)"
  note R = severity_ratio [OF assms]
  have "0 \<le> ?r" using R(1) by linarith
  have le: "risk_score es \<le> 100"
    using round2_between [of "fl (fl ?r * 100)"] binary64.rnd_percentage [OF \<open>0 \<le> ?r\<close> R(2)]
    by (simp add: risk_score_def int_truediv_def float_mult_def)
  have "fl (1 / 5) * 100 \<le> fl ?r * 100" using fl_mono [OF R(1)] by simp
  then have "round2 (fl (fl (1 / 5) * 100)) \<le> round2 (fl (fl ?r * 100))"
    by (intro round2_mono fl_mono)
  then have "20 \<le> risk_score es"
    using risk_floor by (simp add: risk_score_def int_truediv_def float_mult_def)
  with le show ?thesis by simp
qed

text \<open>C29: the report of a non-empty window of valid events names the source and counts the
  window's events; its timeline is that window sorted by timestamp, a permutation in which
  events with equal timestamps keep their arrival order; its maximal severity is the largest
  severity in the window and its risk score, computed in rounded arithmetic, lies in 20..100.\<close>

theorem incident_report_content:
  assumes "window_of k src \<noteq> []" and "\<forall>e \<in> set (window_of k src). event_ok e"
  shows "\<exists>es risk summary.
      mset es = mset (window_of k src) \<and> sorted (map ev_timestamp es)
    \<and> (\<forall>t. filter (\<lambda>e. ev_timestamp e = t) es = filter (\<lambda>e. ev_timestamp e = t) (window_of k src))
    \<and> report_field ''source_ip'' (escalated src now k) = Some (PStr src)
    \<and> report_field ''timeline'' (escalated src now k) = Some (PList (map timeline_entry es))
    \<and> report_field ''summary'' (escalated src now k) = Some summary
    \<and> report_field ''total_events_involved'' summary = Some (PInt (int (length (window_of k src))))
    \<and> report_field ''max_event_severity'' summary = Some (PInt (Max (ev_severity ` set (window_of k src))))
    \<and> report_field ''calculated_risk_score'' summary = Some (PFloat risk)
    \<and> 20 \<le> risk \<and> risk \<le> 100"
proof -
  let ?es = "sort_key ev_timestamp (window_of k src)"
  have "20 \<le> risk_score ?es \<and> risk_score ?es \<le> 100"
    using risk_score_bounds [of ?es] assms by simp
  then show ?thesis
    using assms
    by (intro exI [of _ ?es] exI [of _ "risk_score ?es"])
      (simp add: escalated_def incident_report_def report_field_def dict_get_def max_severity_Max
        sort_key_stable)
qed

theorem incident_report_content_witness:
  "\<exists>es risk. mset es = mset [sample_event ''sctp_init_flood'' ''10.0.0.9'' 4 990,
        sample_event ''payload_scan_finding'' ''10.0.0.9'' 3 995]
     \<and> report_field ''timeline'' (escalated (lit ''10.0.0.9'') 5 chain_window) = Some (PList (map timeline_entry es))
     \<and> 20 \<le> risk \<and> risk \<le> (100::rat)"
proof -
  have w: "window_of chain_window (lit ''10.0.0.9'') = [sample_event ''sctp_init_flood'' ''10.0.0.9'' 4 990,
      sample_event ''payload_scan_finding'' ''10.0.0.9'' 3 995]"
    by (simp add: window_of_def dict_get_def chain_window_def)
  then have "window_of chain_window (lit ''10.0.0.9'') \<noteq> []"
    "\<forall>e \<in> set (window_of chain_window (lit ''10.0.0.9'')). event_ok e"
    by (simp_all add: event_ok_def sample_event_def)
  from incident_report_content [OF this, of 5] show ?thesis unfolding w by blast
qed

section \<open>Sources and stages that do not interact\<close>

text \<open>C36: the stage table misspells the stage of file modifications, so they never count towards
  a chain: a window whose only host events are file modifications, renames and deletions is not
  complete, whatever else it holds from the network detectors.\<close>

theorem file_modified_never_completes:
  assumes "\<forall>e \<in> set (window_of k src). ev_type e \<in> {lit ''sctp_init_flood'',
      lit ''tcp_hijack_seq_anomaly'', lit ''payload_scan_finding'', lit ''file_modified'',
      lit ''file_deleted'', lit ''file moved''}"
  shows "\<not> evaluate_kill_chain src k"
  using assms by (auto simp: evaluate_iff stage_present_def stage_iffs)

theorem file_modified_never_completes_witness:
  "\<not> evaluate_kill_chain (lit ''h'') \<lparr>window_duration = 300, window = [(lit ''h'',
      [sample_event ''sctp_init_flood'' ''h'' 4 1, sample_event ''payload_scan_finding'' ''h'' 3 2,
       sample_event ''file_modified'' ''h'' 1 3])]\<rparr>"
  by (rule file_modified_never_completes) (simp add: window_of_def dict_get_def sample_event_def)

text \<open>An event touches the window of its own source only, whether or not an incident is
  raised and however the call ends; no window keeps an empty entry for that source.\<close>

theorem add_event_isolates_sources:
  assumes "src \<noteq> ev_src e"
  shows "dict_get (window (fst (snd (add_event on_incident e (k, w))))) src = dict_get (window k) src
    \<and> dict_get (window (fst (snd (add_event on_incident e (k, w))))) (ev_src e) \<noteq> Some []
    \<and> window_duration (fst (snd (add_event on_incident e (k, w)))) = window_duration k"
  using assms by (auto simp: add_event_window dict_get_slide split: list.splits)

theorem add_event_isolates_sources_witness:
  "dict_get (window (fst (snd (add_event None (sample_event ''file_created'' ''/tmp/x'' 1 999)
      (chain_window, sample_env))))) (lit ''10.0.0.9'') = dict_get (window chain_window) (lit ''10.0.0.9'')"
  using add_event_isolates_sources [of "lit ''10.0.0.9''" "sample_event ''file_created'' ''/tmp/x'' 1 999"
      None chain_window sample_env]
  by (simp add: sample_event_def)

end
