(* ===== verification/Kill_Chain_Spec.thy ===== *)
theory Kill_Chain_Spec
  imports Kill_Chain
begin

text \<open>
  What a sliding window promises, and the proof that the correlator keeps the promise. The
  abstract state is the history of all events with, for every source, the cutoff of its latest
  addition; its window is a filter of the history. The correlator's dictionary of deques refines
  it as long as each source's events arrive in timestamp order. \<open>incident_sink\<close> is the
  contract of the incident callback under which a whole run can be followed.
\<close>

section \<open>The abstract window\<close>

record window_spec =
  history :: "event list"
  cutoffs :: "str \<Rightarrow> pyfloat option"

definition spec_empty :: window_spec where
  "spec_empty = \<lparr>history = [], cutoffs = (\<lambda>_. None)\<rparr>"

definition spec_add :: "pyfloat \<Rightarrow> pyfloat \<Rightarrow> event \<Rightarrow> window_spec \<Rightarrow> window_spec" where
  "spec_add duration now e sp =
     \<lparr>history = history sp @ [e], cutoffs = (cutoffs sp)(ev_src e \<mapsto> float_sub now duration)\<rparr>"

definition from_src :: "str \<Rightarrow> event list \<Rightarrow> event list" where
  "from_src src es = filter (\<lambda>e. ev_src e = src) es"

definition recent :: "pyfloat option \<Rightarrow> event \<Rightarrow> bool" where
  "recent c e \<longleftrightarrow> (case c of None \<Rightarrow> True | Some c \<Rightarrow> c \<le> ev_timestamp e)"

lemma recent_simps [simp]: "recent None = (\<lambda>e. True)" "recent (Some c) = (\<lambda>e. c \<le> ev_timestamp e)"
  by (simp_all add: recent_def fun_eq_iff)

definition spec_window :: "window_spec \<Rightarrow> str \<Rightarrow> event list" where
  "spec_window sp src = filter (recent (cutoffs sp src)) (from_src src (history sp))"

definition arrival_ordered :: "event list \<Rightarrow> bool" where
  "arrival_ordered es \<longleftrightarrow> (\<forall>src. sorted (map ev_timestamp (from_src src es)))"

definition refines_window :: "kill_chain \<Rightarrow> window_spec \<Rightarrow> bool" where
  "refines_window k sp \<longleftrightarrow> (\<forall>src. dict_get (window k) src =
     (case spec_window sp src of [] \<Rightarrow> None | x # xs \<Rightarrow> Some (x # xs)))"

lemma from_src_append [simp]:
  "from_src src (es @ [e]) = from_src src es @ (if ev_src e = src then [e] else [])"
  by (simp add: from_src_def)

lemma arrival_ordered_prefix: "arrival_ordered (es @ fs) \<Longrightarrow> arrival_ordered es"
  by (simp add: arrival_ordered_def from_src_def sorted_append)

lemma refines_window_of: "refines_window k sp \<Longrightarrow> window_of k src = spec_window sp src"
  by (simp add: refines_window_def window_of_def split: list.splits)

lemma refines_empty: "refines_window (new_kill_chain d) spec_empty"
  by (simp add: refines_window_def new_kill_chain_def spec_window_def spec_empty_def from_src_def)

lemma sorted_filter_key: "sorted (map f xs) \<Longrightarrow> sorted (map f (filter P xs))"
  by (rule sorted_filter)

text \<open>A later cutoff drops from the filtered window what it drops from the whole history.\<close>

lemma spec_window_add:
  assumes "arrival_ordered (history sp @ [e])"
    and "\<And>c. cutoffs sp (ev_src e) = Some c \<Longrightarrow> c \<le> float_sub now d"
  shows "spec_window (spec_add d now e sp) (ev_src e)
       = pop_stale (float_sub now d) (spec_window sp (ev_src e) @ [e])"
proof -
  let ?h = "from_src (ev_src e) (history sp)" and ?c = "float_sub now d"
  have sorted: "sorted (map ev_timestamp (?h @ [e]))"
    using assms(1) by (auto simp: arrival_ordered_def dest: spec [of _ "ev_src e"])
  have "sorted (map ev_timestamp (filter (recent (cutoffs sp (ev_src e))) ?h @ [e]))"
    using sorted by (auto simp: sorted_append sorted_filter_key)
  then have "pop_stale ?c (spec_window sp (ev_src e) @ [e])
      = filter (\<lambda>x. ?c \<le> ev_timestamp x) (filter (recent (cutoffs sp (ev_src e))) ?h @ [e])"
    by (simp only: spec_window_def pop_stale_sorted)
  also have "\<dots> = filter (\<lambda>x. ?c \<le> ev_timestamp x) (?h @ [e])"
    using assms(2) by (cases "cutoffs sp (ev_src e)") (auto intro!: filter_cong dest: order_trans)
  finally show ?thesis
    by (simp add: spec_window_def spec_add_def)
qed

text \<open>One addition: the correlator's step is simulated by the abstract one.\<close>

lemma slide_refines:
  assumes "refines_window k sp" and "arrival_ordered (history sp @ [e])"
    and "\<And>c. cutoffs sp (ev_src e) = Some c \<Longrightarrow> c \<le> float_sub now (window_duration k)"
  shows "refines_window (slide now e k) (spec_add (window_duration k) now e sp)"
proof -
  have other: "spec_window (spec_add (window_duration k) now e sp) src = spec_window sp src"
    if "src \<noteq> ev_src e" for src
    using that by (simp add: spec_window_def spec_add_def)
  show ?thesis
    unfolding refines_window_def
  proof (intro allI)
    fix src
    show "dict_get (window (slide now e k)) src =
        (case spec_window (spec_add (window_duration k) now e sp) src of [] \<Rightarrow> None | x # xs \<Rightarrow> Some (x # xs))"
    proof (cases "src = ev_src e")
      case True
      then show ?thesis
        using spec_window_add [OF assms(2,3)] refines_window_of [OF assms(1)]
        by (simp add: dict_get_slide window_of_slide)
    next
      case False
      with assms(1) other show ?thesis
        by (simp add: dict_get_slide refines_window_def)
    qed
  qed
qed

section \<open>Runs against an incident sink\<close>

text \<open>The callback never raises and only moves the clock forward.\<close>

locale incident_sink =
  fixes sink :: "pyval \<Rightarrow> ('a env_scheme, unit) op"
  assumes sink_returns: "fst (sink r w) = Inr ()"
    and sink_clock: "env_clock (snd (sink r w)) = env_clock w"
    and sink_reads: "env_reads w \<le> env_reads (snd (sink r w))"
begin

lemma add_event_total:
  assumes "\<forall>e' \<in> set (window_of k (ev_src e) @ [e]). metadata_ok e'"
  shows "\<exists>w'. add_event (Some sink) e (k, w) = (Inr (), (slide (env_clock w (env_reads w)) e k, w'))
    \<and> env_clock w' = env_clock w \<and> env_reads w < env_reads w'"
proof -
  let ?k = "slide (env_clock w (env_reads w)) e k"
  let ?w = "w\<lparr>env_reads := Suc (env_reads w)\<rparr>"
  have "set (window_of ?k (ev_src e)) \<subseteq> set (window_of k (ev_src e) @ [e])"
    by (auto simp: window_of_slide pop_stale_eq dest: set_dropWhileD)
  with assms have meta: "\<forall>e' \<in> set (window_of ?k (ev_src e)). metadata_ok e'" by blast
  show ?thesis
  proof (cases "evaluate_kill_chain (ev_src e) ?k")
    case True
    have "escalate (Some sink) (ev_src e) (?k, ?w) = (Inr (), (?k, snd (sink (escalated (ev_src e)
        (env_clock w (Suc (env_reads w))) ?k) (?w\<lparr>env_reads := Suc (env_reads ?w)\<rparr>))))"
      using escalate_runs [OF window_nonempty [OF True] meta, of sink ?w] sink_returns
      by (simp add: Let_def)
    moreover have "env_reads w < env_reads (snd (sink r (?w\<lparr>env_reads := Suc (env_reads ?w)\<rparr>)))" for r
      using sink_reads [of "?w\<lparr>env_reads := Suc (env_reads ?w)\<rparr>" r] by simp
    ultimately show ?thesis
      using True sink_clock by (auto simp: add_event_unfold Let_def)
  next
    case False
    then show ?thesis by (simp add: add_event_unfold Let_def)
  qed
qed

end

text \<open>
  A handler that slides the window of each event it is given and otherwise only lets time pass:
  \<open>add_event\<close> with a well-behaved callback is one, and so is any code that wraps it.
\<close>

locale window_handler =
  fixes handle :: "event \<Rightarrow> (kill_chain \<times> 'a env_scheme, unit) op"
  assumes handle_total: "\<forall>e' \<in> set (window_of k (ev_src e) @ [e]). metadata_ok e' \<Longrightarrow>
    \<exists>w'. handle e (k, w) = (Inr (), (slide (env_clock w (env_reads w)) e k, w'))
      \<and> env_clock w' = env_clock w \<and> env_reads w < env_reads w'"

sublocale incident_sink \<subseteq> window_handler "add_event (Some sink)"
  by unfold_locales (rule add_event_total)

text \<open>The clock readings at which the successive additions prune.\<close>

fun prune_times ::
  "(event \<Rightarrow> (kill_chain \<times> 'a env_scheme, unit) op) \<Rightarrow> event list \<Rightarrow> kill_chain \<times> 'a env_scheme \<Rightarrow> pyfloat list" where
  "prune_times h [] s = []"
| "prune_times h (e # es) s =
     env_clock (snd s) (env_reads (snd s)) # prune_times h es (snd (h e s))"

definition spec_run :: "pyfloat \<Rightarrow> pyfloat list \<Rightarrow> event list \<Rightarrow> window_spec \<Rightarrow> window_spec" where
  "spec_run d nows es sp = fold (\<lambda>(now, e). spec_add d now e) (zip nows es) sp"

definition cuts_passed :: "pyfloat \<Rightarrow> window_spec \<Rightarrow> 'a env_scheme \<Rightarrow> bool" where
  "cuts_passed d sp w \<longleftrightarrow>
     (\<forall>src c. cutoffs sp src = Some c \<longrightarrow> c \<le> float_sub (env_clock w (env_reads w)) d)"

context window_handler
begin

lemma refines_metadata:
  "refines_window k sp \<Longrightarrow> \<forall>e \<in> set (history sp). metadata_ok e \<Longrightarrow> \<forall>e \<in> set (window_of k src). metadata_ok e"
  by (auto simp: refines_window_of spec_window_def from_src_def)

lemma run_refines:
  assumes "refines_window k sp" "cuts_passed (window_duration k) sp w" "clock_monotone w"
    and "arrival_ordered (history sp @ es)" "\<forall>e \<in> set (history sp @ es). metadata_ok e"
  shows "\<exists>k' w'. for_each handle es (k, w) = (Inr (), (k', w'))
    \<and> refines_window k' (spec_run (window_duration k) (prune_times handle es (k, w)) es sp)"
  using assms
proof (induction es arbitrary: k sp w)
  case Nil
  then show ?case by (simp add: op_simps spec_run_def)
next
  case (Cons e es)
  let ?now = "env_clock w (env_reads w)"
  let ?sp = "spec_add (window_duration k) ?now e sp"
  have "\<forall>e' \<in> set (window_of k (ev_src e) @ [e]). metadata_ok e'"
    using refines_metadata [OF Cons.prems(1)] Cons.prems(5) by simp
  then obtain w' where add: "handle e (k, w) = (Inr (), (slide ?now e k, w'))"
    and clock: "env_clock w' = env_clock w" "env_reads w < env_reads w'"
    using handle_total by blast
  have ord: "arrival_ordered (history sp @ [e])"
    using Cons.prems(4) arrival_ordered_prefix [of "history sp @ [e]" es] by simp
  have "refines_window (slide ?now e k) ?sp"
    using Cons.prems(2) by (intro slide_refines [OF Cons.prems(1) ord]) (simp add: cuts_passed_def)
  moreover have "cuts_passed (window_duration (slide ?now e k)) ?sp w'"
  proof -
    have "?now \<le> env_clock w' (env_reads w')"
      using Cons.prems(3) clock by (simp add: clock_monotone_def)
    then have "float_sub ?now (window_duration k) \<le> float_sub (env_clock w' (env_reads w')) (window_duration k)"
      by (simp add: float_sub_def binary64.rnd_diff_mono)
    with Cons.prems(2) show ?thesis
      by (fastforce simp: cuts_passed_def spec_add_def split: if_splits)
  qed
  moreover have "clock_monotone w'" using Cons.prems(3) clock by (simp add: clock_monotone_def)
  moreover have "arrival_ordered (history ?sp @ es)" "\<forall>e \<in> set (history ?sp @ es). metadata_ok e"
    using Cons.prems(4,5) by (simp_all add: spec_add_def)
  ultimately show ?case
    using Cons.IH [of "slide ?now e k" ?sp w'] add by (simp add: spec_run_def)
qed

text \<open>From the start: a run never fails and leaves, for every source, the window of the history.\<close>

lemma run_window:
  assumes "clock_monotone w" "arrival_ordered es" "\<forall>e \<in> set es. metadata_ok e"
  shows "fst (for_each handle es (new_kill_chain d, w)) = Inr ()"
    and "window_of (fst (snd (for_each handle es (new_kill_chain d, w)))) src
       = spec_window (spec_run d (prune_times handle es (new_kill_chain d, w)) es spec_empty) src"
proof -
  have "cuts_passed d spec_empty w" by (simp add: cuts_passed_def spec_empty_def)
  then obtain k' w' where run: "for_each handle es (new_kill_chain d, w) = (Inr (), (k', w'))"
    and ref: "refines_window k' (spec_run d (prune_times handle es (new_kill_chain d, w)) es spec_empty)"
    using run_refines [OF refines_empty, of d w es] assms
    by (auto simp: new_kill_chain_def spec_empty_def)
  show "fst (for_each handle es (new_kill_chain d, w)) = Inr ()"
    using run by simp
  show "window_of (fst (snd (for_each handle es (new_kill_chain d, w)))) src
       = spec_window (spec_run d (prune_times handle es (new_kill_chain d, w)) es spec_empty) src"
    using run refines_window_of [OF ref] by simp
qed

end

end
