(* ===== verification/Dashboard.thy ===== *)
theory Dashboard
  imports World Kill_Chain_Spec
begin

text \<open>
  \<open>api/main.py\<close>: the connected browsers, \<open>broadcast\<close>, the serialisation of events and the
  task that drains the engine, broadcasting every event before it is given to the kill-chain
  correlator. A message is the JSON document it carries. Whether the \<open>i\<close>-th \<open>send_text\<close>
  of the run fails is \<open>sock_fails i\<close>; while a send is awaited other tasks run, and
  \<open>meanwhile i\<close> are the connects and disconnects that happen during the \<open>i\<close>-th one.
  The web server, its routes and the HTML page are FastAPI's and not modelled.
\<close>

type_synonym ws = nat

datatype ws_action = Join ws | Leave ws

record dash = world +
  active_connections :: "ws list"
  inbox :: "ws \<Rightarrow> pyval list"
  sock_sends :: nat
  sock_fails :: "nat \<Rightarrow> bool"
  meanwhile :: "nat \<Rightarrow> ws_action list"
  engine_ready :: bool

definition connect :: "ws \<Rightarrow> 'a dash_scheme \<Rightarrow> 'a dash_scheme" where
  "connect c s = s\<lparr>active_connections := active_connections s @ [c]\<rparr>"

definition disconnect :: "ws \<Rightarrow> 'a dash_scheme \<Rightarrow> 'a dash_scheme" where
  "disconnect c s = s\<lparr>active_connections := remove1 c (active_connections s)\<rparr>"

fun ws_effect :: "ws_action \<Rightarrow> 'a dash_scheme \<Rightarrow> 'a dash_scheme" where
  "ws_effect (Join c) s = connect c s"
| "ws_effect (Leave c) s = disconnect c s"

definition send_text :: "ws \<Rightarrow> pyval \<Rightarrow> ('a dash_scheme, unit) op" where
  "send_text c message = (\<lambda>s.
     let i = sock_sends s; s1 = fold ws_effect (meanwhile s i) (s\<lparr>sock_sends := Suc i\<rparr>)
     in if sock_fails s i then (Inl RuntimeError, s1)
        else (Inr (), s1\<lparr>inbox := (inbox s1)(c := inbox s1 c @ [message])\<rparr>))"

text \<open>The body of the loop: any exception of the send disconnects the browser.\<close>

definition send_or_drop :: "pyval \<Rightarrow> ws \<Rightarrow> ('a dash_scheme, unit) op" where
  "send_or_drop message c = (\<lambda>s. case send_text c message s of
       (Inl _, s') \<Rightarrow> (Inr (), disconnect c s')
     | (Inr _, s') \<Rightarrow> (Inr (), s'))"

definition broadcast :: "pyval \<Rightarrow> ('a dash_scheme, unit) op" where
  "broadcast message = and_then (ask active_connections) (for_each (send_or_drop message))"

definition serialize_event :: "event \<Rightarrow> ('s, pyval) op" where
  "serialize_event e = json_dumps (PDict
     [(lit ''vector'', PStr (vector_value (ev_vector e))), (lit ''event_type'', PStr (ev_type e)),
      (lit ''src'', PStr (ev_src e)), (lit ''severity'', PInt (ev_severity e)),
      (lit ''metadata'', PDict (ev_metadata e)), (lit ''uuid'', PStr (ev_uuid e)),
      (lit ''timestamp'', PFloat (ev_timestamp e))])"

definition inject_event_to_dashboard :: "pyval \<Rightarrow> ('a dash_scheme, unit) op" where
  "inject_event_to_dashboard event_json = broadcast event_json"

definition new_dashboard_correlator :: kill_chain where
  "new_dashboard_correlator = new_kill_chain 300"

text \<open>The body of the drain task for one event, and the task's start on event loop \<open>l\<close>.\<close>

definition dashboard_event :: "event \<Rightarrow> (kill_chain \<times> 'a dash_scheme, unit) op" where
  "dashboard_event event =
     and_then (outside (and_then (serialize_event event) broadcast)) (\<lambda>_.
       add_event (Some broadcast) event)"

definition start_drain :: "loop_id \<Rightarrow> ('a dash_scheme, unit) op" where
  "start_drain l = (\<lambda>s. case bind_loop None (Some l) (ENGINE s) of
       (Inl e, g) \<Rightarrow> (Inl e, s\<lparr>ENGINE := g\<rparr>)
     | (Inr _, g) \<Rightarrow> (Inr (), s\<lparr>ENGINE := g, engine_ready := True\<rparr>))"

text \<open>One turn of the loop; with an empty queue \<open>get\<close> waits and nothing happens.\<close>

definition drain_turn :: "(kill_chain \<times> 'a dash_scheme, unit) op" where
  "drain_turn = (\<lambda>(k, s). case get_event (ENGINE s) of
       None \<Rightarrow> (Inr (), (k, s))
     | Some (event, g) \<Rightarrow> dashboard_event event (k, s\<lparr>ENGINE := g\<rparr>))"

fun drain_turns :: "nat \<Rightarrow> (kill_chain \<times> 'a dash_scheme, unit) op" where
  "drain_turns 0 = ret ()"
| "drain_turns (Suc n) = and_then drain_turn (\<lambda>_. drain_turns n)"

section \<open>Broadcasting\<close>

definition same_world :: "'a dash_scheme \<Rightarrow> 'a dash_scheme \<Rightarrow> bool" where
  "same_world s s' \<longleftrightarrow> world.truncate s' = world.truncate s \<and> sock_fails s' = sock_fails s
     \<and> meanwhile s' = meanwhile s \<and> engine_ready s' = engine_ready s"

lemma same_world_refl [simp, intro]: "same_world s s"
  by (simp add: same_world_def)

lemma same_world_trans: "same_world s s' \<Longrightarrow> same_world s' s'' \<Longrightarrow> same_world s s''"
  by (simp add: same_world_def)

lemma same_world_sel:
  assumes "same_world s s'"
  shows "env_clock s' = env_clock s" "env_reads s' = env_reads s" "env_uuids s' = env_uuids s"
    "env_draws s' = env_draws s" "ALERT_QUEUE s' = ALERT_QUEUE s" "ENGINE s' = ENGINE s"
    "sock_fails s' = sock_fails s" "meanwhile s' = meanwhile s"
  using assms by (simp_all add: same_world_def world.truncate_def)

lemma same_world_updates [simp]:
  "same_world s (s\<lparr>active_connections := x\<rparr>)" "same_world s (s\<lparr>sock_sends := n\<rparr>)" "same_world s (s\<lparr>inbox := b\<rparr>)"
  by (simp_all add: same_world_def world.truncate_def)

lemma ws_effects:
  "same_world s (fold ws_effect xs s) \<and> inbox (fold ws_effect xs s) = inbox s
   \<and> sock_sends (fold ws_effect xs s) = sock_sends s"
proof (induction xs arbitrary: s)
  case Nil
  then show ?case by simp
next
  case (Cons x xs)
  have "same_world s (ws_effect x s) \<and> inbox (ws_effect x s) = inbox s \<and> sock_sends (ws_effect x s) = sock_sends s"
    by (cases x) (simp_all add: connect_def disconnect_def)
  with Cons [of "ws_effect x s"] show ?case using same_world_trans by auto
qed

lemma send_or_drop_runs:
  "\<exists>s'. send_or_drop m c s = (Inr (), s') \<and> same_world s s' \<and> sock_sends s' = Suc (sock_sends s)
    \<and> inbox s' = (if sock_fails s (sock_sends s) then inbox s else (inbox s)(c := inbox s c @ [m]))
    \<and> (meanwhile s (sock_sends s) = [] \<longrightarrow> active_connections s' =
        (if sock_fails s (sock_sends s) then remove1 c (active_connections s) else active_connections s))"
proof -
  let ?i = "sock_sends s"
  let ?s1 = "fold ws_effect (meanwhile s ?i) (s\<lparr>sock_sends := Suc ?i\<rparr>)"
  note E = ws_effects [of "s\<lparr>sock_sends := Suc ?i\<rparr>" "meanwhile s ?i"]
  have s1: "same_world s ?s1" using E same_world_trans [of s "s\<lparr>sock_sends := Suc ?i\<rparr>"] by simp
  show ?thesis
  proof (cases "sock_fails s ?i")
    case True
    have "same_world s (disconnect c ?s1)"
      using same_world_trans [OF s1] by (simp add: disconnect_def)
    with True E show ?thesis
      by (simp add: send_or_drop_def send_text_def Let_def disconnect_def)
  next
    case False
    have "same_world s (?s1\<lparr>inbox := (inbox ?s1)(c := inbox ?s1 c @ [m])\<rparr>)"
      using same_world_trans [OF s1] by simp
    with False E show ?thesis by (simp add: send_or_drop_def send_text_def Let_def)
  qed
qed

text \<open>Whether the send to \<open>c\<close> succeeds in a broadcast over \<open>cs\<close> that starts with send \<open>i\<close>.\<close>

definition reached :: "(nat \<Rightarrow> bool) \<Rightarrow> nat \<Rightarrow> ws list \<Rightarrow> ws \<Rightarrow> bool" where
  "reached fails i cs c \<longleftrightarrow> (\<exists>j < length cs. cs ! j = c \<and> \<not> fails (i + j))"

lemma reached_Nil [simp]: "\<not> reached f i [] c"
  by (simp add: reached_def)

lemma reached_Cons: "reached f i (x # cs) c \<longleftrightarrow> x = c \<and> \<not> f i \<or> reached f (Suc i) cs c"
  by (auto simp: reached_def Ex_less_Suc2)

lemma reached_in: "reached f i cs c \<Longrightarrow> c \<in> set cs"
  by (auto simp: reached_def)

lemma send_loop:
  assumes "distinct cs"
  shows "\<exists>s'. for_each (send_or_drop m) cs s = (Inr (), s') \<and> same_world s s'
    \<and> sock_sends s' = sock_sends s + length cs
    \<and> inbox s' = (\<lambda>c. if reached (sock_fails s) (sock_sends s) cs c then inbox s c @ [m] else inbox s c)"
  using assms
proof (induction cs arbitrary: s)
  case Nil
  then show ?case by (simp add: op_simps)
next
  case (Cons c cs)
  obtain s1 where s1: "send_or_drop m c s = (Inr (), s1)" "same_world s s1" "sock_sends s1 = Suc (sock_sends s)"
    "inbox s1 = (if sock_fails s (sock_sends s) then inbox s else (inbox s)(c := inbox s c @ [m]))"
    using send_or_drop_runs [of m c s] by blast
  obtain s' where s': "for_each (send_or_drop m) cs s1 = (Inr (), s')" "same_world s1 s'"
    "sock_sends s' = sock_sends s1 + length cs"
    "inbox s' = (\<lambda>c. if reached (sock_fails s1) (sock_sends s1) cs c then inbox s1 c @ [m] else inbox s1 c)"
    using Cons by auto
  have "inbox s' d = (if reached (sock_fails s) (sock_sends s) (c # cs) d then inbox s d @ [m] else inbox s d)" for d
    using Cons.prems s1(3,4) s'(4) same_world_sel(7) [OF s1(2)] reached_in
    by (auto simp: reached_Cons)
  with s1 s' same_world_trans [OF s1(2) s'(2)] show ?case by (simp add: fun_eq_iff)
qed

lemma send_loop_connections:
  assumes "\<forall>i. meanwhile s i = []" "distinct (active_connections s)"
  shows "active_connections (snd (for_each (send_or_drop m) cs s)) =
    filter (\<lambda>c. \<not> (\<exists>j < length cs. cs ! j = c \<and> sock_fails s (sock_sends s + j))) (active_connections s)"
  using assms
proof (induction cs arbitrary: s)
  case Nil
  then show ?case by (simp add: op_simps)
next
  case (Cons c cs)
  obtain s1 where s1: "send_or_drop m c s = (Inr (), s1)" "same_world s s1" "sock_sends s1 = Suc (sock_sends s)"
    "active_connections s1 = (if sock_fails s (sock_sends s) then remove1 c (active_connections s) else active_connections s)"
    using send_or_drop_runs [of m c s] Cons.prems(1) by auto
  have ih: "active_connections (snd (for_each (send_or_drop m) cs s1)) =
      filter (\<lambda>c. \<not> (\<exists>j < length cs. cs ! j = c \<and> sock_fails s (Suc (sock_sends s) + j))) (active_connections s1)"
    using Cons.IH [of s1] Cons.prems s1 same_world_sel(7,8) [OF s1(2)] by auto
  show ?case
    using s1(1,4) ih Cons.prems(2)
    by (auto simp: Ex_less_Suc2 distinct_remove1_removeAll removeAll_filter_not_eq intro!: filter_cong)
qed

text \<open>C20: broadcasting never fails, whatever the sockets do and whoever connects or leaves while it
  waits: every browser connected when it starts gets the message exactly once, in its place
  after the earlier ones, unless the send to it fails; nobody else gets it, and the engine, the
  alerts and the clock are untouched. When nobody comes or goes meanwhile, the browsers whose
  send failed are exactly those dropped.\<close>

theorem broadcast_reaches_connected:
  assumes "distinct (active_connections s)"
  shows "\<exists>s'. broadcast m s = (Inr (), s') \<and> ENGINE s' = ENGINE s \<and> ALERT_QUEUE s' = ALERT_QUEUE s
    \<and> env_reads s' = env_reads s
    \<and> (\<forall>c. inbox s' c = (if \<exists>j < length (active_connections s). active_connections s ! j = c
            \<and> \<not> sock_fails s (sock_sends s + j) then inbox s c @ [m] else inbox s c))
    \<and> ((\<forall>i. meanwhile s i = []) \<longrightarrow> active_connections s' =
        filter (\<lambda>c. \<not> (\<exists>j < length (active_connections s). active_connections s ! j = c
            \<and> sock_fails s (sock_sends s + j))) (active_connections s))"
proof -
  obtain s' where s': "for_each (send_or_drop m) (active_connections s) s = (Inr (), s')" "same_world s s'"
    "inbox s' = (\<lambda>c. if reached (sock_fails s) (sock_sends s) (active_connections s) c then inbox s c @ [m] else inbox s c)"
    using send_loop [OF assms] by blast
  have "broadcast m s = (Inr (), s')" using s'(1) by (simp add: broadcast_def op_simps)
  moreover have "active_connections s' =
        filter (\<lambda>c. \<not> (\<exists>j < length (active_connections s). active_connections s ! j = c
            \<and> sock_fails s (sock_sends s + j))) (active_connections s)" if "\<forall>i. meanwhile s i = []"
    using send_loop_connections [OF that assms, of m "active_connections s"] s'(1) by simp
  ultimately show ?thesis
    using s'(3) same_world_sel [OF s'(2)] by (simp add: reached_def)
qed

definition sample_dash :: "ws list \<Rightarrow> dash" where
  "sample_dash cs = \<lparr>env_clock = (\<lambda>i. 1000 + of_nat i), env_reads = 0, env_uuids = (\<lambda>i. dec (int i)),
     env_draws = 0, ALERT_QUEUE = [], ENGINE = (new_engine 0)\<lparr>bound_loop := Some 7\<rparr>, active_connections = cs,
     inbox = (\<lambda>_. []), sock_sends = 0, sock_fails = (\<lambda>i. i = 1), meanwhile = (\<lambda>_. []), engine_ready = True\<rparr>"

theorem broadcast_reaches_connected_witness:
  "\<exists>s'. broadcast (PInt 5) (sample_dash [3, 4]) = (Inr (), s') \<and> inbox s' 3 = [PInt 5] \<and> inbox s' 4 = []
    \<and> active_connections s' = [3]"
proof -
  have "distinct (active_connections (sample_dash [3, 4]))" by (simp add: sample_dash_def)
  from broadcast_reaches_connected [OF this, of "PInt 5"] show ?thesis
    by (auto simp: sample_dash_def Ex_less_Suc2)
qed

section \<open>The contracts of the callback and of the drain task\<close>

lemma send_loop_total: "\<exists>s'. for_each (send_or_drop m) cs s = (Inr (), s') \<and> same_world s s'"
proof (induction cs arbitrary: s)
  case Nil
  then show ?case by (auto simp: op_simps)
next
  case (Cons c cs)
  obtain s1 where s1: "send_or_drop m c s = (Inr (), s1)" "same_world s s1"
    using send_or_drop_runs [of m c s] by blast
  with Cons [of s1] same_world_trans show ?case by fastforce
qed

lemma broadcast_total: "\<exists>s'. broadcast m s = (Inr (), s') \<and> same_world s s'"
  using send_loop_total [of m "active_connections s" s] by (simp add: broadcast_def op_simps)

interpretation browsers: incident_sink "broadcast :: pyval \<Rightarrow> ('a dash_scheme, unit) op"
proof unfold_locales
  fix r and w :: "'a dash_scheme"
  obtain s' where s': "broadcast r w = (Inr (), s')" "same_world w s'" using broadcast_total by blast
  then show "fst (broadcast r w) = Inr ()" "env_clock (snd (broadcast r w)) = env_clock w"
    "env_reads w \<le> env_reads (snd (broadcast r w))"
    using same_world_sel [OF s'(2)] by simp_all
qed

definition event_json :: "event \<Rightarrow> pyval" where
  "event_json e = PDict
     [(lit ''vector'', PStr (vector_value (ev_vector e))), (lit ''event_type'', PStr (ev_type e)),
      (lit ''src'', PStr (ev_src e)), (lit ''severity'', PInt (ev_severity e)),
      (lit ''metadata'', PDict (ev_metadata e)), (lit ''uuid'', PStr (ev_uuid e)),
      (lit ''timestamp'', PFloat (ev_timestamp e))]"

lemma serialize_ok: "metadata_ok e \<Longrightarrow> serialize_event e s = (Inr (event_json e), s)"
  by (simp add: serialize_event_def event_json_def metadata_ok_def json_dumps_def ret_apply)

lemma dashboard_event_eq:
  assumes "metadata_ok e"
  shows "dashboard_event e (k, s) = add_event (Some broadcast) e (k, snd (broadcast (event_json e) s))"
proof -
  obtain s' where "broadcast (event_json e) s = (Inr (), s')" using broadcast_total by blast
  with assms show ?thesis
    by (simp add: dashboard_event_def and_then_apply outside_apply serialize_ok)
qed

interpretation drained: window_handler "dashboard_event :: event \<Rightarrow> (kill_chain \<times> 'a dash_scheme, unit) op"
proof unfold_locales
  fix k e and w :: "'a dash_scheme"
  assume meta: "\<forall>e' \<in> set (window_of k (ev_src e) @ [e]). metadata_ok e'"
  obtain s' where s': "broadcast (event_json e) w = (Inr (), s')" "same_world w s'" using broadcast_total by blast
  from browsers.add_event_total [OF meta, of s'] show "\<exists>w'. dashboard_event e (k, w)
      = (Inr (), (slide (env_clock w (env_reads w)) e k, w')) \<and> env_clock w' = env_clock w \<and> env_reads w < env_reads w'"
    using meta s'(1) same_world_sel [OF s'(2)] by (simp add: dashboard_event_eq)
qed

text \<open>C6: the drain task processes an event completely before the next: it never fails on events
  whose metadata JSON can carry, and after any sequence of events that arrived in timestamp
  order per source, read against a clock that does not go back, each source's window is exactly
  the events of its history not older than the cutoff at that source's latest event.\<close>

theorem dashboard_windows_refine:
  assumes "clock_monotone s" "arrival_ordered es" "\<forall>e \<in> set es. metadata_ok e"
  shows "fst (for_each dashboard_event es (new_dashboard_correlator, s)) = Inr ()
    \<and> window_of (fst (snd (for_each dashboard_event es (new_dashboard_correlator, s)))) src
      = spec_window (spec_run 300 (prune_times dashboard_event es (new_dashboard_correlator, s)) es spec_empty) src"
  unfolding new_dashboard_correlator_def
  using drained.run_window(1) [OF assms, where d = 300] drained.run_window(2) [OF assms, where d = 300 and src = src] by blast

theorem dashboard_windows_refine_witness:
  "fst (for_each dashboard_event [sample_event ''sctp_init_flood'' ''a'' 4 990, sample_event ''file_created'' ''a'' 1 995]
     (new_dashboard_correlator, sample_dash [3])) = Inr ()"
proof -
  have "clock_monotone (sample_dash [3])" by (simp add: clock_monotone_def sample_dash_def)
  moreover have "arrival_ordered [sample_event ''sctp_init_flood'' ''a'' 4 990, sample_event ''file_created'' ''a'' 1 995]"
    by (simp add: arrival_ordered_def from_src_def sample_event_def)
  moreover have "\<forall>e \<in> set [sample_event ''sctp_init_flood'' ''a'' 4 990, sample_event ''file_created'' ''a'' 1 995]. metadata_ok e"
    by (simp add: metadata_ok_def sample_event_def)
  ultimately show ?thesis using dashboard_windows_refine by blast
qed

section \<open>What a browser sees\<close>

text \<open>No send fails and nobody comes or goes: the stream every connected browser sees.\<close>

definition reliable :: "'a dash_scheme \<Rightarrow> bool" where
  "reliable s \<longleftrightarrow> (\<forall>i. \<not> sock_fails s i) \<and> (\<forall>i. meanwhile s i = []) \<and> distinct (active_connections s)"

definition got :: "pyval list \<Rightarrow> 'a dash_scheme \<Rightarrow> 'a dash_scheme \<Rightarrow> bool" where
  "got ms s s' \<longleftrightarrow> reliable s' \<and> active_connections s' = active_connections s
     \<and> env_clock s' = env_clock s \<and> ENGINE s' = ENGINE s \<and> ALERT_QUEUE s' = ALERT_QUEUE s
     \<and> (\<forall>c. inbox s' c = (if c \<in> set (active_connections s) then inbox s c @ ms else inbox s c))"

lemma got_trans: "got ms s s' \<Longrightarrow> got ms' s' s'' \<Longrightarrow> got (ms @ ms') s s''"
  by (auto simp: got_def)

lemma got_tick: "got ms s (s'\<lparr>env_reads := n\<rparr>) = got ms s s'" "got ms (s\<lparr>env_reads := n\<rparr>) s' = got ms s s'"
  by (simp_all add: got_def reliable_def)

lemma broadcast_reliable:
  assumes "reliable s"
  shows "\<exists>s'. broadcast m s = (Inr (), s') \<and> got [m] s s' \<and> env_reads s' = env_reads s"
proof -
  have d: "distinct (active_connections s)" and mw: "\<forall>i. meanwhile s i = []" and nf: "\<forall>i. \<not> sock_fails s i"
    using assms by (simp_all add: reliable_def)
  obtain s' where s': "for_each (send_or_drop m) (active_connections s) s = (Inr (), s')" "same_world s s'"
    "inbox s' = (\<lambda>c. if reached (sock_fails s) (sock_sends s) (active_connections s) c then inbox s c @ [m] else inbox s c)"
    using send_loop [OF d] by blast
  have "active_connections s' = active_connections s"
    using send_loop_connections [OF mw d, of m "active_connections s"] s'(1) nf by simp
  moreover have "reached (sock_fails s) (sock_sends s) (active_connections s) c \<longleftrightarrow> c \<in> set (active_connections s)" for c
    using nf by (auto simp: reached_def in_set_conv_nth)
  ultimately show ?thesis
    using s' same_world_sel [OF s'(2)] assms
    by (intro exI [of _ s']) (simp add: broadcast_def op_simps got_def reliable_def)
qed

definition windows_ok :: "kill_chain \<Rightarrow> bool" where
  "windows_ok k \<longleftrightarrow> (\<forall>src. \<forall>e \<in> set (window_of k src). metadata_ok e)"

lemma windows_ok_slide: "windows_ok k \<Longrightarrow> metadata_ok e \<Longrightarrow> windows_ok (slide now e k)"
  by (auto simp: windows_ok_def window_of_slide pop_stale_eq dest!: set_dropWhileD)

text \<open>The messages for a list of events, from clock reading \<open>i\<close> on.\<close>

fun dash_messages :: "kill_chain \<Rightarrow> (nat \<Rightarrow> pyfloat) \<Rightarrow> nat \<Rightarrow> event list \<Rightarrow> pyval list" where
  "dash_messages k clock i [] = []"
| "dash_messages k clock i (e # es) =
     (let k' = slide (clock i) e k in
      event_json e #
        (if evaluate_kill_chain (ev_src e) k'
         then escalated (ev_src e) (clock (Suc i)) k' # dash_messages k' clock (Suc (Suc i)) es
         else dash_messages k' clock (Suc i) es))"

lemma dashboard_event_seen:
  assumes "reliable s" "windows_ok k" "metadata_ok e"
  shows "\<exists>s'. let k' = slide (env_clock s (env_reads s)) e k; hit = evaluate_kill_chain (ev_src e) k' in
      dashboard_event e (k, s) = (Inr (), (k', s'))
    \<and> got (event_json e # (if hit then [escalated (ev_src e) (env_clock s (Suc (env_reads s))) k'] else [])) s s'
    \<and> env_reads s' = (if hit then Suc (Suc (env_reads s)) else Suc (env_reads s))"
proof -
  let ?k = "slide (env_clock s (env_reads s)) e k"
  obtain s1 where s1: "broadcast (event_json e) s = (Inr (), s1)" "got [event_json e] s s1" "env_reads s1 = env_reads s"
    using broadcast_reliable [OF assms(1)] by blast
  then have clock: "env_clock s1 = env_clock s" by (simp add: got_def)
  have start: "dashboard_event e (k, s) = add_event (Some broadcast) e (k, s1)"
    using dashboard_event_eq [OF assms(3), of k s] s1(1) by simp
  show ?thesis
  proof (cases "evaluate_kill_chain (ev_src e) ?k")
    case False
    then show ?thesis
      using start s1 clock by (simp add: add_event_unfold got_tick)
  next
    case True
    let ?s = "s1\<lparr>env_reads := Suc (Suc (env_reads s))\<rparr>"
    have "reliable ?s" using s1(2) by (auto simp: got_def reliable_def)
    then obtain s2 where s2: "broadcast (escalated (ev_src e) (env_clock s (Suc (env_reads s))) ?k) ?s = (Inr (), s2)"
      "got [escalated (ev_src e) (env_clock s (Suc (env_reads s))) ?k] ?s s2" "env_reads s2 = env_reads ?s"
      using broadcast_reliable by blast
    have "\<forall>e' \<in> set (window_of ?k (ev_src e)). metadata_ok e'"
      using windows_ok_slide [OF assms(2,3)] by (simp add: windows_ok_def)
    then have "add_event (Some broadcast) e (k, s1) = (Inr (), (?k, s2))"
      using True s1(3) s2(1) clock by (simp add: add_event_unfold escalate_runs window_nonempty Let_def)
    moreover have "got [event_json e, escalated (ev_src e) (env_clock s (Suc (env_reads s))) ?k] s s2"
      using got_trans [OF s1(2)] s2(2) by (fastforce simp: got_tick)
    ultimately show ?thesis using True start s2(3) by simp
  qed
qed

lemma drain_turn_event:
  "queue (ENGINE s) = e # es \<Longrightarrow>
   drain_turn (k, s) = dashboard_event e (k, s\<lparr>ENGINE := (ENGINE s)\<lparr>queue := es\<rparr>\<rparr>)"
  by (simp add: drain_turn_def get_event_def)

lemma drain_seen:
  assumes "reliable s" "windows_ok k" "\<forall>e \<in> set (queue (ENGINE s)). metadata_ok e"
  shows "\<exists>k' s'. drain_turns (length (queue (ENGINE s))) (k, s) = (Inr (), (k', s'))
    \<and> queue (ENGINE s') = []
    \<and> (\<forall>c. inbox s' c = (if c \<in> set (active_connections s)
          then inbox s c @ dash_messages k (env_clock s) (env_reads s) (queue (ENGINE s)) else inbox s c))"
proof -
  define es where "es = queue (ENGINE s)"
  then have "queue (ENGINE s) = es" by simp
  then have "\<exists>k' s'. drain_turns (length es) (k, s) = (Inr (), (k', s')) \<and> queue (ENGINE s') = []
    \<and> (\<forall>c. inbox s' c = (if c \<in> set (active_connections s)
          then inbox s c @ dash_messages k (env_clock s) (env_reads s) es else inbox s c))"
    using assms
  proof (induction es arbitrary: k s)
    case Nil
    then show ?case by (simp add: ret_apply)
  next
    case (Cons e es)
    let ?s = "s\<lparr>ENGINE := (ENGINE s)\<lparr>queue := es\<rparr>\<rparr>" and ?k = "slide (env_clock s (env_reads s)) e k"
    have "reliable ?s" "metadata_ok e" using Cons.prems by (simp_all add: reliable_def)
    from dashboard_event_seen [OF this(1) Cons.prems(3) this(2)]
    have "\<exists>s1. dashboard_event e (k, ?s) = (Inr (), (?k, s1))
      \<and> got (event_json e # (if evaluate_kill_chain (ev_src e) ?k
            then [escalated (ev_src e) (env_clock s (Suc (env_reads s))) ?k] else [])) ?s s1
      \<and> env_reads s1 = (if evaluate_kill_chain (ev_src e) ?k then Suc (Suc (env_reads s)) else Suc (env_reads s))"
      by (cases "evaluate_kill_chain (ev_src e) ?k") (simp_all add: Let_def)
    then obtain s1 where
      s1: "dashboard_event e (k, ?s) = (Inr (), (?k, s1))"
        "got (event_json e # (if evaluate_kill_chain (ev_src e) ?k
            then [escalated (ev_src e) (env_clock s (Suc (env_reads s))) ?k] else [])) ?s s1"
        "env_reads s1 = (if evaluate_kill_chain (ev_src e) ?k then Suc (Suc (env_reads s)) else Suc (env_reads s))"
      by blast
    have same: "queue (ENGINE s1) = es" "reliable s1" "active_connections s1 = active_connections s"
      "env_clock s1 = env_clock s"
      using s1(2) by (simp_all add: got_def)
    have "windows_ok ?k" using Cons.prems by (simp add: windows_ok_slide)
    from Cons.IH [OF same(1,2) this] Cons.prems(1,4) same obtain k' s' where
      r: "drain_turns (length es) (?k, s1) = (Inr (), (k', s'))" "queue (ENGINE s') = []"
        "\<forall>c. inbox s' c = (if c \<in> set (active_connections s)
            then inbox s1 c @ dash_messages ?k (env_clock s) (env_reads s1) es else inbox s1 c)"
      by auto
    have "drain_turns (length (e # es)) (k, s) = (Inr (), (k', s'))"
      using s1(1) r(1) by (simp add: drain_turn_event [OF Cons.prems(1)] and_then_apply)
    with r(2,3) s1(2,3) show ?case by (simp add: got_def Let_def)
  qed
  then show ?thesis by (simp only: es_def)
qed

text \<open>C19: draining the queue, with reliable browsers, empties it without failing, and every
  connected browser receives the same stream: each event's document in queue order, followed at
  once, when that event completes a chain for its source, by the incident report of that
  source's window; a browser that is not connected receives nothing.\<close>

theorem drain_shows_events_then_incidents:
  assumes "reliable s" "windows_ok k" "\<forall>e \<in> set (queue (ENGINE s)). metadata_ok e"
  shows "\<exists>k' s'. drain_turns (length (queue (ENGINE s))) (k, s) = (Inr (), (k', s'))
    \<and> queue (ENGINE s') = []
    \<and> (\<forall>c. inbox s' c = (if c \<in> set (active_connections s)
          then inbox s c @ dash_messages k (env_clock s) (env_reads s) (queue (ENGINE s)) else inbox s c))"
  using drain_seen [OF assms] .

definition quiet_dash :: "event list \<Rightarrow> dash" where
  "quiet_dash es = (sample_dash [3])\<lparr>sock_fails := (\<lambda>_. False),
     ENGINE := (new_engine 0)\<lparr>bound_loop := Some 7, queue := es\<rparr>\<rparr>"

theorem drain_shows_events_then_incidents_witness:
  "\<exists>k' s'. drain_turns 1 (chain_window, quiet_dash [chain_event]) = (Inr (), (k', s'))
    \<and> inbox s' 3 = [event_json chain_event,
        escalated (lit ''10.0.0.9'') 1001 (slide 1000 chain_event chain_window)]"
proof -
  let ?s = "quiet_dash [chain_event]"
  have sel: "queue (ENGINE ?s) = [chain_event]" "active_connections ?s = [3]" "env_reads ?s = 0"
    "env_clock ?s = env_clock sample_env" "inbox ?s 3 = []"
    by (simp_all add: quiet_dash_def sample_dash_def sample_env_def)
  have "reliable ?s" by (simp add: reliable_def quiet_dash_def sample_dash_def)
  moreover have "windows_ok chain_window"
    by (auto simp: windows_ok_def window_of_def dict_get_def chain_window_def metadata_ok_def sample_event_def)
  moreover have "\<forall>e \<in> set (queue (ENGINE ?s)). metadata_ok e"
    unfolding sel by (simp add: metadata_ok_def chain_defs)
  moreover have "evaluate_kill_chain (lit ''10.0.0.9'') (slide (env_clock sample_env 0) chain_event chain_window)"
    unfolding evaluate_iff chain_slide
    by (simp add: stage_present_def stage_iffs chain_defs)
  moreover have "ev_src chain_event = lit ''10.0.0.9''" "env_clock sample_env 0 = 1000" "env_clock sample_env (Suc 0) = 1001"
    by (simp_all add: chain_defs)
  ultimately show ?thesis
    using drain_shows_events_then_incidents [of ?s chain_window] by (auto simp: sel)
qed

end
