(* ===== verification/Main_Program.thy ===== *)
theory Main_Program
  imports Correlator Elf_Analyzer Dashboard
begin

text \<open>
  The entry points: \<open>main\<close> of \<open>xdr/correlator.py\<close>, which parses the GOT range of the
  defended binary, builds the correlator and runs it on a capture file or live, and
  \<open>main.py\<close>, which waits for the dashboard to bind the engine and then runs that. Argument
  parsing is argparse's; \<open>cli_args\<close> is its result.
\<close>

record cli_args =
  arg_pcap_file :: "str option"
  arg_window :: int
  arg_max_init :: int
  arg_seq_threshold :: int
  arg_quiet :: bool
  arg_target_binary :: "str option"

text \<open>Running a method of an object created for it.\<close>

definition with_new :: "'c \<Rightarrow> ('c \<times> 'w, 'a) op \<Rightarrow> ('w, 'a) op" where
  "with_new c m = (\<lambda>w. case m (c, w) of (r, (_, w')) \<Rightarrow> (r, w'))"

definition parse_target :: "files \<Rightarrow> readelf \<Rightarrow> cli_args \<Rightarrow> ('w, int option \<times> int option) op" where
  "parse_target fs readelf args =
     (case arg_target_binary args of
        None \<Rightarrow> ret (None, None)
      | Some path \<Rightarrow> if path = [] then ret (None, None)
                     else with_new (new_elf_parser path) (get_got_range fs readelf))"

definition correlator_main ::
  "files \<Rightarrow> readelf \<Rightarrow> (str \<Rightarrow> py_error + packet list) \<Rightarrow> packet list list \<Rightarrow> cli_args
   \<Rightarrow> ('a world_scheme, unit) op" where
  "correlator_main fs readelf rdpcap windows args =
     (let iv = \<lparr>pcap_file_dir = arg_pcap_file args\<rparr> in
      and_then (parse_target fs readelf args) (\<lambda>(gb, gs).
        with_new (new_correlator (\<not> arg_quiet args) (arg_max_init args) (arg_window args)
            (arg_seq_threshold args) (Some iv) gb gs)
          (if capture_type iv = lit ''file'' then run_on_pcap rdpcap (the (arg_pcap_file args))
           else run_live windows)))"

definition main_py ::
  "files \<Rightarrow> readelf \<Rightarrow> (str \<Rightarrow> py_error + packet list) \<Rightarrow> packet list list \<Rightarrow> cli_args
   \<Rightarrow> ('a dash_scheme, unit) op" where
  "main_py fs readelf rdpcap windows args =
     and_then (ask engine_ready) (\<lambda>ready.
       if ready then correlator_main fs readelf rdpcap windows args else raise_err RuntimeError)"

section \<open>The capture path\<close>

lemma capture_file_type:
  "capture_type \<lparr>pcap_file_dir = p\<rparr> = lit ''file'' \<longleftrightarrow> (\<exists>f. p = Some f \<and> f \<noteq> [])"
  by (auto simp: capture_type_def capture_file_def split: option.splits)

definition main_reports ::
  "bool \<Rightarrow> int option \<Rightarrow> int option \<Rightarrow> cli_args \<Rightarrow> packet list \<Rightarrow> report list" where
  "main_reports verb gb gs args ps =
     concat (map (\<lambda>i. (if verb then payload_reports gb gs (ps ! i) else [])
       @ verdict (arg_seq_threshold args) ps i) [0..<length ps])
     @ flood_reports (arg_max_init args) ps"

lemma correlator_main_file:
  assumes "bound l w" "parse_target fs readelf args w = (Inr (gb, gs), w)"
    and "arg_pcap_file args = Some f" "f \<noteq> []" "rdpcap f = Inr ps"
  shows "\<exists>w'. correlator_main fs readelf rdpcap windows args w = (Inr (), w')
    \<and> emitted (main_reports (\<not> arg_quiet args) gb gs args ps) w w'"
proof -
  let ?iv = "\<lparr>pcap_file_dir = Some f\<rparr>"
  let ?c = "new_correlator (\<not> arg_quiet args) (arg_max_init args) (arg_window args) (arg_seq_threshold args) (Some ?iv) gb gs"
  have "init_chunk_count (the_sctp ?c) = []" by simp
  from scan_window_runs [OF assms(1) this, of ps] obtain c' w' where
    r: "scan_window ps (?c, w) = (Inr (), (c', w'))" "emitted (window_reports ?c ps) w w'" by blast
  have run: "run_on_pcap rdpcap f s = scan_window ps s" for s :: "correlator \<times> 'a world_scheme"
    by (simp add: run_on_pcap_def assms(5) scan_window_def)
  have "correlator_main fs readelf rdpcap windows args w = (Inr (), w')"
    using assms(2-4) r(1) capture_file_type [of "Some f"]
    by (simp add: correlator_main_def and_then_apply with_new_def run)
  then show ?thesis using r(2) by (auto simp: new_window_reports main_reports_def)
qed

text \<open>C13: with a target binary the scan looks for that binary's GOT: when its range is parsed and
  logging is on, every eight payload bytes of a TCP packet of the capture whose little-endian
  value is not null and lies in the range, at whatever offset and however low the address, are
  published as a finding naming the value and the offset.\<close>

theorem target_got_pointer_published:
  assumes "bound l w" "arg_target_binary args = Some path" "path \<noteq> []"
    and "get_got_range fs readelf (new_elf_parser path, w) = (Inr (Some b, Some s), (p', w))"
    and "arg_pcap_file args = Some f" "f \<noteq> []" "rdpcap f = Inr ps" "\<not> arg_quiet args"
    and "i < length ps" "pk_tcp (ps ! i) = Some t" "k + 8 \<le> length (tcp_payload t)"
    and "v = le_value (take 8 (drop k (tcp_payload t)))" "v \<noteq> 0" "b \<le> v" "v < b + s"
  shows "\<exists>w' rs. correlator_main fs readelf rdpcap windows args w = (Inr (), w') \<and> emitted rs w w'
    \<and> finding_report (packet_source (ps ! i)) (finding_text (GotPointer v k)) \<in> set rs"
proof -
  have "parse_target fs readelf args w = (Inr (Some b, Some s), w)"
    using assms(2-4) by (simp add: parse_target_def with_new_def)
  from correlator_main_file [where rdpcap = rdpcap and f = f, OF assms(1) this assms(5-7)] obtain w' where
    w': "correlator_main fs readelf rdpcap windows args w = (Inr (), w')"
      "emitted (main_reports True (Some b) (Some s) args ps) w w'" using assms(8) by auto
  have "GotPointer v k \<in> set (scan_findings (tcp_payload t) (Some b) (Some s))"
    using assms(11-15) by (simp add: in_scan_findings got_pointers_iff is_candidate_def)
  then have "finding_text (GotPointer v k) \<in> set (scan_payload (extract_tcp_payload (ps ! i)) (Some b) (Some s))"
    using assms(10) by (simp add: scan_payload_def extract_tcp_payload_def del: finding_text.simps)
  then have "finding_report (packet_source (ps ! i)) (finding_text (GotPointer v k)) \<in> set (main_reports True (Some b) (Some s) args ps)"
    using assms(9) by (auto simp: main_reports_def payload_reports_def intro!: bexI [of _ i])
  with w' show ?thesis by blast
qed

definition sample_args :: cli_args where
  "sample_args = \<lparr>arg_pcap_file = Some (lit ''c''), arg_window = 15, arg_max_init = 5, arg_seq_threshold = 100000,
     arg_quiet = False, arg_target_binary = Some (lit ''x'')\<rparr>"

theorem target_got_pointer_published_witness:
  "\<exists>w' rs. correlator_main (\<lambda>_. Some sample_file) (\<lambda>_ _. Inr sample_readelf)
      (\<lambda>_. Inr [tcp_packet ''a'' 1 ''PA'' (7 # le_bytes 8 8200)]) [] sample_args (sample_world (Some 7)) = (Inr (), w')
    \<and> emitted rs (sample_world (Some 7)) w'
    \<and> finding_report (lit ''a'') (finding_text (GotPointer 8200 1)) \<in> set rs"
proof -
  have pure: "get_got_range (\<lambda>_. Some sample_file) (\<lambda>_ _. Inr sample_readelf) (new_elf_parser (lit ''x''), w) =
     (Inr (Some 8192, Some 32), (\<lparr>binary_path = lit ''x'',
       got_sections = Some [(lit ''.got'', Some (8192, 32)), (lit ''.got.plt'', None)]\<rparr>, w))" for w :: world
    by (rule sample_range_any)
  let ?p = "tcp_packet ''a'' 1 ''PA'' (7 # le_bytes 8 8200)"
  have src: "packet_source ([?p] ! 0) = lit ''a''"
    by (simp add: packet_source_def tcp_packet_def)
  show ?thesis
    unfolding src [symmetric]
    by (rule target_got_pointer_published [where f = "lit ''c''" and rdpcap = "\<lambda>_. Inr [?p]" and i = 0 and t = "the (pk_tcp ?p)",
          OF sample_world_simps(1) _ _ pure])
      (simp_all add: sample_args_def tcp_packet_def le_value_le_bytes)
qed

end
