(* ===== verification/File_Watchdog.thy ===== *)
theory File_Watchdog
  imports World
begin

text \<open>
  \<open>xdr/host/file_watchdog.py\<close>: the four handlers of \<open>XdrFileWatchdog\<close>. Each pushes an
  alert and then publishes an event. The watchdog library's \<open>Observer\<close> calls them, one
  after another in its own thread; scheduling and joining it are not modelled.
\<close>

record file_watchdog =
  watch_path :: str
  recursive :: bool

record fs_event =
  is_directory :: bool
  src_path :: str
  dest_path :: str

definition file_report :: "string \<Rightarrow> str \<Rightarrow> int \<Rightarrow> (str, pyval) dict \<Rightarrow> report" where
  "file_report ty src severity metadata = \<lparr>rp_vector = BINARY, rp_type = lit ty, rp_src = src,
     rp_severity = severity, rp_metadata = metadata\<rparr>"

definition moved_text :: "fs_event \<Rightarrow> str" where
  "moved_text e = src_path e @ lit '' -> '' @ dest_path e"

definition on_created :: "fs_event \<Rightarrow> (file_watchdog \<times> 'a world_scheme, unit) op" where
  "on_created e = (if is_directory e then ret () else
     and_then (outside (push_alert (lit ''file_created'') (src_path e) (lit ''low''))) (\<lambda>_.
       outside (emit_report (file_report ''file_created'' (src_path e) 1 []))))"

definition on_modified :: "fs_event \<Rightarrow> (file_watchdog \<times> 'a world_scheme, unit) op" where
  "on_modified e = (if is_directory e then ret () else
     and_then (outside (push_alert (lit ''file_modified'') (src_path e) (lit ''low''))) (\<lambda>_.
       outside (emit_report (file_report ''file_modified'' (src_path e) 1 []))))"

definition on_deleted :: "fs_event \<Rightarrow> (file_watchdog \<times> 'a world_scheme, unit) op" where
  "on_deleted e = (if is_directory e then ret () else
     and_then (outside (push_alert (lit ''file_deleted'') (src_path e) (lit ''medium''))) (\<lambda>_.
       outside (emit_report (file_report ''file_deleted'' (src_path e) 3 []))))"

definition on_moved :: "fs_event \<Rightarrow> (file_watchdog \<times> 'a world_scheme, unit) op" where
  "on_moved e = (if is_directory e then ret () else
     and_then (outside (push_alert (lit ''file_moved'') (moved_text e) (lit ''low''))) (\<lambda>_.
       outside (emit_report (file_report ''file moved'' (moved_text e) 1
         [(lit ''src_path'', PStr (src_path e)), (lit ''dest_path'', PStr (dest_path e))]))))"

text \<open>The observer's dispatch of a notification to its handler.\<close>

datatype fs_action = Created | Modified | Deleted | Moved

fun dispatch :: "fs_action \<times> fs_event \<Rightarrow> (file_watchdog \<times> 'a world_scheme, unit) op" where
  "dispatch (Created, e) = on_created e"
| "dispatch (Modified, e) = on_modified e"
| "dispatch (Deleted, e) = on_deleted e"
| "dispatch (Moved, e) = on_moved e"

section \<open>The detector contract\<close>

text \<open>The alert and the report of a notification.\<close>

definition fs_alert :: "fs_action \<Rightarrow> fs_event \<Rightarrow> str \<times> str \<times> str" where
  "fs_alert a e = (case a of
       Created \<Rightarrow> (lit ''file_created'', src_path e, lit ''low'')
     | Modified \<Rightarrow> (lit ''file_modified'', src_path e, lit ''low'')
     | Deleted \<Rightarrow> (lit ''file_deleted'', src_path e, lit ''medium'')
     | Moved \<Rightarrow> (lit ''file_moved'', moved_text e, lit ''low''))"

definition fs_report :: "fs_action \<Rightarrow> fs_event \<Rightarrow> report" where
  "fs_report a e = (case a of
       Created \<Rightarrow> file_report ''file_created'' (src_path e) 1 []
     | Modified \<Rightarrow> file_report ''file_modified'' (src_path e) 1 []
     | Deleted \<Rightarrow> file_report ''file_deleted'' (src_path e) 3 []
     | Moved \<Rightarrow> file_report ''file moved'' (moved_text e) 1
         [(lit ''src_path'', PStr (src_path e)), (lit ''dest_path'', PStr (dest_path e))])"

definition fs_gives :: "fs_action \<times> fs_event \<Rightarrow> report list" where
  "fs_gives n = (if is_directory (snd n) then [] else [fs_report (fst n) (snd n)])"

definition alert_then_emit :: "str \<times> str \<times> str \<Rightarrow> report \<Rightarrow> ('c \<times> 'a world_scheme, unit) op" where
  "alert_then_emit al r = (case al of (ty, src, sev) \<Rightarrow>
     and_then (outside (push_alert ty src sev)) (\<lambda>_. outside (emit_report r)))"

lemma dispatch_eq:
  "dispatch (a, e) = (if is_directory e then ret () else alert_then_emit (fs_alert a e) (fs_report a e))"
  by (cases a) (simp_all add: on_created_def on_modified_def on_deleted_def on_moved_def
      alert_then_emit_def fs_alert_def fs_report_def)

lemma fs_report_ok: "report_ok (fs_report a e)"
  by (cases a) (simp_all add: fs_report_def file_report_def report_ok_def)

lemma fs_alert_valid: "snd (snd (fs_alert a e)) \<in> VALID_SEVERITIES"
  by (cases a) (simp_all add: fs_alert_def)

section \<open>Alert, then event\<close>

text \<open>The alerts appended to the queue, without their time.\<close>

definition alert_view :: "alert \<Rightarrow> str \<times> str \<times> str" where
  "alert_view a = (al_type a, al_src a, al_severity a)"

definition alerts_added :: "(str \<times> str \<times> str) list \<Rightarrow> 'a alert_env_scheme \<Rightarrow> 'a alert_env_scheme \<Rightarrow> bool" where
  "alerts_added xs w w' \<longleftrightarrow> (\<exists>as. ALERT_QUEUE w' = ALERT_QUEUE w @ as \<and> map alert_view as = xs)"

lemma alerts_added_refl [simp, intro]: "alerts_added [] w w"
  by (simp add: alerts_added_def)

lemma alerts_added_trans: "alerts_added xs w w' \<Longrightarrow> alerts_added ys w' w'' \<Longrightarrow> alerts_added (xs @ ys) w w''"
  by (fastforce simp: alerts_added_def)

lemma alert_pushed_added: "alerts_added [(ty, src, sev)] w (alert_pushed ty src sev w)"
  by (simp add: alerts_added_def alert_pushed_def alert_view_def alert_at_def)

lemma alert_pushed_sel [simp]:
  "ENGINE (alert_pushed ty src sev w) = ENGINE w"
  by (simp add: alert_pushed_def)

lemma alert_pushed_emitted: "emitted [] w (alert_pushed ty src sev w)"
  by (simp add: emitted_def alert_pushed_def)

lemma alert_then_emit_bound:
  assumes "bound l w" "report_ok r" "snd (snd al) \<in> VALID_SEVERITIES"
  shows "\<exists>w'. alert_then_emit al r (c, w) = (Inr (), (c, w')) \<and> emitted [r] w w' \<and> alerts_added [al] w w'"
proof -
  obtain ty src sev where al: "al = (ty, src, sev)" by (cases al)
  let ?w = "alert_pushed ty src sev w"
  have "bound l ?w" using assms(1) by (simp add: bound_def)
  then obtain w' where w': "emit_report r ?w = (Inr (), w')" "emitted [r] ?w w'" "ALERT_QUEUE w' = ALERT_QUEUE ?w"
    using emit_report_bound assms(2) by blast
  have "alerts_added [al] w w'"
    using alert_pushed_added [of ty src sev w] w'(3) by (simp add: al alerts_added_def)
  with w' assms(3) show ?thesis
    using emitted_trans [OF alert_pushed_emitted w'(2)] al
    by (simp add: alert_then_emit_def op_simps)
qed

lemma alert_then_emit_unbound:
  assumes "usable_loop (ENGINE w) = None" "report_ok r" "snd (snd al) \<in> VALID_SEVERITIES"
  shows "\<exists>w'. alert_then_emit al r (c, w) = (Inl RuntimeError, (c, w')) \<and> ENGINE w' = ENGINE w \<and> alerts_added [al] w w'"
proof -
  obtain ty src sev where al: "al = (ty, src, sev)" by (cases al)
  let ?w = "alert_pushed ty src sev w"
  have "emit_report r ?w = (Inl RuntimeError, env_ticked ?w)"
    using assms(1,2) by (simp add: emit_report_unbound)
  moreover have "alerts_added [al] w (env_ticked ?w)"
    using alert_pushed_added [of ty src sev w] by (simp add: al alerts_added_def env_ticked_def)
  ultimately show ?thesis
    using assms(3) al by (simp add: alert_then_emit_def op_simps env_ticked_def)
qed

interpretation watchdog: detector dispatch "\<lambda>d. d" "\<lambda>n d. d" "\<lambda>d. fs_gives"
proof unfold_locales
  fix l and p :: "fs_action \<times> fs_event" and c :: file_watchdog and w :: "'a world_scheme"
  obtain a e where p: "p = (a, e)" by (cases p)
  show "\<exists>c' w'. dispatch p (c, w) = (Inr (), c', w') \<and> c' = c \<and> emitted (fs_gives p) w w'" if "bound l w"
    using alert_then_emit_bound [OF that fs_report_ok fs_alert_valid, of a e a e c]
    by (auto simp: p dispatch_eq fs_gives_def ret_apply)
  show "\<exists>c' w'. dispatch p (c, w) = (if fs_gives p = [] then Inr () else Inl RuntimeError, c', w')
      \<and> ENGINE w' = ENGINE w \<and> (fs_gives p = [] \<longrightarrow> c' = c)" if "usable_loop (ENGINE w) = None"
    using alert_then_emit_unbound [OF that fs_report_ok fs_alert_valid, of a e a e c]
    by (auto simp: p dispatch_eq fs_gives_def ret_apply)
qed (auto simp: fs_gives_def fs_report_ok split: if_splits)

definition fs_alerts :: "(fs_action \<times> fs_event) list \<Rightarrow> (str \<times> str \<times> str) list" where
  "fs_alerts ns = map (\<lambda>(a, e). fs_alert a e) (filter (\<lambda>(a, e). \<not> is_directory e) ns)"

text \<open>C25: on a bound engine every notification about a file, and none about a directory, appends
  one alert to the queue and publishes one event, in the order of the notifications, with the
  type and severity of the action; no notification makes a handler fail.\<close>

theorem watchdog_alerts_and_events:
  assumes "bound l w"
  shows "\<exists>w'. for_each dispatch ns (d, w) = (Inr (), (d, w'))
    \<and> alerts_added (fs_alerts ns) w w'
    \<and> emitted (map (\<lambda>(a, e). fs_report a e) (filter (\<lambda>(a, e). \<not> is_directory e) ns)) w w'"
  using assms
proof (induction ns arbitrary: w)
  case Nil
  then show ?case by (auto simp: op_simps fs_alerts_def)
next
  case (Cons n ns)
  obtain a e where n: "n = (a, e)" by (cases n)
  show ?case
  proof (cases "is_directory e")
    case True
    with Cons n show ?thesis by (simp add: dispatch_eq ret_apply fs_alerts_def)
  next
    case False
    from alert_then_emit_bound [OF Cons.prems fs_report_ok fs_alert_valid, of a e a e d] obtain w1 where
      w1: "dispatch n (d, w) = (Inr (), (d, w1))" "emitted [fs_report a e] w w1" "alerts_added [fs_alert a e] w w1"
      using False n by (auto simp: dispatch_eq)
    then have "bound l w1" using Cons.prems emitted_bound by blast
    with Cons.IH obtain w' where "for_each dispatch ns (d, w1) = (Inr (), (d, w'))"
      "alerts_added (fs_alerts ns) w1 w'"
      "emitted (map (\<lambda>(a, e). fs_report a e) (filter (\<lambda>(a, e). \<not> is_directory e) ns)) w1 w'" by blast
    then show ?thesis
      using w1 False n emitted_trans [OF w1(2)] alerts_added_trans [OF w1(3)]
      by (simp add: fs_alerts_def)
  qed
qed

theorem watchdog_alerts_and_events_witness:
  "\<exists>w'. for_each dispatch [(Moved, \<lparr>is_directory = False, src_path = lit ''/a'', dest_path = lit ''/b''\<rparr>),
        (Created, \<lparr>is_directory = True, src_path = lit ''/d'', dest_path = []\<rparr>)]
      (\<lparr>watch_path = lit ''/'', recursive = True\<rparr>, sample_world (Some 7))
      = (Inr (), (\<lparr>watch_path = lit ''/'', recursive = True\<rparr>, w'))
    \<and> alerts_added [(lit ''file_moved'', lit ''/a -> /b'', lit ''low'')] (sample_world (Some 7)) w'"
  using watchdog_alerts_and_events [OF sample_world_simps(1),
      of "[(Moved, \<lparr>is_directory = False, src_path = lit ''/a'', dest_path = lit ''/b''\<rparr>),
        (Created, \<lparr>is_directory = True, src_path = lit ''/d'', dest_path = []\<rparr>)]"
      "\<lparr>watch_path = lit ''/'', recursive = True\<rparr>"]
  by (auto simp: fs_alerts_def fs_alert_def moved_text_def simp flip: lit_append)

text \<open>Without a bound engine, as when the monitors run on their own, a file notification still
  leaves its alert in the queue, but the handler then raises RuntimeError and no event reaches
  the bus.\<close>

theorem watchdog_unbound_raises_after_alert:
  assumes "usable_loop (ENGINE w) = None" "\<not> is_directory e"
  shows "\<exists>w'. dispatch (a, e) (d, w) = (Inl RuntimeError, (d, w'))
    \<and> alerts_added [fs_alert a e] w w' \<and> ENGINE w' = ENGINE w"
  using alert_then_emit_unbound [OF assms(1) fs_report_ok fs_alert_valid, of a e a e d] assms(2)
  by (auto simp: dispatch_eq)

theorem watchdog_unbound_raises_after_alert_witness:
  "\<exists>w'. dispatch (Created, \<lparr>is_directory = False, src_path = lit ''/a'', dest_path = []\<rparr>)
      (\<lparr>watch_path = lit ''/'', recursive = True\<rparr>, sample_world None)
      = (Inl RuntimeError, (\<lparr>watch_path = lit ''/'', recursive = True\<rparr>, w'))
    \<and> alerts_added [(lit ''file_created'', lit ''/a'', lit ''low'')] (sample_world None) w'"
  using watchdog_unbound_raises_after_alert [OF sample_world_simps(2), of
      "\<lparr>is_directory = False, src_path = lit ''/a'', dest_path = []\<rparr>" Created
      "\<lparr>watch_path = lit ''/'', recursive = True\<rparr>"]
  by (auto simp: fs_alert_def)

end
