(* ===== verification/Ebpf_Hooks.thy ===== *)
theory Ebpf_Hooks
  imports File_Watchdog
begin

text \<open>
  \<open>xdr/host/ebpf_hooks.py\<close>: \<open>BpfSyscallWatcher\<close>, its whitelist, the walk along parent
  processes through \<open>/proc\<close> and the event handler. The process table is a dictionary from
  process ids to the text of \<open>/proc/<pid>/stat\<close>, as it is when the walk reads it; a missing
  entry is a process that is gone. Compiling and attaching the BPF program is BCC's.
\<close>

type_synonym proc_table = "(int, str) dict"

text \<open>The \<open>BpfCallEvent\<close> structure; reading a \<open>c_char\<close> array stops at the first NUL.\<close>

record bpf_call_event =
  be_pid :: "32 word"
  be_comm :: "8 word list"

definition comm_value :: "bpf_call_event \<Rightarrow> bytes" where
  "comm_value e = takeWhile (\<lambda>b. b \<noteq> 0) (take 16 (be_comm e))"

text \<open>The kernel side: \<open>bpf_get_current_pid_tgid\<close> has the process id in its upper half;
  \<open>comm\<close> is what \<open>bpf_get_current_comm\<close> wrote.\<close>

definition on_sys_bpf :: "64 word \<Rightarrow> 8 word list \<Rightarrow> bpf_call_event" where
  "on_sys_bpf pid_tgid comm = \<lparr>be_pid = ucast (drop_bit 32 pid_tgid), be_comm = comm\<rparr>"

lemma on_sys_bpf_pid: "uint (be_pid (on_sys_bpf pid_tgid comm)) = uint pid_tgid div 2 ^ 32"
proof -
  have "uint pid_tgid < 18446744073709551616" using unsigned_less [of pid_tgid, where 'a = int] by simp
  then have "take_bit 32 (uint pid_tgid div 2 ^ 32) = uint pid_tgid div 2 ^ 32"
    by (intro take_bit_int_eq_self) (simp_all add: pos_imp_zdiv_nonneg_iff)
  moreover have "uint (drop_bit 32 pid_tgid) = uint pid_tgid div 2 ^ 32"
    by (simp add: drop_bit_eq_div uint_div)
  moreover have "uint (be_pid (on_sys_bpf pid_tgid comm)) = take_bit 32 (uint (drop_bit 32 pid_tgid))"
    unfolding on_sys_bpf_def bpf_call_event.simps unsigned_ucast_eq by simp
  ultimately show ?thesis by (simp only:)
qed

record bpf_watcher =
  whitelist :: "int list"

definition new_bpf_watcher :: "int \<Rightarrow> int \<Rightarrow> int list option \<Rightarrow> bpf_watcher" where
  "new_bpf_watcher self_pid parent_pid extra =
     \<lparr>whitelist = List.insert parent_pid (List.insert self_pid
        (case extra of None \<Rightarrow> [] | Some pids \<Rightarrow> pids))\<rparr>"

lemma new_bpf_watcher_pids:
  "set (whitelist (new_bpf_watcher self_pid parent_pid extra)) =
     {self_pid, parent_pid} \<union> (case extra of None \<Rightarrow> {} | Some pids \<Rightarrow> set pids)"
  by (auto simp: new_bpf_watcher_def split: option.splits)

text \<open>\<open>main\<close>, up to the polling loop: only root may attach the probe.\<close>

definition ebpf_main :: "int \<Rightarrow> int \<Rightarrow> int \<Rightarrow> int list \<Rightarrow> py_error + bpf_watcher" where
  "ebpf_main euid self_pid parent_pid extra =
     (if euid \<noteq> 0 then Inl (SystemExit 1) else Inr (new_bpf_watcher self_pid parent_pid (Some extra)))"

section \<open>The parent chain\<close>

text \<open>The text after the last closing parenthesis; \<open>None\<close> where indexing the split raises.\<close>

definition after_last :: "int \<Rightarrow> str \<Rightarrow> str option" where
  "after_last c s = (if c \<in> set s then Some (rev (takeWhile (\<lambda>x. x \<noteq> c) (rev s))) else None)"

definition ppid_of_stat :: "str \<Rightarrow> int option" where
  "ppid_of_stat stat = (case after_last 41 stat of
       None \<Rightarrow> None
     | Some rest \<Rightarrow> (case split_words rest of state # ppid # _ \<Rightarrow> parse_int ppid | _ \<Rightarrow> None))"

definition parent_pid :: "proc_table \<Rightarrow> int \<Rightarrow> int option" where
  "parent_pid procs pid = (case dict_get procs pid of None \<Rightarrow> None | Some stat \<Rightarrow> ppid_of_stat stat)"

function walk_parents :: "proc_table \<Rightarrow> int \<Rightarrow> int \<Rightarrow> int list \<Rightarrow> bool" where
  "walk_parents procs self_pid current seen =
     (if current = 0 \<or> current = 1 \<or> current \<in> set seen then False
      else if current = self_pid then True
      else (case parent_pid procs current of
              None \<Rightarrow> False
            | Some ppid \<Rightarrow> walk_parents procs self_pid ppid (current # seen)))"
  by pat_completeness auto
termination
proof (relation "measure (\<lambda>(procs, self_pid, current, seen). card (fst ` set procs - set seen))", goal_cases)
  case 1
  then show ?case by simp
next
  case (2 procs self_pid current seen ppid)
  then have "current \<in> fst ` set procs"
    using dict_get_None [of procs current] by (auto simp: parent_pid_def split: option.splits)
  with 2 have "card (fst ` set procs - set (current # seen)) < card (fst ` set procs - set seen)"
    by (intro psubset_card_mono) auto
  then show ?case by simp
qed

declare walk_parents.simps [simp del]

definition is_descendant_of_self :: "proc_table \<Rightarrow> int \<Rightarrow> int \<Rightarrow> bool" where
  "is_descendant_of_self procs self_pid pid = walk_parents procs self_pid pid []"

section \<open>The handler\<close>

text \<open>\<open>printable\<close> is the Unicode database's predicate for characters beyond ASCII.\<close>

definition process_text :: "(int \<Rightarrow> bool) \<Rightarrow> int \<Rightarrow> str \<Rightarrow> str" where
  "process_text printable pid comm = lit ''pid='' @ dec pid @ lit '' comm='' @ repr_str printable comm"

definition bpf_report :: "(int \<Rightarrow> bool) \<Rightarrow> int \<Rightarrow> str \<Rightarrow> report" where
  "bpf_report printable pid comm = \<lparr>rp_vector = KERNEL, rp_type = lit ''ebpf_unexpected_bpf_syscall'',
     rp_src = process_text printable pid comm, rp_severity = 4,
     rp_metadata = [(lit ''pid'', PInt pid), (lit ''comm'', PStr comm)]\<rparr>"

definition handle_event ::
  "(int \<Rightarrow> bool) \<Rightarrow> int \<Rightarrow> proc_table \<Rightarrow> bpf_call_event \<Rightarrow> (bpf_watcher \<times> 'a world_scheme, unit) op" where
  "handle_event printable self_pid procs event =
     (let pid = uint (be_pid event); comm = decode_utf8 Replace (comm_value event) in
      and_then (look whitelist) (\<lambda>wl.
        if pid \<in> set wl \<or> is_descendant_of_self procs self_pid pid then ret ()
        else and_then (outside (push_alert (lit ''ebpf_unexpected_bpf_syscall'')
                 (process_text printable pid comm) (lit ''high''))) (\<lambda>_.
               outside (emit_report (bpf_report printable pid comm)))))"

section \<open>Correctness of the walk\<close>

fun ancestor :: "proc_table \<Rightarrow> nat \<Rightarrow> int \<Rightarrow> int option" where
  "ancestor procs 0 pid = Some pid"
| "ancestor procs (Suc n) pid = (case parent_pid procs pid of None \<Rightarrow> None | Some q \<Rightarrow> ancestor procs n q)"

lemma ancestor_add:
  "ancestor procs (m + n) p = (case ancestor procs m p of None \<Rightarrow> None | Some q \<Rightarrow> ancestor procs n q)"
  by (induction m arbitrary: p) (auto split: option.splits)

text \<open>A path that reaches the goal without going through the pids to avoid.\<close>

definition path_avoiding :: "proc_table \<Rightarrow> int \<Rightarrow> int set \<Rightarrow> int \<Rightarrow> nat \<Rightarrow> bool" where
  "path_avoiding procs goal A p n \<longleftrightarrow> ancestor procs n p = Some goal
     \<and> (\<forall>k \<le> n. \<forall>q. ancestor procs k p = Some q \<longrightarrow> q \<notin> A)"

lemma path_Suc:
  "parent_pid procs p = Some q \<Longrightarrow>
   path_avoiding procs goal A p (Suc n) \<longleftrightarrow> p \<notin> A \<and> path_avoiding procs goal A q n"
proof -
  assume q: "parent_pid procs p = Some q"
  have "(\<forall>k \<le> Suc n. \<forall>r. ancestor procs k p = Some r \<longrightarrow> r \<notin> A)
      \<longleftrightarrow> p \<notin> A \<and> (\<forall>k \<le> n. \<forall>r. ancestor procs k q = Some r \<longrightarrow> r \<notin> A)"
    unfolding less_Suc_eq_le [symmetric] All_less_Suc2 [of "Suc n"] by (simp add: q)
  with q show ?thesis by (auto simp: path_avoiding_def)
qed

text \<open>A shortest path does not come back to where it starts.\<close>

lemma path_shortcut:
  assumes "path_avoiding procs goal A p n"
  shows "\<exists>m. path_avoiding procs goal A p m \<and> (\<forall>k. 0 < k \<and> k \<le> m \<longrightarrow> ancestor procs k p \<noteq> Some p)"
proof -
  define m where "m = (LEAST m. path_avoiding procs goal A p m)"
  have m: "path_avoiding procs goal A p m" using assms unfolding m_def by (rule LeastI)
  have least: "\<not> path_avoiding procs goal A p k" if "k < m" for k
    using that not_less_Least unfolding m_def by blast
  have "ancestor procs k p \<noteq> Some p" if k: "0 < k" "k \<le> m" for k
  proof
    assume loop: "ancestor procs k p = Some p"
    have shift: "ancestor procs (k + j) p = ancestor procs j p" for j
      using ancestor_add [of procs k j p] loop by simp
    have "ancestor procs (m - k) p = Some goal"
      using m shift [of "m - k"] k(2) by (simp add: path_avoiding_def)
    then have "path_avoiding procs goal A p (m - k)"
      using m unfolding path_avoiding_def by (meson diff_le_self le_trans)
    with least [of "m - k"] k show False by simp
  qed
  with m show ?thesis by blast
qed

lemma walk_parents_iff:
  "walk_parents procs self_pid p seen \<longleftrightarrow> (\<exists>n. path_avoiding procs self_pid ({0, 1} \<union> set seen) p n)"
proof (induction procs self_pid p seen rule: walk_parents.induct)
  case (1 procs self_pid p seen)
  let ?A = "{0, 1} \<union> set seen"
  consider "p \<in> ?A" | "p \<notin> ?A" "p = self_pid" | "p \<notin> ?A" "p \<noteq> self_pid" "parent_pid procs p = None"
    | q where "p \<notin> ?A" "p \<noteq> self_pid" "parent_pid procs p = Some q" by blast
  then show ?case
  proof cases
    case 1
    then have "\<not> path_avoiding procs self_pid ?A p n" for n
      unfolding path_avoiding_def by (metis ancestor.simps(1) le0)
    with 1 show ?thesis by (subst walk_parents.simps) auto
  next
    case 2
    then have "path_avoiding procs self_pid ?A p 0" by (simp add: path_avoiding_def)
    with 2 show ?thesis by (subst walk_parents.simps) auto
  next
    case 3
    then have "ancestor procs n p \<noteq> Some self_pid" for n by (cases n) simp_all
    with 3 show ?thesis by (subst walk_parents.simps) (auto simp: path_avoiding_def)
  next
    case (4 q)
    have "walk_parents procs self_pid p seen \<longleftrightarrow> walk_parents procs self_pid q (p # seen)"
      using 4 by (subst walk_parents.simps) auto
    also have "\<dots> \<longleftrightarrow> (\<exists>n. path_avoiding procs self_pid ({0, 1} \<union> set (p # seen)) q n)"
      using 4 "1.IH" [of q] by auto
    also have "\<dots> \<longleftrightarrow> (\<exists>n. path_avoiding procs self_pid ?A p n)"
    proof
      assume "\<exists>n. path_avoiding procs self_pid ({0, 1} \<union> set (p # seen)) q n"
      then obtain n where "path_avoiding procs self_pid ({0, 1} \<union> set (p # seen)) q n" ..
      then have "path_avoiding procs self_pid ?A q n" by (auto simp: path_avoiding_def)
      with path_Suc [OF 4(3), of self_pid ?A n] 4(1) show "\<exists>n. path_avoiding procs self_pid ?A p n" by blast
    next
      assume "\<exists>n. path_avoiding procs self_pid ?A p n"
      then obtain n where n: "path_avoiding procs self_pid ?A p n"
        "\<forall>k. 0 < k \<and> k \<le> n \<longrightarrow> ancestor procs k p \<noteq> Some p" using path_shortcut by blast
      then obtain m where m: "n = Suc m" using 4(2) by (cases n) (auto simp: path_avoiding_def)
      have "path_avoiding procs self_pid ?A q m" using n(1) path_Suc [OF 4(3)] m by blast
      moreover have "ancestor procs k q \<noteq> Some p" if "k \<le> m" for k
        using n(2) [rule_format, of "Suc k"] that 4(3) m by simp
      ultimately have "path_avoiding procs self_pid ({0, 1} \<union> set (p # seen)) q m"
        by (auto simp: path_avoiding_def)
      then show "\<exists>n. path_avoiding procs self_pid ({0, 1} \<union> set (p # seen)) q n" ..
    qed
    finally show ?thesis .
  qed
qed

text \<open>C24: the walk always ends, even on a cyclic or truncated process table, and answers yes
  exactly when the parent links lead from the pid to this process without passing through pid 0
  or 1; so a watcher that itself runs as pid 1 recognises no descendant.\<close>

theorem descendant_iff_ancestor:
  "(is_descendant_of_self procs self_pid pid \<longleftrightarrow>
     (\<exists>n. ancestor procs n pid = Some self_pid
        \<and> (\<forall>k \<le> n. ancestor procs k pid \<noteq> Some 0 \<and> ancestor procs k pid \<noteq> Some 1)))
   \<and> \<not> is_descendant_of_self procs 1 pid"
proof -
  have "path_avoiding procs g {0, 1} pid n \<longleftrightarrow> ancestor procs n pid = Some g
      \<and> (\<forall>k \<le> n. ancestor procs k pid \<noteq> Some 0 \<and> ancestor procs k pid \<noteq> Some 1)" for g n
    by (auto simp: path_avoiding_def)
  then show ?thesis
    by (auto simp: is_descendant_of_self_def walk_parents_iff)
qed

text \<open>A parent that is reported by \<open>/proc\<close>: the name in parentheses may hold anything.\<close>

lemma ppid_of_stat_line:
  assumes "41 \<notin> set rest" "split_words rest = st # dec ppid # others" "0 \<le> ppid"
  shows "ppid_of_stat (pre @ 41 # rest) = Some ppid"
proof -
  have "takeWhile (\<lambda>x. x \<noteq> 41) (rev rest @ 41 # rev pre) = rev rest"
    using assms(1) by (subst takeWhile_append2) auto
  then have "after_last 41 (pre @ 41 # rest) = Some rest" by (simp add: after_last_def)
  with assms(2,3) show ?thesis by (simp add: ppid_of_stat_def parse_int_dec)
qed

definition sample_procs :: proc_table where
  "sample_procs = [(30, lit ''30 (b) c) S 20 1''), (20, lit ''20 (sh) S 10 1''), (10, lit ''10 (py) S 1 1''),
     (50, lit ''50 (x) S 51 1''), (51, lit ''51 (y) S 50 1'')]"

lemma sample_walk:
  "is_descendant_of_self sample_procs 10 30" "\<not> is_descendant_of_self sample_procs 10 50"
  by code_simp+

theorem descendant_iff_ancestor_witness:
  "\<exists>n. ancestor sample_procs n 30 = Some 10"
  using descendant_iff_ancestor [of sample_procs 10 30] sample_walk(1) by blast

section \<open>The detector contract\<close>

definition expected_call :: "int \<Rightarrow> proc_table \<Rightarrow> bpf_watcher \<Rightarrow> bpf_call_event \<Rightarrow> bool" where
  "expected_call self_pid procs d e \<longleftrightarrow>
     uint (be_pid e) \<in> set (whitelist d) \<or> is_descendant_of_self procs self_pid (uint (be_pid e))"

definition call_report :: "(int \<Rightarrow> bool) \<Rightarrow> bpf_call_event \<Rightarrow> report" where
  "call_report printable e = bpf_report printable (uint (be_pid e)) (decode_utf8 Replace (comm_value e))"

definition call_alert :: "(int \<Rightarrow> bool) \<Rightarrow> bpf_call_event \<Rightarrow> str \<times> str \<times> str" where
  "call_alert printable e = (lit ''ebpf_unexpected_bpf_syscall'',
     process_text printable (uint (be_pid e)) (decode_utf8 Replace (comm_value e)), lit ''high'')"

lemma handle_event_eq:
  "handle_event printable self_pid procs e (d, w) =
     (if expected_call self_pid procs d e then (Inr (), (d, w))
      else alert_then_emit (call_alert printable e) (call_report printable e) (d, w))"
  by (simp add: handle_event_def expected_call_def alert_then_emit_def call_alert_def call_report_def
      Let_def and_then_apply look_apply ret_apply)

lemma call_report_ok: "report_ok (call_report printable e)"
  by (simp add: call_report_def bpf_report_def report_ok_def)

lemma call_alert_valid: "snd (snd (call_alert printable e)) \<in> VALID_SEVERITIES"
  by (simp add: call_alert_def)

interpretation bpf_calls: detector "\<lambda>(procs, e). handle_event printable self_pid procs e" "\<lambda>d. d" "\<lambda>n d. d"
    "\<lambda>d (procs, e). if expected_call self_pid procs d e then [] else [call_report printable e]"
  for printable self_pid
proof unfold_locales
  fix l and p :: "proc_table \<times> bpf_call_event" and c :: bpf_watcher and w :: "'a world_scheme"
  obtain procs e where p: "p = (procs, e)" by (cases p)
  show "\<exists>c' w'. (case p of (procs, e) \<Rightarrow> handle_event printable self_pid procs e) (c, w) = (Inr (), c', w')
      \<and> c' = c \<and> emitted (case p of (procs, e) \<Rightarrow>
          if expected_call self_pid procs c e then [] else [call_report printable e]) w w'" if "bound l w"
    using alert_then_emit_bound [OF that call_report_ok call_alert_valid, of printable e printable e c]
    by (auto simp: p handle_event_eq)
  show "\<exists>c' w'. (case p of (procs, e) \<Rightarrow> handle_event printable self_pid procs e) (c, w) =
      (if (case p of (procs, e) \<Rightarrow> if expected_call self_pid procs c e then [] else [call_report printable e]) = []
       then Inr () else Inl RuntimeError, c', w')
      \<and> ENGINE w' = ENGINE w
      \<and> ((case p of (procs, e) \<Rightarrow> if expected_call self_pid procs c e then [] else [call_report printable e]) = []
          \<longrightarrow> c' = c)" if "usable_loop (ENGINE w) = None"
    using alert_then_emit_unbound [OF that call_report_ok call_alert_valid, of printable e printable e c]
    by (auto simp: p handle_event_eq)
qed (auto simp: call_report_ok split: if_splits)

text \<open>C23: a bpf() call is reported, once, as one alert of severity high and one kernel event
  naming the pid and the process name, exactly when the pid is neither whitelisted nor a
  descendant of this process; this process and its parent never are, whatever extra pids are
  whitelisted.\<close>

theorem bpf_call_reported_iff:
  assumes "bound l w"
  shows "\<exists>w'. handle_event printable self_pid procs e (new_bpf_watcher self_pid par extra, w)
        = (Inr (), (new_bpf_watcher self_pid par extra, w'))
    \<and> (let pid = uint (be_pid e);
           quiet = pid = self_pid \<or> pid = par \<or> (\<exists>pids. extra = Some pids \<and> pid \<in> set pids)
             \<or> is_descendant_of_self procs self_pid pid
       in alerts_added (if quiet then [] else [call_alert printable e]) w w'
        \<and> emitted (if quiet then [] else [call_report printable e]) w w')"
proof -
  let ?d = "new_bpf_watcher self_pid par extra"
  have "expected_call self_pid procs ?d e \<longleftrightarrow>
      uint (be_pid e) = self_pid \<or> uint (be_pid e) = par \<or> (\<exists>pids. extra = Some pids \<and> uint (be_pid e) \<in> set pids)
      \<or> is_descendant_of_self procs self_pid (uint (be_pid e))"
    by (auto simp: expected_call_def new_bpf_watcher_pids split: option.splits)
  then show ?thesis
    using alert_then_emit_bound [OF assms call_report_ok call_alert_valid, of printable e printable e ?d]
    by (auto simp: handle_event_eq Let_def)
qed

theorem bpf_call_reported_iff_witness:
  "\<exists>w'. handle_event (\<lambda>_. True) 10 sample_procs \<lparr>be_pid = 50, be_comm = [120, 0, 121]\<rparr>
      (new_bpf_watcher 10 9 None, sample_world (Some 7)) = (Inr (), (new_bpf_watcher 10 9 None, w'))
    \<and> alerts_added [(lit ''ebpf_unexpected_bpf_syscall'', lit ''pid=50 comm='' @ [39, 120, 39], lit ''high'')]
        (sample_world (Some 7)) w'"
proof -
  have "call_alert (\<lambda>_. True) \<lparr>be_pid = 50, be_comm = [120, 0, 121]\<rparr> =
      (lit ''ebpf_unexpected_bpf_syscall'', lit ''pid=50 comm='' @ [39, 120, 39], lit ''high'')"
    by code_simp
  then show ?thesis
    using bpf_call_reported_iff [OF sample_world_simps(1), of "\<lambda>_. True" 10 sample_procs
        "\<lparr>be_pid = 50, be_comm = [120, 0, 121]\<rparr>" 9 None] sample_walk(2)
    by (simp add: Let_def) blast
qed

section \<open>The program of its own\<close>

text \<open>\<open>run\<close>: every poll of the buffer calls the handler for the events in it, until the interrupt ends
  the last one. The handler is a \<open>ctypes\<close> callback, out of which no exception comes: what it
  raises is reported on the terminal and dropped.\<close>

definition event_callback ::
  "(int \<Rightarrow> bool) \<Rightarrow> int \<Rightarrow> proc_table \<times> bpf_call_event \<Rightarrow> (bpf_watcher \<times> 'a world_scheme, unit) op" where
  "event_callback printable self_pid = (\<lambda>(procs, e) s. (Inr (), snd (handle_event printable self_pid procs e s)))"

definition ebpf_run ::
  "(int \<Rightarrow> bool) \<Rightarrow> int \<Rightarrow> (proc_table \<times> bpf_call_event) list list \<Rightarrow> (bpf_watcher \<times> 'a world_scheme, unit) op" where
  "ebpf_run printable self_pid = for_each (for_each (event_callback printable self_pid))"

lemma for_each_concat: "for_each (for_each f) xss = for_each f (concat xss)"
  by (induction xss) (simp_all add: for_each_append)

definition unexpected :: "int \<Rightarrow> bpf_watcher \<Rightarrow> (proc_table \<times> bpf_call_event) list \<Rightarrow> bpf_call_event list" where
  "unexpected self_pid d calls = map snd (filter (\<lambda>(procs, e). \<not> expected_call self_pid procs d e) calls)"

lemma event_callback_alerts:
  assumes "p = (procs, e)"
  shows "\<exists>w'. event_callback printable self_pid p (d, w) = (Inr (), (d, w'))
    \<and> alerts_added (map (call_alert printable) (unexpected self_pid d [p])) w w'
    \<and> usable_loop (ENGINE w') = usable_loop (ENGINE w)
    \<and> (usable_loop (ENGINE w) = None \<longrightarrow> ENGINE w' = ENGINE w)"
proof (cases "usable_loop (ENGINE w)")
  case None
  from alert_then_emit_unbound [OF None call_report_ok call_alert_valid, of printable e printable e d] show ?thesis
    by (auto simp: event_callback_def handle_event_eq unexpected_def assms)
next
  case (Some l)
  then have "bound l w" by (simp add: bound_def)
  from alert_then_emit_bound [OF this call_report_ok call_alert_valid, of printable e printable e d] show ?thesis
    by (auto simp: event_callback_def handle_event_eq unexpected_def emitted_def Some assms)
qed

text \<open>Run as its own program the watcher keeps polling to the end and leaves one alert per unexpected
  bpf() call, in order, on the queue nobody reads; nothing binds the engine there, so every call
  of the handler raises after its alert and no event is ever published.\<close>

theorem ebpf_run_alerts_only:
  "\<exists>w'. ebpf_run printable self_pid polls (d, w) = (Inr (), (d, w'))
    \<and> alerts_added (map (call_alert printable) (unexpected self_pid d (concat polls))) w w'
    \<and> (usable_loop (ENGINE w) = None \<longrightarrow> ENGINE w' = ENGINE w)"
proof -
  have "\<exists>w'. for_each (event_callback printable self_pid) calls (d, w) = (Inr (), (d, w'))
    \<and> alerts_added (map (call_alert printable) (unexpected self_pid d calls)) w w'
    \<and> (usable_loop (ENGINE w) = None \<longrightarrow> ENGINE w' = ENGINE w)" for calls
  proof (induction calls arbitrary: w)
    case Nil
    then show ?case by (auto simp: ret_apply unexpected_def)
  next
    case (Cons p calls)
    obtain procs e where p: "p = (procs, e)" by (cases p)
    from event_callback_alerts [OF p, of printable self_pid d w] obtain w1 where
      w1: "event_callback printable self_pid p (d, w) = (Inr (), (d, w1))"
        "alerts_added (map (call_alert printable) (unexpected self_pid d [p])) w w1"
        "usable_loop (ENGINE w1) = usable_loop (ENGINE w)" "usable_loop (ENGINE w) = None \<longrightarrow> ENGINE w1 = ENGINE w"
      by (elim exE conjE) (rule that)
    from Cons.IH [of w1] obtain w' where
      w': "for_each (event_callback printable self_pid) calls (d, w1) = (Inr (), (d, w'))"
        "alerts_added (map (call_alert printable) (unexpected self_pid d calls)) w1 w'"
        "usable_loop (ENGINE w1) = None \<longrightarrow> ENGINE w' = ENGINE w1"
      by (elim exE conjE) (rule that)
    have "unexpected self_pid d (p # calls) = unexpected self_pid d [p] @ unexpected self_pid d calls"
      by (simp add: unexpected_def)
    then have "alerts_added (map (call_alert printable) (unexpected self_pid d (p # calls))) w w'"
      using alerts_added_trans [OF w1(2) w'(2)] by (simp only: map_append)
    moreover have "for_each (event_callback printable self_pid) (p # calls) (d, w) = (Inr (), (d, w'))"
      using w1(1) w'(1) by (simp add: and_then_apply)
    moreover have "usable_loop (ENGINE w) = None \<longrightarrow> ENGINE w' = ENGINE w" using w1(3,4) w'(3) by simp
    ultimately show ?case by (intro exI [of _ w'] conjI)
  qed
  then show ?thesis by (simp add: ebpf_run_def for_each_concat)
qed

theorem ebpf_run_alerts_only_witness:
  "\<exists>w'. ebpf_run (\<lambda>_. True) 10 [[(sample_procs, \<lparr>be_pid = 30, be_comm = []\<rparr>)], [(sample_procs, \<lparr>be_pid = 50, be_comm = [120]\<rparr>)]]
      (new_bpf_watcher 10 9 None, sample_world None) = (Inr (), (new_bpf_watcher 10 9 None, w'))
    \<and> alerts_added [call_alert (\<lambda>_. True) \<lparr>be_pid = 50, be_comm = [120]\<rparr>] (sample_world None) w'
    \<and> ENGINE w' = ENGINE (sample_world None)"
  using ebpf_run_alerts_only [of "\<lambda>_. True" 10 "[[(sample_procs, \<lparr>be_pid = 30, be_comm = []\<rparr>)], [(sample_procs, \<lparr>be_pid = 50, be_comm = [120]\<rparr>)]]"
      "new_bpf_watcher 10 9 None" "sample_world None"] sample_walk
  by (simp add: unexpected_def expected_call_def new_bpf_watcher_def List.insert_def)

end
