(* ===== verification/Host_Monitors.thy ===== *)
theory Host_Monitors
  imports Ebpf_Hooks
begin

text \<open>
  \<open>run_host_monitors.py\<close>: the file watchdog and the bpf() watcher as producers of alerts, the
  thread that drains the alert queue, and the duration of the run. The threads are steps of a
  transition system in any order, and a poll under way when the stop is set may still
  deliver; an exception raised in a producer ends that call, and whether its thread goes on
  is up to the library that called it: the runs here include both. Nothing in this program binds \<open>ENGINE\<close>, but the steps are defined for
  either case.
\<close>

record host =
  seen_types :: "str list"
  stop_event :: bool
  fs_watchdog :: file_watchdog
  ebpf_watcher :: bpf_watcher

definition host_main :: "int \<Rightarrow> int \<Rightarrow> int \<Rightarrow> str \<Rightarrow> py_error + host" where
  "host_main euid self_pid par watch_dir =
     (if euid \<noteq> 0 then Inl (SystemExit 1)
      else Inr \<lparr>seen_types = [], stop_event = False,
        fs_watchdog = \<lparr>watch_path = watch_dir, recursive = True\<rparr>,
        ebpf_watcher = new_bpf_watcher self_pid par None\<rparr>)"

text \<open>One pass of \<open>drain_queue\<close>: the type of the next alert is recorded, an empty queue is
  polled again.\<close>

definition drain_pass :: "(host \<times> 'a world_scheme, unit) op" where
  "drain_pass = (\<lambda>(h, w). case get_nowait w of
       None \<Rightarrow> (Inr (), (h, w))
     | Some (alert, w') \<Rightarrow> (Inr (), (h\<lparr>seen_types := List.insert (al_type alert) (seen_types h)\<rparr>, w')))"

definition with_watchdog :: "(file_watchdog \<times> 'w, 'a) op \<Rightarrow> (host \<times> 'w, 'a) op" where
  "with_watchdog = on_part fs_watchdog (\<lambda>d h. h\<lparr>fs_watchdog := d\<rparr>)"

definition with_ebpf :: "(bpf_watcher \<times> 'w, 'a) op \<Rightarrow> (host \<times> 'w, 'a) op" where
  "with_ebpf = on_part ebpf_watcher (\<lambda>d h. h\<lparr>ebpf_watcher := d\<rparr>)"

definition any_startswith :: "string \<Rightarrow> str list \<Rightarrow> bool" where
  "any_startswith p ts = list_ex (\<lambda>t. take (length p) t = lit p) ts"

text \<open>The two lines and the verdict printed at the end.\<close>

definition file_side :: "host \<Rightarrow> bool" where
  "file_side h = any_startswith ''file_'' (seen_types h)"

definition ebpf_side :: "host \<Rightarrow> bool" where
  "ebpf_side h = any_startswith ''ebpf_'' (seen_types h)"

definition both_confirmed :: "host \<Rightarrow> bool" where
  "both_confirmed h \<longleftrightarrow> file_side h \<and> ebpf_side h"

section \<open>The threads\<close>

datatype host_action =
    FileNotice fs_action fs_event | BpfCall proc_table bpf_call_event | Poll | Stop

inductive host_step ::
  "(int \<Rightarrow> bool) \<Rightarrow> int \<Rightarrow> host \<times> 'a world_scheme \<Rightarrow> host_action \<Rightarrow> host \<times> 'a world_scheme \<Rightarrow> bool"
  for printable self_pid where
  notice: "with_watchdog (dispatch (a, e)) s = (r, s') \<Longrightarrow>
    host_step printable self_pid s (FileNotice a e) s'"
| call: "with_ebpf (handle_event printable self_pid procs e) s = (r, s') \<Longrightarrow>
    host_step printable self_pid s (BpfCall procs e) s'"
| poll: "drain_pass s = (r, s') \<Longrightarrow> host_step printable self_pid s Poll s'"
| stop: "host_step printable self_pid (h, w) Stop (h\<lparr>stop_event := True\<rparr>, w)"

inductive_simps host_step_simps:
  "host_step printable self_pid s (FileNotice a e) s'" "host_step printable self_pid s (BpfCall procs e) s'"
  "host_step printable self_pid s Poll s'" "host_step printable self_pid s Stop s'"

lemma host_step_deterministic:
  "host_step printable self_pid s a s' \<Longrightarrow> host_step printable self_pid s a s'' \<Longrightarrow> s' = s''"
  by (cases a) (auto simp: host_step_simps)

inductive host_run ::
  "(int \<Rightarrow> bool) \<Rightarrow> int \<Rightarrow> host \<times> 'a world_scheme \<Rightarrow> host_action list \<Rightarrow> host \<times> 'a world_scheme \<Rightarrow> bool"
  for printable self_pid where
  start: "host_run printable self_pid s [] s"
| more: "host_run printable self_pid s as s' \<Longrightarrow> host_step printable self_pid s' a s'' \<Longrightarrow>
    host_run printable self_pid s (as @ [a]) s''"

text \<open>The types of the alerts an action causes.\<close>

fun action_types :: "int \<Rightarrow> bpf_watcher \<Rightarrow> host_action \<Rightarrow> str list" where
  "action_types self_pid d (FileNotice a e) = (if is_directory e then [] else [fst (fs_alert a e)])"
| "action_types self_pid d (BpfCall procs e) =
     (if expected_call self_pid procs d e then [] else [lit ''ebpf_unexpected_bpf_syscall''])"
| "action_types self_pid d Poll = []"
| "action_types self_pid d Stop = []"

definition queue_types :: "'a alert_env_scheme \<Rightarrow> str list" where
  "queue_types w = map al_type (ALERT_QUEUE w)"

lemma alert_then_emit_any:
  assumes "report_ok r" "snd (snd al) \<in> VALID_SEVERITIES"
  shows "\<exists>x w'. alert_then_emit al r (c, w) = (x, (c, w')) \<and> alerts_added [al] w w'"
proof (cases "usable_loop (ENGINE w)")
  case None
  then show ?thesis using alert_then_emit_unbound [OF None assms, of c] by blast
next
  case (Some l)
  then have "bound l w" by (simp add: bound_def)
  then show ?thesis using alert_then_emit_bound [OF _ assms, of l w c] by blast
qed

lemma added_types: "alerts_added xs w w' \<Longrightarrow> queue_types w' = queue_types w @ map fst xs"
  by (auto simp: alerts_added_def queue_types_def alert_view_def)

lemma host_step_types:
  assumes "host_step printable self_pid (h, w) a (h', w')"
  shows "ebpf_watcher h' = ebpf_watcher h
    \<and> (\<exists>gone. gone @ queue_types w' = queue_types w @ action_types self_pid (ebpf_watcher h) a
        \<and> set (seen_types h') = set (seen_types h) \<union> set gone)"
  using assms
proof (cases rule: host_step.cases)
  case (notice b e r)
  show ?thesis
  proof (cases "is_directory e")
    case True
    with notice show ?thesis
      by (auto simp: with_watchdog_def on_part_apply dispatch_eq ret_apply)
  next
    case False
    obtain x w1 where x: "alert_then_emit (fs_alert b e) (fs_report b e) (fs_watchdog h, w) = (x, (fs_watchdog h, w1))"
      "alerts_added [fs_alert b e] w w1"
      using alert_then_emit_any [OF fs_report_ok fs_alert_valid, of b e b e "fs_watchdog h" w] by blast
    with notice False show ?thesis
      by (auto simp: with_watchdog_def on_part_apply dispatch_eq added_types)
  qed
next
  case (call procs e r)
  show ?thesis
  proof (cases "expected_call self_pid procs (ebpf_watcher h) e")
    case True
    with call show ?thesis by (auto simp: with_ebpf_def on_part_apply handle_event_eq)
  next
    case False
    obtain x w1 where x: "alert_then_emit (call_alert printable e) (call_report printable e) (ebpf_watcher h, w)
        = (x, (ebpf_watcher h, w1))" "alerts_added [call_alert printable e] w w1"
      using alert_then_emit_any [OF call_report_ok call_alert_valid, of printable e printable e "ebpf_watcher h" w] by blast
    with call False show ?thesis
      by (auto simp: with_ebpf_def on_part_apply handle_event_eq added_types) (simp add: call_alert_def)
  qed
next
  case (poll r)
  then show ?thesis
    by (auto simp: drain_pass_def get_nowait_def queue_types_def split: list.splits
        intro!: exI [of _ "[al_type (hd (ALERT_QUEUE w))]"])
next
  case stop
  then show ?thesis by auto
qed

lemma host_run_types:
  assumes "host_run printable self_pid s as s'" "s = (h, w)" "s' = (h', w')"
  shows "ebpf_watcher h' = ebpf_watcher h
    \<and> (\<exists>gone. gone @ queue_types w' = queue_types w @ concat (map (action_types self_pid (ebpf_watcher h)) as)
        \<and> set (seen_types h') = set (seen_types h) \<union> set gone)"
  using assms
proof (induction arbitrary: h' w' rule: host_run.induct)
  case (start s)
  then show ?case by auto
next
  case (more s as s1 a s2)
  obtain h1 w1 where s1: "s1 = (h1, w1)" by (cases s1)
  from more.IH [OF more.prems(1) s1] obtain gone where
    g: "ebpf_watcher h1 = ebpf_watcher h"
      "gone @ queue_types w1 = queue_types w @ concat (map (action_types self_pid (ebpf_watcher h)) as)"
      "set (seen_types h1) = set (seen_types h) \<union> set gone" by blast
  from host_step_types [of printable self_pid h1 w1 a h' w'] more.hyps(2) more.prems(2) s1 obtain gone' where
    g': "ebpf_watcher h' = ebpf_watcher h1"
      "gone' @ queue_types w' = queue_types w1 @ action_types self_pid (ebpf_watcher h1) a"
      "set (seen_types h') = set (seen_types h1) \<union> set gone'" by blast
  have "(gone @ gone') @ queue_types w' = queue_types w @ concat (map (action_types self_pid (ebpf_watcher h)) (as @ [a]))"
    using g'(2) unfolding g(1) append_assoc map_append concat_append
    by (simp add: g(2) flip: append_assoc)
  then show ?case
    using g g' by (intro conjI exI [of _ "gone @ gone'"]) auto
qed

lemma file_types: "take 5 (fst (fs_alert a e)) = lit ''file_''" "take 5 (fst (fs_alert a e)) \<noteq> lit ''ebpf_''"
  by (cases a; simp add: fs_alert_def lit_def)+

lemma ebpf_type: "take 5 (lit ''ebpf_unexpected_bpf_syscall'') = lit ''ebpf_''"
  by (simp add: lit_def)

text \<open>The alerts of one detector that the consumer has not taken.\<close>

definition unread :: "string \<Rightarrow> 'a alert_env_scheme \<Rightarrow> bool" where
  "unread p w \<longleftrightarrow> (\<exists>al \<in> set (ALERT_QUEUE w). take (length p) (al_type al) = lit p)"

lemma notice_types:
  "(\<exists>t \<in> set (concat (map (action_types self_pid d) as)). take 5 t = lit ''file_'')
     \<longleftrightarrow> (\<exists>a e. FileNotice a e \<in> set as \<and> \<not> is_directory e)"
proof
  assume "\<exists>t \<in> set (concat (map (action_types self_pid d) as)). take 5 t = lit ''file_''"
  then obtain a t where "a \<in> set as" "t \<in> set (action_types self_pid d a)" "take 5 t = lit ''file_''" by auto
  then show "\<exists>a e. FileNotice a e \<in> set as \<and> \<not> is_directory e"
    by - (cases a; auto simp: ebpf_type split: if_splits)
next
  assume "\<exists>a e. FileNotice a e \<in> set as \<and> \<not> is_directory e"
  then show "\<exists>t \<in> set (concat (map (action_types self_pid d) as)). take 5 t = lit ''file_''"
    using file_types(1) by (force intro!: bexI)
qed

lemma call_types:
  "(\<exists>t \<in> set (concat (map (action_types self_pid d) as)). take 5 t = lit ''ebpf_'')
     \<longleftrightarrow> (\<exists>procs e. BpfCall procs e \<in> set as \<and> \<not> expected_call self_pid procs d e)"
proof
  assume "\<exists>t \<in> set (concat (map (action_types self_pid d) as)). take 5 t = lit ''ebpf_''"
  then obtain a t where "a \<in> set as" "t \<in> set (action_types self_pid d a)" "take 5 t = lit ''ebpf_''" by auto
  then show "\<exists>procs e. BpfCall procs e \<in> set as \<and> \<not> expected_call self_pid procs d e"
    by - (cases a; auto simp: file_types split: if_splits)
next
  assume "\<exists>procs e. BpfCall procs e \<in> set as \<and> \<not> expected_call self_pid procs d e"
  then show "\<exists>t \<in> set (concat (map (action_types self_pid d) as)). take 5 t = lit ''ebpf_''"
    using ebpf_type by (force intro!: bexI)
qed

text \<open>C26: whatever the interleaving of the two producers, the consumer and the stop, and whether or
  not the engine is bound, the two lines of the summary are exact about what the consumer took: a
  file notification (not of a directory) happened in the run if and only if the file line says so
  or a file alert is still unread in the queue, and an unexpected bpf() call happened if and only
  if the eBPF line says so or an eBPF alert is still unread; the confirmation is the conjunction
  of the two lines. With an empty queue the lines are therefore exact about the run.\<close>

theorem summary_confirms_both:
  assumes "host_run printable self_pid (h, w) as (h', w')" "seen_types h = []" "ALERT_QUEUE w = []"
  shows "((\<exists>a e. FileNotice a e \<in> set as \<and> \<not> is_directory e) \<longleftrightarrow> file_side h' \<or> unread ''file_'' w')
    \<and> ((\<exists>procs e. BpfCall procs e \<in> set as \<and> \<not> expected_call self_pid procs (ebpf_watcher h) e)
        \<longleftrightarrow> ebpf_side h' \<or> unread ''ebpf_'' w')
    \<and> (both_confirmed h' \<longleftrightarrow> file_side h' \<and> ebpf_side h')"
proof -
  let ?ts = "concat (map (action_types self_pid (ebpf_watcher h)) as)"
  from host_run_types [OF assms(1) refl refl] assms(2,3) obtain gone where
    gone: "gone @ queue_types w' = ?ts" "set (seen_types h') = set gone"
    by (auto simp: queue_types_def)
  have five: "length ''file_'' = 5" "length ''ebpf_'' = 5" by simp_all
  have left: "unread p w' \<longleftrightarrow> (\<exists>t \<in> set (queue_types w'). take (length p) t = lit p)" for p
    by (simp add: unread_def queue_types_def)
  have seen: "any_startswith p (seen_types h') \<longleftrightarrow> (\<exists>t \<in> set gone. take (length p) t = lit p)" for p
    by (simp add: any_startswith_def list_ex_iff gone(2))
  have all: "any_startswith p (seen_types h') \<or> unread p w' \<longleftrightarrow> (\<exists>t \<in> set ?ts. take (length p) t = lit p)" for p
    unfolding seen left gone(1) [symmetric] by auto
  show ?thesis
    using all [of "''file_''"] all [of "''ebpf_''"]
    unfolding five notice_types call_types file_side_def ebpf_side_def both_confirmed_def by simp
qed

definition sample_host :: host where
  "sample_host = \<lparr>seen_types = [], stop_event = False, fs_watchdog = \<lparr>watch_path = lit ''/'', recursive = True\<rparr>,
     ebpf_watcher = new_bpf_watcher 10 9 None\<rparr>"

text \<open>A file is created, the consumer takes the alert, the run is stopped; \<open>ENGINE\<close> is not bound.\<close>

lemma sample_host_run:
  "\<exists>h' w'. host_run (\<lambda>_. True) 10 (sample_host, sample_world None)
     [FileNotice Created \<lparr>is_directory = False, src_path = lit ''f'', dest_path = []\<rparr>, Poll, Stop] (h', w')
   \<and> ALERT_QUEUE w' = []"
proof -
  let ?e = "\<lparr>is_directory = False, src_path = lit ''f'', dest_path = []\<rparr>"
  let ?s = "(sample_host, sample_world None)"
  obtain x w1 where x: "alert_then_emit (fs_alert Created ?e) (fs_report Created ?e) (fs_watchdog sample_host, sample_world None)
      = (x, (fs_watchdog sample_host, w1))" "alerts_added [fs_alert Created ?e] (sample_world None) w1"
    using alert_then_emit_any [OF fs_report_ok fs_alert_valid, of Created ?e Created ?e "fs_watchdog sample_host" "sample_world None"] by blast
  have "host_step (\<lambda>_. True) 10 ?s (FileNotice Created ?e) (sample_host, w1)"
    by (rule host_step.notice [where r = x]) (simp add: with_watchdog_def on_part_apply dispatch_eq x(1))
  moreover have "length (ALERT_QUEUE w1) = 1"
    using added_types [OF x(2)] by (simp add: queue_types_def sample_world_def flip: length_map [of al_type "ALERT_QUEUE w1"])
  then obtain al where "ALERT_QUEUE w1 = [al]" by (auto simp: length_Suc_conv)
  then have "\<exists>h2. host_step (\<lambda>_. True) 10 (sample_host, w1) Poll (h2, w1\<lparr>ALERT_QUEUE := []\<rparr>)"
    by (intro exI host_step.poll [where r = "Inr ()"]) (simp add: drain_pass_def get_nowait_def)
  ultimately show ?thesis
    using host_run.more [OF host_run.more [OF host_run.more [OF host_run.start]] host_step.stop] by fastforce
qed

theorem summary_confirms_both_witness:
  "\<exists>h'. file_side h' \<and> \<not> ebpf_side h' \<and> \<not> both_confirmed h' \<and> (\<exists>w'. host_run (\<lambda>_. True) 10 (sample_host, sample_world None)
     [FileNotice Created \<lparr>is_directory = False, src_path = lit ''f'', dest_path = []\<rparr>, Poll, Stop] (h', w'))"
proof -
  let ?as = "[FileNotice Created \<lparr>is_directory = False, src_path = lit ''f'', dest_path = []\<rparr>, Poll, Stop]"
  obtain h' w' where run: "host_run (\<lambda>_. True) 10 (sample_host, sample_world None) ?as (h', w')" "ALERT_QUEUE w' = []"
    using sample_host_run by blast
  have "file_side h' \<and> \<not> ebpf_side h' \<and> \<not> both_confirmed h'"
    using summary_confirms_both [OF run(1)] run(2) by (auto simp: sample_host_def sample_world_def unread_def)
  with run(1) show ?thesis by blast
qed

section \<open>The duration of a run\<close>

text \<open>The wait loop of \<open>main\<close>; the clock is read only when a duration was given. \<open>None\<close> is a
  run that only a keyboard interrupt ends.\<close>

partial_function (option) wait_loop :: "int \<Rightarrow> pyfloat \<Rightarrow> 'a env_scheme \<Rightarrow> 'a env_scheme option" where
  "wait_loop duration start s =
     (if duration \<noteq> 0 then
        (if of_int duration \<le> float_sub (env_clock s (env_reads s)) start
         then Some (s\<lparr>env_reads := Suc (env_reads s)\<rparr>)
         else wait_loop duration start (s\<lparr>env_reads := Suc (env_reads s)\<rparr>))
      else wait_loop duration start s)"

definition time_is_up :: "int \<Rightarrow> pyfloat \<Rightarrow> 'a env_scheme \<Rightarrow> nat \<Rightarrow> bool" where
  "time_is_up duration start s n \<longleftrightarrow> env_reads s \<le> n \<and> of_int duration \<le> float_sub (env_clock s n) start"

lemma wait_loop_Some:
  "wait_loop duration start s = Some s' \<Longrightarrow> duration \<noteq> 0 \<and> (\<exists>n. time_is_up duration start s n)"
proof (erule wait_loop.raw_induct [where P = "\<lambda>d st s s'. d \<noteq> 0 \<and> (\<exists>n. time_is_up d st s n)", rotated])
  fix wl d st and s s' :: "'a env_scheme"
  assume IH: "\<And>d st (s :: 'a env_scheme) s'. wl d st s = Some s' \<Longrightarrow> d \<noteq> 0 \<and> (\<exists>n. time_is_up d st s n)"
    and eq: "(if d \<noteq> 0 then
        if of_int d \<le> float_sub (env_clock s (env_reads s)) st then Some (s\<lparr>env_reads := Suc (env_reads s)\<rparr>)
        else wl d st (s\<lparr>env_reads := Suc (env_reads s)\<rparr>)
      else wl d st s) = Some s'"
  show "d \<noteq> 0 \<and> (\<exists>n. time_is_up d st s n)"
  proof (cases "d \<noteq> 0 \<and> \<not> of_int d \<le> float_sub (env_clock s (env_reads s)) st")
    case True
    with eq have "wl d st (s\<lparr>env_reads := Suc (env_reads s)\<rparr>) = Some s'" by simp
    from IH [OF this] show ?thesis by (auto simp: time_is_up_def dest: Suc_leD)
  next
    case False
    with eq IH [of d st s s'] show ?thesis by (auto simp: time_is_up_def split: if_splits)
  qed
qed

text \<open>The run ends by itself exactly when a duration was given and some later clock reading
  reaches it, and then at the first such reading; with duration 0 it never does.\<close>

theorem run_ends_after_duration:
  "wait_loop duration start s =
     (if duration \<noteq> 0 \<and> (\<exists>n. time_is_up duration start s n)
      then Some (s\<lparr>env_reads := Suc (LEAST n. time_is_up duration start s n)\<rparr>) else None)"
proof (cases "duration \<noteq> 0 \<and> (\<exists>n. time_is_up duration start s n)")
  case False
  then have "wait_loop duration start s = None"
    using wait_loop_Some [of duration start s] by (cases "wait_loop duration start s") auto
  with False show ?thesis by simp
next
  case True
  then obtain n where n: "time_is_up duration start s n" by blast
  from n True show ?thesis
  proof (induction "n - env_reads s" arbitrary: s rule: less_induct)
    case less
    show ?case
    proof (cases "time_is_up duration start s (env_reads s)")
      case True
      then have "(LEAST n. time_is_up duration start s n) = env_reads s"
        by (intro Least_equality) (simp_all add: time_is_up_def)
      moreover have "wait_loop duration start s = Some (s\<lparr>env_reads := Suc (env_reads s)\<rparr>)"
        using True less.prems by (subst wait_loop.simps) (simp add: time_is_up_def)
      ultimately show ?thesis using less.prems by auto
    next
      case False
      let ?s = "s\<lparr>env_reads := Suc (env_reads s)\<rparr>"
      have same: "time_is_up duration start ?s = time_is_up duration start s"
        using False by (auto simp: fun_eq_iff time_is_up_def Suc_le_eq order_less_le)
      have "n - env_reads ?s < n - env_reads s"
        using False less.prems(1) by (auto simp: time_is_up_def order_le_less)
      then have "wait_loop duration start ?s = Some (?s\<lparr>env_reads := Suc (LEAST n. time_is_up duration start s n)\<rparr>)"
        using less.hyps [of ?s] less.prems by (auto simp: same)
      moreover have "wait_loop duration start s = wait_loop duration start ?s"
        using False less.prems(2) by (subst wait_loop.simps) (simp add: time_is_up_def)
      ultimately show ?thesis using less.prems by auto
    qed
  qed
qed

end
