(* ===== verification/Pipeline.thy ===== *)
theory Pipeline
  imports Main_Program Host_Monitors
begin

text \<open>
  The parts put together: what the detectors hand to the engine, through the event loop's
  callbacks and the drain task, to the browsers, and which incidents that can raise. The
  replay followed here runs the capture to its end before the loop delivers; by the bus
  theorems every other interleaving delivers the same events in the same order.
\<close>

section \<open>What was emitted is what is delivered\<close>

lemma more_fields:
  "world.more s' = world.more s \<Longrightarrow> active_connections s' = active_connections s \<and> inbox s' = inbox s
    \<and> sock_fails s' = sock_fails s \<and> meanwhile s' = meanwhile s \<and> sock_sends s' = sock_sends s
    \<and> engine_ready s' = engine_ready s" for s s' :: "'a dash_scheme"
  by (cases s; cases s') simp

lemma stamped_sorted:
  assumes "stamped (env_clock s) m n es" "clock_monotone s"
  shows "sorted (map ev_timestamp es)"
proof -
  obtain js where js: "sorted_wrt (<) js" "map ev_timestamp es = map (env_clock s) js"
    using assms(1) by (auto simp: stamped_def)
  have "sorted_wrt (\<lambda>i j. env_clock s i \<le> env_clock s j) js"
    using js(1) by (rule sorted_wrt_mono_rel [rotated]) (use assms(2) in \<open>simp add: clock_monotone_def\<close>)
  then show ?thesis by (simp add: js(2) sorted_wrt_map)
qed

lemma report_metadata_ok: "report_ok (report_of e) \<Longrightarrow> metadata_ok e"
  by (simp add: report_ok_def metadata_ok_def report_of_def)

lemma main_reports_ok: "r \<in> set (main_reports verb gb gs args ps) \<Longrightarrow> report_ok r"
  by (auto simp: main_reports_def verdict_def conn_gives_def hijack_report_ok flood_reports_def flood_report_ok Let_def
      dest: payload_reports_ok split: option.splits if_splits)

lemma emitted_delivered:
  assumes "emitted rs s s1" "bound l s" "maxsize (ENGINE s) \<le> 0" "queue (ENGINE s) = []" "ready (ENGINE s) l = []"
    and "clock_monotone s"
  shows "\<exists>es. map report_of es = rs \<and> sorted (map ev_timestamp es) \<and> queue (ENGINE (deliver l s1)) = es"
  using emitted_queue [OF assms(1-3,5)] stamped_sorted [OF _ assms(6)] assms(4) by auto

section \<open>When no incident can be raised\<close>

text \<open>No source has both a recon and a persist event among \<open>E\<close>.\<close>

definition split_sources :: "event set \<Rightarrow> bool" where
  "split_sources E \<longleftrightarrow> (\<forall>e \<in> E. \<forall>e' \<in> E. ev_src e = ev_src e' \<longrightarrow>
     \<not> (get_stage (ev_type e) = Some (lit ''recon'') \<and> get_stage (ev_type e') = Some (lit ''persist'')))"

definition windows_within :: "event set \<Rightarrow> kill_chain \<Rightarrow> bool" where
  "windows_within E k \<longleftrightarrow> (\<forall>src. \<forall>e \<in> set (window_of k src). e \<in> E \<and> ev_src e = src)"

lemma windows_within_slide: "windows_within E k \<Longrightarrow> e \<in> E \<Longrightarrow> windows_within E (slide now e k)"
  by (auto simp: windows_within_def window_of_slide pop_stale_eq dest!: set_dropWhileD)

lemma split_never_complete: "split_sources E \<Longrightarrow> windows_within E k \<Longrightarrow> \<not> evaluate_kill_chain src k"
  unfolding evaluate_iff stage_present_def split_sources_def windows_within_def by metis

lemma messages_without_incident:
  assumes "split_sources E" "windows_within E k" "set es \<subseteq> E"
  shows "dash_messages k clock i es = map event_json es"
  using assms(2,3)
proof (induction es arbitrary: k i)
  case Nil
  then show ?case by simp
next
  case (Cons e es)
  have k: "windows_within E (slide (clock i) e k)" using Cons.prems windows_within_slide by simp
  then show ?case
    using Cons split_never_complete [OF assms(1) k] by (simp add: Let_def)
qed

lemma new_windows: "windows_within E new_dashboard_correlator" "windows_ok new_dashboard_correlator"
  by (simp_all add: windows_within_def windows_ok_def new_dashboard_correlator_def new_kill_chain_def window_of_def)

section \<open>A capture replayed to the browsers\<close>

lemma report_of_types:
  assumes "map report_of es = rs" "e \<in> set es"
  shows "\<exists>r \<in> set rs. ev_type e = rp_type r \<and> ev_src e = rp_src r"
  using assms by (auto simp: report_of_def intro!: bexI [of _ "report_of e"])

lemma main_reports_types:
  "r \<in> set (main_reports verb gb gs args ps) \<Longrightarrow>
   rp_type r \<in> {lit ''payload_scan_finding'', lit ''tcp_hijack_seq_anomaly'', lit ''sctp_init_flood''}"
  by (auto simp: main_reports_def verdict_def conn_gives_def hijack_report_def flood_reports_def flood_report_def
      payload_reports_def finding_report_def Let_def split: option.splits if_splits)

lemma network_events_split:
  assumes "map report_of es = main_reports verb gb gs args ps"
  shows "split_sources (set es)"
  unfolding split_sources_def
  using report_of_types [OF assms] main_reports_types by (fastforce simp: stage_iffs)

text \<open>C7: replaying a capture through \<open>main.py\<close>, once the dashboard's loop is bound, takes every
  detection to every browser: the run does not fail, the events that reach the queue are
  exactly the capture's reports in order with non-decreasing timestamps, draining them empties
  the queue, each connected browser receives exactly their documents in that order, and no
  incident, since a capture alone yields no persistence event.\<close>

theorem replay_reaches_browsers:
  fixes s :: "'a dash_scheme"
  assumes "reliable s" "clock_monotone s" "ENGINE s = new_engine n" "n \<le> 0"
    and "\<And>w. parse_target fs readelf args (w :: 'a dash_scheme) = (Inr (gb, gs), w)"
    and "arg_pcap_file args = Some f" "f \<noteq> []" "rdpcap f = Inr ps"
  shows "\<exists>s1 es k' s2. and_then (start_drain l) (\<lambda>_. main_py fs readelf rdpcap windows args) s = (Inr (), s1)
    \<and> map report_of es = main_reports (\<not> arg_quiet args) gb gs args ps \<and> sorted (map ev_timestamp es)
    \<and> queue (ENGINE (deliver l s1)) = es
    \<and> drain_turns (length es) (new_dashboard_correlator, deliver l s1) = (Inr (), (k', s2))
    \<and> queue (ENGINE s2) = []
    \<and> (\<forall>c. inbox s2 c = (if c \<in> set (active_connections s) then inbox s c @ map event_json es else inbox s c))"
proof -
  let ?s = "s\<lparr>ENGINE := (ENGINE s)\<lparr>bound_loop := Some l\<rparr>, engine_ready := True\<rparr>"
  have start: "start_drain l s = (Inr (), ?s)"
    by (simp add: start_drain_def bind_loop_def change_apply)
  have b: "bound l ?s" by (simp add: bound_def assms(3))
  from correlator_main_file [where rdpcap = rdpcap and f = f and windows = windows, OF b assms(5-8)] obtain s1 where
    run: "correlator_main fs readelf rdpcap windows args ?s = (Inr (), s1)"
    and em: "emitted (main_reports (\<not> arg_quiet args) gb gs args ps) ?s s1" by blast
  have whole: "and_then (start_drain l) (\<lambda>_. main_py fs readelf rdpcap windows args) s = (Inr (), s1)"
    using start run by (simp add: main_py_def and_then_apply ask_apply)
  have "maxsize (ENGINE ?s) \<le> 0" "queue (ENGINE ?s) = []" "ready (ENGINE ?s) l = []" "clock_monotone ?s"
    using assms(2-4) by (simp_all add: new_engine_def clock_monotone_def)
  from emitted_delivered [OF em b this] obtain es where
    es: "map report_of es = main_reports (\<not> arg_quiet args) gb gs args ps" "sorted (map ev_timestamp es)"
      "queue (ENGINE (deliver l s1)) = es" by blast
  have more: "world.more s1 = world.more ?s" using em by (simp add: emitted_def)
  have same: "active_connections s1 = active_connections s" "inbox s1 = inbox s" "sock_fails s1 = sock_fails s"
    "meanwhile s1 = meanwhile s"
    using more_fields [OF more] by simp_all
  have rel: "reliable (deliver l s1)"
    using assms(1) same by (simp add: reliable_def deliver_def)
  have meta: "\<forall>e \<in> set (queue (ENGINE (deliver l s1))). metadata_ok e"
  proof
    fix e assume "e \<in> set (queue (ENGINE (deliver l s1)))"
    then have "report_of e \<in> set (main_reports (\<not> arg_quiet args) gb gs args ps)" by (simp add: es(3) flip: es(1))
    then show "metadata_ok e" by (intro report_metadata_ok main_reports_ok)
  qed
  from drain_seen [OF rel new_windows(2) meta] obtain k' s2 where
    d: "drain_turns (length es) (new_dashboard_correlator, deliver l s1) = (Inr (), (k', s2))" "queue (ENGINE s2) = []"
      "\<forall>c. inbox s2 c = (if c \<in> set (active_connections (deliver l s1))
          then inbox (deliver l s1) c @ dash_messages new_dashboard_correlator (env_clock (deliver l s1)) (env_reads (deliver l s1)) es
          else inbox (deliver l s1) c)"
    unfolding es(3) by blast
  have quiet: "dash_messages new_dashboard_correlator clock i es = map event_json es" for clock i
    by (rule messages_without_incident [OF network_events_split [OF es(1)] new_windows(1) order_refl])
  have "\<forall>c. inbox s2 c = (if c \<in> set (active_connections s) then inbox s c @ map event_json es else inbox s c)"
    using d(3) by (simp add: quiet same deliver_def)
  with whole es d(1,2) show ?thesis by blast
qed

definition boot_dash :: dash where
  "boot_dash = (sample_dash [3])\<lparr>sock_fails := (\<lambda>_. False), ENGINE := new_engine 0, engine_ready := False\<rparr>"

theorem replay_reaches_browsers_witness:
  "\<exists>s1 es k' s2. and_then (start_drain 7) (\<lambda>_. main_py (\<lambda>_. None) (\<lambda>_ _. Inl FileNotFoundError)
        (\<lambda>_. Inr attack_packets) [] (sample_args\<lparr>arg_target_binary := None, arg_max_init := 1\<rparr>)) boot_dash = (Inr (), s1)
    \<and> map report_of es = [finding_report (lit ''a'') (finding_text (RepeatedRun 0x41 12 0)),
        hijack_report (sample_key ''a'') 1000 900000 899000 12 1, flood_report 1 (lit ''a'') 2]
    \<and> drain_turns (length es) (new_dashboard_correlator, deliver 7 s1) = (Inr (), (k', s2))
    \<and> inbox s2 3 = map event_json es"
proof -
  let ?args = "sample_args\<lparr>arg_target_binary := None, arg_max_init := 1\<rparr>"
  have reps: "main_reports (\<not> arg_quiet ?args) None None ?args attack_packets =
      [finding_report (lit ''a'') (finding_text (RepeatedRun 0x41 12 0)),
        hijack_report (sample_key ''a'') 1000 900000 899000 12 1, flood_report 1 (lit ''a'') 2]"
    using attack_reports [of True] by (simp add: main_reports_def sample_args_def del: finding_text.simps)
  have boot: "reliable boot_dash" "clock_monotone boot_dash" "ENGINE boot_dash = new_engine 0"
    "active_connections boot_dash = [3]" "inbox boot_dash 3 = []"
    by (simp_all add: boot_dash_def sample_dash_def reliable_def clock_monotone_def)
  have target: "parse_target (\<lambda>_. None) (\<lambda>_ _. Inl FileNotFoundError) ?args w = (Inr (None, None), w)" for w :: dash
    by (simp add: parse_target_def sample_args_def ret_apply)
  obtain s1 es k' s2 where r: "and_then (start_drain 7) (\<lambda>_. main_py (\<lambda>_. None) (\<lambda>_ _. Inl FileNotFoundError)
        (\<lambda>_. Inr attack_packets) [] ?args) boot_dash = (Inr (), s1)"
    "map report_of es = main_reports (\<not> arg_quiet ?args) None None ?args attack_packets"
    "drain_turns (length es) (new_dashboard_correlator, deliver 7 s1) = (Inr (), (k', s2))"
    "\<forall>c. inbox s2 c = (if c \<in> set (active_connections boot_dash) then inbox boot_dash c @ map event_json es else inbox boot_dash c)"
    using replay_reaches_browsers [where f = "lit ''c''" and rdpcap = "\<lambda>_. Inr attack_packets" and l = 7 and windows = "[]",
        OF boot(1,2,3) order_refl target]
    by (auto simp: sample_args_def)
  have "inbox s2 3 = map event_json es" using r(4) boot by simp
  with r(1-3) show ?thesis unfolding reps
    apply (intro exI conjI)
    apply assumption+
    done
qed

section \<open>All detectors on one engine\<close>

text \<open>The reports the program's detectors make, and the sources it can tell apart.\<close>

inductive detector_report :: "(int \<Rightarrow> bool) \<Rightarrow> report \<Rightarrow> bool" for printable where
  flood: "detector_report printable (flood_report m src n)"
| hijack: "detector_report printable (hijack_report key a b c d e)"
| finding: "detector_report printable (finding_report src f)"
| fs: "detector_report printable (fs_report a fe)"
| bpf: "detector_report printable (call_report printable e)"

lemma detector_report_stage:
  assumes "detector_report printable r"
  shows "(get_stage (rp_type r) = Some (lit ''recon'') \<longrightarrow> (\<exists>m src n. r = flood_report m src n))
    \<and> (get_stage (rp_type r) = Some (lit ''persist'') \<longrightarrow>
        (\<exists>fe. r = fs_report Created fe) \<or> (\<exists>e. r = call_report printable e))"
  using assms
proof (cases rule: detector_report.cases)
  case (fs a fe)
  then show ?thesis by (cases a) (auto simp: fs_report_def file_report_def stage_iffs)
qed (auto simp: flood_report_def hijack_report_def finding_report_def call_report_def bpf_report_def stage_iffs)

lemma process_text_prefix: "take 4 (process_text printable i c) = lit ''pid=''"
  by (simp add: process_text_def)

lemma detector_report_ok: "detector_report printable r \<Longrightarrow> report_ok r"
  by (induction rule: detector_report.induct)
    (simp_all add: flood_report_ok hijack_report_ok finding_report_ok fs_report_ok call_report_ok)

lemma detector_events_split:
  assumes "\<forall>e \<in> set es. detector_report printable (report_of e)"
    and "\<forall>m src n fe. flood_report m src n \<in> report_of ` set es \<and> fs_report Created fe \<in> report_of ` set es
      \<longrightarrow> src \<noteq> src_path fe"
    and "\<forall>m src n. flood_report m src n \<in> report_of ` set es \<longrightarrow> take 4 src \<noteq> lit ''pid=''"
  shows "split_sources (set es)"
  unfolding split_sources_def
proof (intro ballI impI notI, elim conjE)
  fix e e'
  assume in_es: "e \<in> set es" "e' \<in> set es" and src: "ev_src e = ev_src e'"
    and stages: "get_stage (ev_type e) = Some (lit ''recon'')" "get_stage (ev_type e') = Some (lit ''persist'')"
  have type: "rp_type (report_of x) = ev_type x" "rp_src (report_of x) = ev_src x" for x
    by (simp_all add: report_of_def)
  obtain m a n where flood: "report_of e = flood_report m a n"
    using detector_report_stage [of printable "report_of e"] assms(1) in_es stages by (auto simp: type)
  then have a: "ev_src e = a" using type(2) [of e] by (simp add: flood_report_def)
  have fl: "flood_report m a n \<in> report_of ` set es" using flood in_es by (metis image_eqI)
  from detector_report_stage [of printable "report_of e'"] assms(1) in_es stages
  consider fe where "report_of e' = fs_report Created fe" | c where "report_of e' = call_report printable c"
    by (auto simp: type)
  then show False
  proof cases
    case 1
    then have "ev_src e' = src_path fe" using type(2) [of e'] by (simp add: fs_report_def file_report_def)
    moreover have "fs_report Created fe \<in> report_of ` set es" using 1 in_es by (metis image_eqI)
    ultimately show False using assms(2) fl src a by metis
  next
    case 2
    then have "ev_src e' = process_text printable (uint (be_pid c)) (decode_utf8 Replace (comm_value c))"
      using type(2) [of e'] by (simp add: call_report_def bpf_report_def)
    then have "take 4 (ev_src e') = lit ''pid=''" by (simp add: process_text_prefix)
    with assms(3) fl src a show False by metis
  qed
qed

text \<open>C35: even with every detector on one engine no incident is ever raised as long as an address
  is not also the path of a created file and does not start like the text of a process: the
  correlator compares sources for equality, the recon stage only comes from addresses and the
  persist stage only from paths and process texts. Whatever sequence of the detectors' events is
  in the queue, draining it then succeeds, empties the queue and gives every connected browser
  exactly the events' documents in order, and nothing else.\<close>

theorem sources_never_meet:
  assumes "\<forall>e \<in> set es. detector_report printable (report_of e)"
    and "\<forall>m src n fe. flood_report m src n \<in> report_of ` set es \<and> fs_report Created fe \<in> report_of ` set es
      \<longrightarrow> src \<noteq> src_path fe"
    and "\<forall>m src n. flood_report m src n \<in> report_of ` set es \<longrightarrow> take 4 src \<noteq> lit ''pid=''"
    and "reliable s" "queue (ENGINE s) = es"
  shows "\<exists>k' s'. drain_turns (length es) (new_dashboard_correlator, s) = (Inr (), (k', s')) \<and> queue (ENGINE s') = []
    \<and> (\<forall>c. inbox s' c = (if c \<in> set (active_connections s) then inbox s c @ map event_json es else inbox s c))"
proof -
  have "\<forall>e \<in> set (queue (ENGINE s)). metadata_ok e"
    using assms(1,5) report_metadata_ok detector_report_ok by blast
  from drain_seen [OF assms(4) new_windows(2) this] show ?thesis
    by (simp only: assms(5) messages_without_incident [OF detector_events_split [OF assms(1-3)] new_windows(1) order_refl])
qed

text \<open>A flood and a payload finding of one source: two of the three stages.\<close>

definition two_stages :: "event list" where
  "two_stages =
     [sample_event ''sctp_init_flood'' ''a'' 4 990 \<lparr>ev_metadata := [(lit ''init_chunk_count'', PInt 9), (lit ''threshold'', PInt 5)]\<rparr>,
      sample_event ''payload_scan_finding'' ''a'' 3 995 \<lparr>ev_metadata := [(lit ''finding'', PStr [])]\<rparr>]"

theorem sources_never_meet_witness:
  "\<exists>k' s'. drain_turns 2 (new_dashboard_correlator, quiet_dash two_stages) = (Inr (), (k', s'))
    \<and> inbox s' 3 = map event_json two_stages"
proof -
  have r: "map report_of two_stages = [flood_report 5 (lit ''a'') 9, finding_report (lit ''a'') []]"
    by (simp add: two_stages_def report_of_def sample_event_def flood_report_def finding_report_def)
  then have set_r: "report_of ` set two_stages = {flood_report 5 (lit ''a'') 9, finding_report (lit ''a'') []}"
    by (simp flip: set_map)
  then have "\<forall>e \<in> set two_stages. detector_report (\<lambda>_. True) (report_of e)"
    by (metis detector_report.flood detector_report.finding image_eqI insertE singletonD)
  moreover have "fs_report a fe \<noteq> flood_report 5 (lit ''a'') 9" "fs_report a fe \<noteq> finding_report (lit ''a'') []" for a fe
    by (cases a; simp add: fs_report_def file_report_def flood_report_def finding_report_def)+
  then have "fs_report Created fe \<notin> report_of ` set two_stages" for fe by (simp add: set_r)
  moreover have "take 4 src \<noteq> lit ''pid=''" if "flood_report m src n \<in> report_of ` set two_stages" for m src n
  proof -
    have "src = lit ''a''" using that set_r by (auto simp: flood_report_def finding_report_def)
    then show ?thesis by (simp add: lit_def)
  qed
  moreover have "reliable (quiet_dash two_stages)" "queue (ENGINE (quiet_dash two_stages)) = two_stages"
    "active_connections (quiet_dash two_stages) = [3]" "inbox (quiet_dash two_stages) 3 = []"
    by (simp_all add: reliable_def quiet_dash_def sample_dash_def)
  moreover have "length two_stages = 2" by (simp add: two_stages_def)
  ultimately show ?thesis
    using sources_never_meet [of two_stages "\<lambda>_. True" "quiet_dash two_stages"] by auto
qed

end
