(* ===== verification/System.thy ===== *)
theory System
  imports Pipeline
begin

text \<open>
  The whole program as one transition system: the threads' steps on the shared engine, the
  alert queue and the dashboard, in any order. A step that raises ends that call only; the
  others go on. \<open>well_typed\<close> is the invariant of the events under way, and a well-typed
  program on a bound engine of unbounded size never raises anywhere.
\<close>

record program =
  the_correlator :: correlator
  the_watchdog :: file_watchdog
  the_watcher :: bpf_watcher
  the_drain :: kill_chain

datatype program_action =
    SawPacket packet | WindowClosed
  | FileNotified fs_action fs_event
  | BpfCalled proc_table bpf_call_event
  | LoopCallback loop_id | Drained | LoopBound loop_id

definition with_correlator :: "(correlator \<times> 'w, 'a) op \<Rightarrow> (program \<times> 'w, 'a) op" where
  "with_correlator = on_part the_correlator (\<lambda>c p. p\<lparr>the_correlator := c\<rparr>)"

definition with_drain :: "(kill_chain \<times> 'w, 'a) op \<Rightarrow> (program \<times> 'w, 'a) op" where
  "with_drain = on_part the_drain (\<lambda>k p. p\<lparr>the_drain := k\<rparr>)"

definition window_closed :: "(correlator \<times> 'a world_scheme, unit) op" where
  "window_closed = and_then (with_sctp check_thresholds) (\<lambda>_. with_sctp reset_window)"

text \<open>The event loop's next callback, \<open>put_nowait\<close>; a closed loop runs none.\<close>

definition loop_callback :: "loop_id \<Rightarrow> ('a world_scheme, unit) op" where
  "loop_callback l = (\<lambda>w. case if loop_closed (ENGINE w) l then [] else ready (ENGINE w) l of
       [] \<Rightarrow> (Inr (), w)
     | e # es \<Rightarrow> (case put_nowait e ((ENGINE w)\<lparr>ready := (ready (ENGINE w))(l := es)\<rparr>) of
         (r, g) \<Rightarrow> (r, w\<lparr>ENGINE := g\<rparr>)))"

fun program_step ::
  "(int \<Rightarrow> bool) \<Rightarrow> int \<Rightarrow> program_action \<Rightarrow> (program \<times> 'a dash_scheme, unit) op" where
  "program_step printable self_pid (SawPacket p) = with_correlator (correlator_process_packet p)"
| "program_step printable self_pid WindowClosed = with_correlator window_closed"
| "program_step printable self_pid (FileNotified a e) =
     on_part the_watchdog (\<lambda>d p. p\<lparr>the_watchdog := d\<rparr>) (dispatch (a, e))"
| "program_step printable self_pid (BpfCalled procs e) =
     on_part the_watcher (\<lambda>d p. p\<lparr>the_watcher := d\<rparr>) (handle_event printable self_pid procs e)"
| "program_step printable self_pid (LoopCallback l) = outside (loop_callback l)"
| "program_step printable self_pid Drained = with_drain drain_turn"
| "program_step printable self_pid (LoopBound l) = outside (start_drain l)"

definition program_after ::
  "(int \<Rightarrow> bool) \<Rightarrow> int \<Rightarrow> program_action list \<Rightarrow> program \<times> 'a dash_scheme \<Rightarrow> program \<times> 'a dash_scheme" where
  "program_after printable self_pid as s = fold (\<lambda>a s. snd (program_step printable self_pid a s)) as s"

section \<open>Typing of the events under way\<close>

definition typed_event :: "event \<Rightarrow> bool" where
  "typed_event e \<longleftrightarrow> report_ok (report_of e)"

definition engine_typed :: "engine \<Rightarrow> bool" where
  "engine_typed g \<longleftrightarrow> (\<forall>e \<in> set (queue g). typed_event e) \<and> (\<forall>l. \<forall>e \<in> set (ready g l). typed_event e)"

definition windows_typed :: "kill_chain \<Rightarrow> bool" where
  "windows_typed k \<longleftrightarrow> (\<forall>src. \<forall>e \<in> set (window_of k src). typed_event e)"

definition well_typed :: "program \<times> 'a dash_scheme \<Rightarrow> bool" where
  "well_typed s \<longleftrightarrow> engine_typed (ENGINE (snd s)) \<and> windows_typed (the_drain (fst s))"

text \<open>The engine's binding and size and the state of the loops, which decide what can raise.\<close>

definition open_bus :: "'a world_scheme \<Rightarrow> bool" where
  "open_bus w \<longleftrightarrow> bound_loop (ENGINE w) \<noteq> None \<and> (\<forall>l. \<not> loop_closed (ENGINE w) l) \<and> maxsize (ENGINE w) \<le> 0"

lemma open_bus_usable: "open_bus w \<Longrightarrow> usable_loop (ENGINE w) \<noteq> None"
  by (auto simp: open_bus_def usable_loop_def)

lemma typed_event_metadata: "typed_event e \<Longrightarrow> metadata_ok e"
  by (simp add: typed_event_def report_metadata_ok)

lemma posted_typed:
  assumes "engine_typed g" "\<forall>e \<in> set es. report_ok (report_of e)"
  shows "engine_typed (posted es g)"
  using assms by (auto simp: engine_typed_def posted_def typed_event_def fold_call_soon split: option.splits)

text \<open>What a step must satisfy: it keeps the engine typed and open, and on an open bus it returns.\<close>

definition safe_step :: "('c \<times> 'a world_scheme, unit) op \<Rightarrow> bool" where
  "safe_step m \<longleftrightarrow> (\<forall>c w. engine_typed (ENGINE w) \<longrightarrow>
     engine_typed (ENGINE (snd (snd (m (c, w)))))
     \<and> (open_bus w \<longrightarrow> fst (m (c, w)) = Inr () \<and> open_bus (snd (snd (m (c, w))))))"

lemma safe_stepI:
  fixes m :: "('c \<times> 'a world_scheme, unit) op"
  assumes "\<And>c w. \<exists>es. ENGINE (snd (snd (m (c, w)))) = posted es (ENGINE w) \<and> (\<forall>e \<in> set es. report_ok (report_of e))"
    and "\<And>c w. usable_loop (ENGINE w) \<noteq> None \<Longrightarrow> fst (m (c, w)) = Inr ()"
  shows "safe_step m"
  unfolding safe_step_def
proof (intro allI impI conjI)
  fix c :: 'c and w :: "'a world_scheme"
  assume t: "engine_typed (ENGINE w)"
  obtain es where es: "ENGINE (snd (snd (m (c, w)))) = posted es (ENGINE w)" "\<forall>e \<in> set es. report_ok (report_of e)"
    using assms(1) by blast
  show "engine_typed (ENGINE (snd (snd (m (c, w)))))" using es t posted_typed by simp
  assume "open_bus w"
  then show "fst (m (c, w)) = Inr ()" "open_bus (snd (snd (m (c, w))))"
    using assms(2) [of w c] open_bus_usable [of w] es(1) by (auto simp: open_bus_def)
qed

lemma safe_on_part:
  fixes get :: "'d \<Rightarrow> 'c" and m :: "('c \<times> 'a world_scheme, unit) op"
  assumes "safe_step m"
  shows "safe_step (on_part get put m)"
  unfolding safe_step_def
proof (intro allI impI)
  fix c :: 'd and w :: "'a world_scheme"
  assume t: "engine_typed (ENGINE w)"
  obtain r d w1 where m: "m (get c, w) = (r, (d, w1))" by (metis prod_cases3)
  have "engine_typed (ENGINE w1) \<and> (open_bus w \<longrightarrow> r = Inr () \<and> open_bus w1)"
    using assms t m unfolding safe_step_def by (metis fst_conv snd_conv)
  then show "engine_typed (ENGINE (snd (snd (on_part get put m (c, w)))))
    \<and> (open_bus w \<longrightarrow> fst (on_part get put m (c, w)) = Inr () \<and> open_bus (snd (snd (on_part get put m (c, w)))))"
    by (simp add: on_part_apply m)
qed

lemma safe_then:
  fixes m m' :: "('c \<times> 'a world_scheme, unit) op"
  assumes "safe_step m" "safe_step m'"
  shows "safe_step (and_then m (\<lambda>_. m'))"
  unfolding safe_step_def
proof (intro allI impI)
  fix c :: 'c and w :: "'a world_scheme"
  assume t: "engine_typed (ENGINE w)"
  obtain r c1 w1 where m: "m (c, w) = (r, (c1, w1))" by (metis prod_cases3)
  have 1: "engine_typed (ENGINE w1) \<and> (open_bus w \<longrightarrow> r = Inr () \<and> open_bus w1)"
    using assms(1) t m unfolding safe_step_def by (metis fst_conv snd_conv)
  then have 2: "engine_typed (ENGINE (snd (snd (m' (c1, w1)))))
      \<and> (open_bus w1 \<longrightarrow> fst (m' (c1, w1)) = Inr () \<and> open_bus (snd (snd (m' (c1, w1)))))"
    using assms(2) unfolding safe_step_def by blast
  show "engine_typed (ENGINE (snd (snd (and_then m (\<lambda>_. m') (c, w)))))
    \<and> (open_bus w \<longrightarrow> fst (and_then m (\<lambda>_. m') (c, w)) = Inr ()
        \<and> open_bus (snd (snd (and_then m (\<lambda>_. m') (c, w)))))"
    using 1 2 m by (cases r) (auto simp: and_then_apply)
qed

section \<open>The steps are safe\<close>

lemma safe_packet: "safe_step (correlator_process_packet p)"
  by (rule safe_stepI) (use packets.step_posts packets.step_returns in blast)+

lemma safe_check: "safe_step check_thresholds"
  by (rule safe_stepI) (use sctp_check.step_posts sctp_check.step_returns in blast)+

lemma safe_reset: "safe_step reset_window"
  by (simp add: safe_step_def reset_window_def own_apply)

lemma safe_notice: "safe_step (dispatch n)"
  by (rule safe_stepI) (use watchdog.step_posts watchdog.step_returns in blast)+

lemma safe_call: "safe_step (handle_event printable self_pid procs e)"
proof (rule safe_stepI, goal_cases)
  case (1 c w)
  show ?case using bpf_calls.step_posts [of printable self_pid "(procs, e)" c w] by simp
next
  case (2 c w)
  then show ?case
    using bpf_calls.step_returns [where w = w and p = "(procs, e)" and c = c and printable = printable and self_pid = self_pid]
    by simp
qed

text \<open>A callback on a full queue raises, so an open bus is needed for it to return.\<close>

lemma callback_typed:
  assumes "engine_typed (ENGINE w)"
  shows "engine_typed (ENGINE (snd (loop_callback l w)))"
proof (cases "ready (ENGINE w) l")
  case Nil
  with assms show ?thesis by (simp add: loop_callback_def)
next
  case (Cons e es)
  have "\<forall>x \<in> set (ready (ENGINE w) l). typed_event x" using assms by (simp add: engine_typed_def)
  then have "typed_event e" "\<forall>x \<in> set es. typed_event x" by (simp_all add: Cons)
  with assms show ?thesis
    by (auto simp: loop_callback_def Cons put_nowait_def put_event_def engine_typed_def)
qed

lemma callback_open:
  assumes "open_bus w"
  shows "fst (loop_callback l w) = Inr () \<and> open_bus (snd (loop_callback l w))"
  using assms
  by (auto simp: loop_callback_def put_nowait_def put_event_def open_bus_def has_room_def split: list.split)

lemma dashboard_event_engine:
  assumes "\<forall>e' \<in> set (window_of k (ev_src e) @ [e]). metadata_ok e'"
  shows "ENGINE (snd (snd (dashboard_event e (k, s)))) = ENGINE s"
proof -
  have b: "ENGINE (snd (broadcast m w)) = ENGINE w" for m and w :: "'a dash_scheme"
    using broadcast_total [of m w] by (auto dest: same_world_sel)
  let ?s = "snd (broadcast (event_json e) s)"
  let ?k = "slide (env_clock ?s (env_reads ?s)) e k"
  have "\<forall>e' \<in> set (window_of ?k (ev_src e)). metadata_ok e'"
    using assms by (auto simp: window_of_slide pop_stale_eq dest!: set_dropWhileD)
  then show ?thesis
    using assms by (simp add: dashboard_event_eq add_event_unfold Let_def escalate_runs window_nonempty b)
qed

lemma drain_turn_typed:
  assumes "engine_typed (ENGINE s)" "windows_typed k"
  shows "\<exists>k' s'. drain_turn (k, s) = (Inr (), (k', s')) \<and> windows_typed k'
    \<and> engine_typed (ENGINE s') \<and> (open_bus s \<longrightarrow> open_bus s')"
proof (cases "queue (ENGINE s)")
  case Nil
  with assms show ?thesis by (simp add: drain_turn_def get_event_def)
next
  case (Cons e es)
  let ?s = "s\<lparr>ENGINE := (ENGINE s)\<lparr>queue := es\<rparr>\<rparr>"
  have e: "typed_event e" using assms(1) Cons by (simp add: engine_typed_def)
  with assms(2) have meta: "\<forall>e' \<in> set (window_of k (ev_src e) @ [e]). metadata_ok e'"
    by (auto simp: windows_typed_def intro: typed_event_metadata)
  from drained.handle_total [OF this, of ?s] obtain s' where
    s': "dashboard_event e (k, ?s) = (Inr (), (slide (env_clock ?s (env_reads ?s)) e k, s'))" by blast
  moreover have "ENGINE s' = ENGINE ?s" using dashboard_event_engine [OF meta, of ?s] s' by simp
  moreover have "windows_typed (slide (env_clock ?s (env_reads ?s)) e k)"
    using assms(2) e by (auto simp: windows_typed_def window_of_slide pop_stale_eq dest!: set_dropWhileD)
  moreover have "engine_typed (ENGINE ?s)" using assms(1) Cons by (simp add: engine_typed_def)
  ultimately show ?thesis
    by (simp add: drain_turn_event [OF Cons] open_bus_def)
qed

section \<open>Progress and preservation\<close>

lemma program_step_safe:
  assumes "well_typed s"
  shows "well_typed (snd (program_step printable self_pid a s))
    \<and> (open_bus (snd s) \<longrightarrow> fst (program_step printable self_pid a s) = Inr ()
        \<and> open_bus (snd (snd (program_step printable self_pid a s))))"
proof -
  obtain p w where s: "s = (p, w)" by (cases s)
  have t: "engine_typed (ENGINE w)" "windows_typed (the_drain p)" using assms by (simp_all add: well_typed_def s)
  show ?thesis
  proof (cases a)
    case (SawPacket q)
    show ?thesis
      using safe_packet [of q, unfolded safe_step_def, rule_format, OF t(1), of "the_correlator p"] t(2)
      by (auto simp: s SawPacket well_typed_def with_correlator_def on_part_apply split: prod.splits)
  next
    case WindowClosed
    have "safe_step window_closed"
      unfolding window_closed_def with_sctp_def
      by (intro safe_then safe_on_part safe_check safe_reset)
    from this [unfolded safe_step_def, rule_format, OF t(1), of "the_correlator p"] t(2) show ?thesis
      by (auto simp: s WindowClosed well_typed_def with_correlator_def on_part_apply split: prod.splits)
  next
    case (FileNotified b e)
    show ?thesis
      using safe_notice [of "(b, e)", unfolded safe_step_def, rule_format, OF t(1), of "the_watchdog p"] t(2)
      by (auto simp: s FileNotified well_typed_def on_part_apply split: prod.splits)
  next
    case (BpfCalled procs e)
    show ?thesis
      using safe_call [of printable self_pid procs e, unfolded safe_step_def, rule_format, OF t(1), of "the_watcher p"] t(2)
      by (auto simp: s BpfCalled well_typed_def on_part_apply split: prod.splits)
  next
    case (LoopCallback l)
    show ?thesis
      using callback_typed [OF t(1), of l] callback_open [of w l] t(2)
      by (simp add: s LoopCallback well_typed_def outside_apply)
  next
    case Drained
    from drain_turn_typed [OF t] obtain k' s' where
      "drain_turn (the_drain p, w) = (Inr (), (k', s'))" "windows_typed k'" "engine_typed (ENGINE s')"
      "open_bus w \<longrightarrow> open_bus s'" by blast
    then show ?thesis
      by (simp add: s Drained well_typed_def with_drain_def on_part_apply)
  next
    case (LoopBound l)
    then show ?thesis
      using t by (simp add: s well_typed_def outside_apply start_drain_def bind_loop_def change_apply
          engine_typed_def open_bus_def)
  qed
qed

lemma program_after_typed:
  "well_typed s \<Longrightarrow> well_typed (program_after printable self_pid as s)
    \<and> (open_bus (snd s) \<longrightarrow> open_bus (snd (program_after printable self_pid as s)))"
proof (induction as rule: rev_induct)
  case Nil
  then show ?case by (simp add: program_after_def)
next
  case (snoc a as)
  then show ?case
    using program_step_safe [of "program_after printable self_pid as s" printable self_pid a]
    by (simp add: program_after_def)
qed

text \<open>C5: well-typed events stay well typed and nothing goes wrong: in every interleaving of the
  packet thread, the file and bpf() watchers, the loop's callbacks and the drain task, all events
  queued, scheduled or remembered in a window have a severity in 1..5 and metadata that JSON can
  carry; draining never raises; and once the bus of unbounded size is bound to an open loop no
  step of any thread raises.\<close>

theorem no_thread_fails:
  assumes "well_typed s"
  shows "well_typed (program_after printable self_pid as s)
    \<and> fst (program_step printable self_pid Drained (program_after printable self_pid as s)) = Inr ()
    \<and> (open_bus (snd s) \<longrightarrow>
        fst (program_step printable self_pid a (program_after printable self_pid as s)) = Inr ())"
proof -
  let ?s = "program_after printable self_pid as s"
  have t: "well_typed ?s" "open_bus (snd s) \<longrightarrow> open_bus (snd ?s)"
    using program_after_typed [OF assms] by simp_all
  obtain p w where s: "?s = (p, w)" by (cases ?s)
  from drain_turn_typed [of w "the_drain p"] t(1) obtain k' s' where
    "drain_turn (the_drain p, w) = (Inr (), (k', s'))" by (auto simp: s well_typed_def)
  then have "fst (program_step printable self_pid Drained ?s) = Inr ()"
    by (simp add: s with_drain_def on_part_apply)
  with t program_step_safe [OF t(1)] show ?thesis by blast
qed

definition sample_program :: program where
  "sample_program = \<lparr>the_correlator = new_correlator True 1 15 100000 None None None,
     the_watchdog = \<lparr>watch_path = lit ''/'', recursive = True\<rparr>,
     the_watcher = new_bpf_watcher 10 9 None, the_drain = new_dashboard_correlator\<rparr>"

definition bound_dash :: dash where
  "bound_dash = boot_dash\<lparr>ENGINE := (new_engine 0)\<lparr>bound_loop := Some 7\<rparr>\<rparr>"

theorem no_thread_fails_witness:
  "fst (program_step (\<lambda>_. True) 10 WindowClosed
     (program_after (\<lambda>_. True) 10 (map SawPacket attack_packets @ [LoopCallback 7, Drained]) (sample_program, bound_dash))) = Inr ()"
proof -
  have "well_typed (sample_program, bound_dash)" "open_bus bound_dash"
    by (simp_all add: well_typed_def engine_typed_def windows_typed_def open_bus_def bound_dash_def sample_program_def
        new_engine_def new_dashboard_correlator_def new_kill_chain_def window_of_def)
  with no_thread_fails [of "(sample_program, bound_dash)" "\<lambda>_. True" 10
      "map SawPacket attack_packets @ [LoopCallback 7, Drained]" WindowClosed]
  show ?thesis by simp
qed

end
