(* ===== verification/Replay_Tasks.thy ===== *)
theory Replay_Tasks
  imports System
begin

text \<open>
  \<open>main\<close> of \<open>xdr/correlator.py\<close> as the list of its calls on the detectors: what it does before the
  first packet, then one task after another, down to single publications. \<open>Main_Program\<close> runs it
  as one operation; the tasks are what the other threads can come between.
\<close>

text \<open>
  The calls of \<open>run_on_pcap\<close> and \<open>run_live\<close>, and below them the parts of the two calls that publish
  more than once: \<open>process_packet\<close> publishes each payload finding, then counts INIT chunks, then
  follows the TCP segment; \<open>check_thresholds\<close> looks at one source after another.
\<close>

datatype replay_task =
    SniffWindow | SaveWindow "packet list" | ProcessPacket packet | CheckThresholds | ResetWindow
  | PublishFinding packet str | CountInits packet | FollowSegment packet | CheckSource int str int

text \<open>What \<open>sniff\<close> and \<open>wrpcap\<close> do is not on the correlator.\<close>

fun run_task :: "replay_task \<Rightarrow> (correlator \<times> 'a world_scheme, unit) op" where
  "run_task SniffWindow = ret ()"
| "run_task (SaveWindow packets) = ret ()"
| "run_task (ProcessPacket packet) = correlator_process_packet packet"
| "run_task CheckThresholds = with_sctp check_thresholds"
| "run_task ResetWindow = with_sctp reset_window"
| "run_task (PublishFinding packet finding) = outside (emit_report (finding_report (packet_source packet) finding))"
| "run_task (CountInits packet) = with_sctp (sctp_process_packet packet)"
| "run_task (FollowSegment packet) = with_tcp (tcp_process_packet packet)"
| "run_task (CheckSource m src_ip n) = (if m < n then outside (emit_report (flood_report m src_ip n)) else ret ())"

fun task_parts :: "correlator \<Rightarrow> replay_task \<Rightarrow> replay_task list option" where
  "task_parts c (ProcessPacket packet) = Some
     ((if verbose_log c then map (PublishFinding packet) (scan_payload (extract_tcp_payload packet) (got_base c) (got_size c)) else [])
      @ [CountInits packet, FollowSegment packet])"
| "task_parts c CheckThresholds = Some
     (map (\<lambda>(src_ip, n). CheckSource (max_init_chunks (the_sctp c)) src_ip n) (init_chunk_count (the_sctp c)))"
| "task_parts c t = None"

definition file_tasks :: "packet list \<Rightarrow> replay_task list" where
  "file_tasks packets = map ProcessPacket packets @ [CheckThresholds]"

definition live_tasks :: "packet list list \<Rightarrow> replay_task list" where
  "live_tasks windows = concat (map (\<lambda>packets.
     SniffWindow # (if packets \<noteq> [] then SaveWindow packets # file_tasks packets else []) @ [ResetWindow]) windows)"

text \<open>What \<open>main\<close> of \<open>xdr/correlator.py\<close> does before the first packet.\<close>

definition prepare_replay ::
  "files \<Rightarrow> readelf \<Rightarrow> (str \<Rightarrow> py_error + packet list) \<Rightarrow> packet list list \<Rightarrow> cli_args
   \<Rightarrow> ('a world_scheme, correlator \<times> replay_task list) op" where
  "prepare_replay fs readelf rdpcap windows args =
     (let iv = \<lparr>pcap_file_dir = arg_pcap_file args\<rparr> in
      and_then (parse_target fs readelf args) (\<lambda>(gb, gs).
        let c = new_correlator (\<not> arg_quiet args) (arg_max_init args) (arg_window args)
            (arg_seq_threshold args) (Some iv) gb gs
        in if capture_type iv = lit ''file'' then (case rdpcap (the (arg_pcap_file args)) of
               Inl e \<Rightarrow> raise_err e
             | Inr packets \<Rightarrow> ret (c, file_tasks packets))
           else ret (c, live_tasks windows)))"

lemma and_then_ret_right: "and_then m ret = m"
  by (rule ext) (auto simp: and_then_apply ret_apply split: sum.splits prod.splits)

lemma and_then_ret_unit: "and_then m (\<lambda>_. ret ()) = m"
  by (rule ext) (auto simp: and_then_apply ret_apply split: sum.splits prod.splits)

lemma file_tasks_run: "for_each run_task (file_tasks ps) = scan_window ps"
  by (simp add: file_tasks_def for_each_append for_each_map scan_window_def and_then_ret_unit and_then_ret_right)

lemma live_tasks_run: "for_each run_task (live_tasks pss) = run_live pss"
proof (induction pss)
  case Nil
  then show ?case by (simp add: live_tasks_def run_live_def)
next
  case (Cons ps pss)
  then show ?case
    by (auto simp: live_tasks_def run_live_def for_each_append file_tasks_run live_window_def scan_window_def
        and_then_assoc and_then_ret_unit)
qed

lemma check_task:
  "with_sctp check_thresholds (c, w) =
     (let r = for_each emit_report (over_threshold (init_chunk_count (the_sctp c), max_init_chunks (the_sctp c))) w
      in (fst r, (c, snd r)))"
  by (simp add: with_sctp_def on_part_apply check_eq Let_def)

text \<open>A call is its parts one after another, and each part publishes at most once.\<close>

lemma findings_run:
  "for_each (\<lambda>f. outside (emit_report (finding_report src f))) fs (c, w) =
     (let r = for_each emit_report (map (finding_report src) fs) w in (fst r, (c, snd r)))"
  by (simp add: for_each_outside for_each_map Let_def)

lemma log_run:
  "with_investigator (log_packet gb gs p) (c, w) =
     for_each (\<lambda>f. outside (emit_report (finding_report (packet_source p) f))) (scan_payload (extract_tcp_payload p) gb gs) (c, w)"
  by (simp add: with_investigator_def on_part_apply log_packet_eq payload_reports_def findings_run Let_def)

lemma task_parts_run:
  fixes w :: "'a world_scheme"
  assumes "task_parts c u = Some us"
  shows "run_task u (c, w) = for_each run_task us (c, w)"
  using assms
proof (cases u)
  case (ProcessPacket p)
  with assms show ?thesis
    by (auto simp: process_look for_each_append for_each_map and_then_ret_unit and_then_ret_right and_then_apply log_run ret_apply)
next
  case CheckThresholds
  have "for_each run_task (map (\<lambda>(src, n). CheckSource m src n) items) (c, w) = for_each (\<lambda>(src_ip, count).
      if m < count then outside (emit_report (flood_report m src_ip count)) else ret ()) items (c, w)" for m items
    by (simp add: for_each_map case_prod_unfold)
  with CheckThresholds assms show ?thesis by (auto simp: check_task check_loop)
qed simp_all

text \<open>Preparing and running the tasks is \<open>correlator_main\<close>.\<close>

lemma replay_is_correlator_main:
  "correlator_main fs readelf rdpcap windows args =
     and_then (prepare_replay fs readelf rdpcap windows args) (\<lambda>(c, ts). with_new c (for_each run_task ts))"
proof (rule ext)
  fix w :: "'a world_scheme"
  obtain r w1 where p: "parse_target fs readelf args w = (r, w1)" by fastforce
  show "correlator_main fs readelf rdpcap windows args w =
      and_then (prepare_replay fs readelf rdpcap windows args) (\<lambda>(c, ts). with_new c (for_each run_task ts)) w"
  proof (cases r)
    case (Inl e)
    with p show ?thesis by (simp add: correlator_main_def prepare_replay_def Let_def and_then_apply)
  next
    case (Inr x)
    obtain gb gs where x: "x = (gb, gs)" by (cases x)
    show ?thesis
      using p by (cases "rdpcap (the (arg_pcap_file args))")
        (simp_all add: Inr x correlator_main_def prepare_replay_def and_then_apply Let_def ret_apply raise_err_apply
          run_on_pcap_def file_tasks_run live_tasks_run scan_window_def with_new_def)
  qed
qed

section \<open>Each task keeps the detectors' contract\<close>

fun task_follow :: "replay_task \<Rightarrow> corr_view \<Rightarrow> corr_view" where
  "task_follow (ProcessPacket p) v = corr_follow p v"
| "task_follow ResetWindow (verb, gb, gs, s, t) = (verb, gb, gs, s\<lparr>init_chunk_count := []\<rparr>, t)"
| "task_follow (CountInits p) (verb, gb, gs, s, t) = (verb, gb, gs, fold count_init (init_source p) s, t)"
| "task_follow (FollowSegment p) (verb, gb, gs, s, t) = (verb, gb, gs, s, tcp_follow p t)"
| "task_follow _ v = v"

fun task_gives :: "corr_view \<Rightarrow> replay_task \<Rightarrow> report list" where
  "task_gives v (ProcessPacket p) = corr_gives v p"
| "task_gives (verb, gb, gs, s, t) CheckThresholds = over_threshold (init_chunk_count s, max_init_chunks s)"
| "task_gives v (PublishFinding p f) = [finding_report (packet_source p) f]"
| "task_gives (verb, gb, gs, s, t) (FollowSegment p) = tcp_gives t p"
| "task_gives v (CheckSource m src n) = (if m < n then [flood_report m src n] else [])"
| "task_gives v _ = []"

lemma one_publication: "task_parts c u = None \<Longrightarrow> length (task_gives v u) \<le> 1"
  by (cases "(v, u)" rule: task_gives.cases)
    (auto simp: tcp_gives_def conn_gives_def Let_def split: option.splits prod.splits)

lemma task_parts_reports:
  assumes "task_parts c u = Some us"
  shows "reports_along task_follow task_gives (corr_view c) us = task_gives (corr_view c) u
    \<and> fold task_follow us (corr_view c) = task_follow u (corr_view c)"
proof -
  have findings: "reports_along task_follow task_gives v (map (PublishFinding p) fs @ ts) =
      map (finding_report (packet_source p)) fs @ reports_along task_follow task_gives v ts"
    "fold task_follow (map (PublishFinding p) fs) v = v" for p fs ts v
    by (induction fs) simp_all
  have sources: "reports_along task_follow task_gives v (map (\<lambda>(src, n). CheckSource m src n) items) = over_threshold (items, m)"
    "fold task_follow (map (\<lambda>(src, n). CheckSource m src n) items) v = v" for m items v
    by (induction items) (auto simp: over_threshold_def)
  have view: "corr_view c = (verbose_log c, got_base c, got_size c, the_sctp c, tcp_view (the_tcp c))"
    by (simp add: corr_view_def)
  show ?thesis
    using assms
    by (cases u) (auto simp: view findings sources corr_gives_def corr_follow_def payload_reports_def)
qed

lemma source_reports:
  "run_task (CheckSource m src n) (c, w) =
     (let r = for_each emit_report (task_gives v (CheckSource m src n)) w in (fst r, (c, snd r)))"
  "run_task (PublishFinding p f) (c, w) =
     (let r = for_each emit_report (task_gives v (PublishFinding p f)) w in (fst r, (c, snd r)))"
  by (auto simp: outside_apply ret_apply and_then_ret_unit and_then_ret_right Let_def)

interpretation replay: detector run_task corr_view task_follow task_gives
proof unfold_locales
  fix r v t
  assume "r \<in> set (task_gives v t)"
  then show "report_ok r"
    by (cases "(v, t)" rule: task_gives.cases)
      (auto dest: packets.gives_ok tcp_packets.gives_ok simp: over_threshold_def flood_report_ok finding_report_ok split: if_splits)
next
  have ok: "\<forall>r \<in> set (over_threshold v). report_ok r" for v
    by (auto simp: over_threshold_def flood_report_ok)
  have ok1: "\<forall>r \<in> set (task_gives v (CheckSource m src n)). report_ok r" "\<forall>r \<in> set (task_gives v (PublishFinding p f)). report_ok r"
    for v m src n p f by (simp_all add: flood_report_ok finding_report_ok)
  fix t and c :: correlator and w :: "'a world_scheme"
  show "\<exists>c' w'. run_task t (c, w) = (Inr (), (c', w')) \<and> corr_view c' = task_follow t (corr_view c)
      \<and> emitted (task_gives (corr_view c) t) w w'" if b: "bound l w" for l
  proof (cases t)
    case (ProcessPacket p)
    then show ?thesis using packets.step_bound [OF b, of p c] by simp
  next
    case CheckThresholds
    let ?rs = "over_threshold (init_chunk_count (the_sctp c), max_init_chunks (the_sctp c))"
    from emit_reports_bound [OF b ok] obtain w' where "for_each emit_report ?rs w = (Inr (), w')" "emitted ?rs w w'"
      by blast
    then show ?thesis by (simp add: CheckThresholds check_task corr_view_def)
  next
    case (FollowSegment p)
    then show ?thesis
      using tcp_packets.step_bound [OF b, of p "the_tcp c"] by (auto simp: with_tcp_def on_part_apply corr_view_def)
  next
    case (PublishFinding p f)
    show ?thesis
      using emit_reports_bound [OF b ok1(2), of "corr_view c" p f]
      unfolding PublishFinding source_reports(2) [of p f c w "corr_view c"] by (auto simp: Let_def)
  next
    case (CheckSource m src n)
    show ?thesis
      using emit_reports_bound [OF b ok1(1), of "corr_view c" m src n]
      unfolding CheckSource source_reports(1) [of m src n c w "corr_view c"] by (auto simp: Let_def)
  qed (simp_all add: with_sctp_def on_part_apply reset_window_def own_apply process_eq corr_view_def ret_apply)
  show "\<exists>c' w'. run_task t (c, w) = (if task_gives (corr_view c) t = [] then Inr () else Inl RuntimeError, (c', w'))
      \<and> ENGINE w' = ENGINE w \<and> (task_gives (corr_view c) t = [] \<longrightarrow> corr_view c' = task_follow t (corr_view c))"
    if u: "usable_loop (ENGINE w) = None"
  proof (cases t)
    case (ProcessPacket p)
    then show ?thesis using packets.step_unbound [OF u, of p c] by simp
  next
    case CheckThresholds
    with u show ?thesis by (simp add: check_task emit_reports_unbound ok corr_view_def env_ticked_def)
  next
    case (FollowSegment p)
    then show ?thesis
      using tcp_packets.step_unbound [OF u, of p "the_tcp c"]
      by (auto simp: with_tcp_def on_part_apply corr_view_def)
  next
    case (PublishFinding p f)
    show ?thesis
      using emit_reports_unbound [OF u ok1(2), of "corr_view c" p f]
      unfolding PublishFinding source_reports(2) [of p f c w "corr_view c"] by (auto simp: Let_def env_ticked_def)
  next
    case (CheckSource m src n)
    show ?thesis
      using emit_reports_unbound [OF u ok1(1), of "corr_view c" m src n]
      unfolding CheckSource source_reports(1) [of m src n c w "corr_view c"] by (auto simp: Let_def env_ticked_def)
  qed (simp_all add: with_sctp_def on_part_apply reset_window_def own_apply process_eq corr_view_def ret_apply)
qed

end
