(* ===== verification/Startup.thy ===== *)
theory Startup
  imports Replay_Tasks
begin

text \<open>
  The top-level statements of \<open>main.py\<close>, thread by thread: the main thread starts the server,
  waits for the engine to be bound, waits for the user, replays packet by packet and stays until
  the server ends or the keyboard interrupts it; the server's thread starts the drain task, runs
  the callbacks and the drain task's turns, and may end at any time, which closes its loop. The
  replay's publications interleave with the server one by one, the handshake on \<open>engine_ready\<close>
  decides whether the engine is bound when they begin, and a keyboard interrupt may come between
  any two of them. Errors of starting a thread or of printing are left out.
\<close>

text \<open>Where the two threads are. \<open>DrainFailed\<close> is a server whose drain task ended with an exception.\<close>

datatype main_thread_at =
    StartsServer | AwaitsEngine | AwaitsEnter | Replaying "replay_task list" | JoinsServer
  | MainEnds | MainRaises py_error

datatype server_at = NotStarted | Starting | Serving loop_id | DrainFailed loop_id | ServerEnded

text \<open>\<open>saved\<close> is \<open>live_capture.pcap\<close>; \<open>taken\<close> records what the drain task took.\<close>

record startup =
  main_thread :: main_thread_at
  server :: server_at
  replayer :: correlator
  chain :: kill_chain
  saved :: "packet list"
  taken :: "event list"

definition startup_created :: "correlator \<Rightarrow> startup" where
  "startup_created c = \<lparr>main_thread = StartsServer, server = NotStarted, replayer = c,
     chain = new_dashboard_correlator, saved = [], taken = []\<rparr>"

text \<open>The server's thread is a daemon: it ends with the main thread.\<close>

definition process_alive :: "startup \<Rightarrow> bool" where
  "process_alive t = (case main_thread t of MainEnds \<Rightarrow> False | MainRaises e \<Rightarrow> False | _ \<Rightarrow> True)"

text \<open>\<open>run_live\<close> catches the keyboard interrupt, \<open>run_on_pcap\<close> does not.\<close>

definition file_replay :: "cli_args \<Rightarrow> bool" where
  "file_replay args \<longleftrightarrow> capture_type \<lparr>pcap_file_dir = arg_pcap_file args\<rparr> = lit ''file''"

fun captures :: "replay_task \<Rightarrow> bool" where
  "captures SniffWindow = True"
| "captures (SaveWindow ps) = True"
| "captures t = False"

inductive startup_step ::
  "files \<Rightarrow> readelf \<Rightarrow> (str \<Rightarrow> py_error + packet list) \<Rightarrow> packet list list \<Rightarrow> cli_args
   \<Rightarrow> startup \<times> 'a dash_scheme \<Rightarrow> startup \<times> 'a dash_scheme \<Rightarrow> bool"
  for fs readelf rdpcap windows args where
  server_starts: "main_thread t = StartsServer \<Longrightarrow> startup_step fs readelf rdpcap windows args
    (t, s) (t\<lparr>main_thread := AwaitsEngine, server := Starting\<rparr>, s)"
| drain_starts: "process_alive t \<Longrightarrow> server t = Starting \<Longrightarrow> start_drain l s = (Inr (), s') \<Longrightarrow>
    startup_step fs readelf rdpcap windows args (t, s) (t\<lparr>server := Serving l\<rparr>, s')"
| server_aborts: "process_alive t \<Longrightarrow> server t = Starting \<Longrightarrow> startup_step fs readelf rdpcap windows args
    (t, s) (t\<lparr>server := ServerEnded\<rparr>, s)"
| server_ends: "process_alive t \<Longrightarrow> server t \<in> {Serving l, DrainFailed l} \<Longrightarrow> startup_step fs readelf rdpcap windows args
    (t, s) (t\<lparr>server := ServerEnded\<rparr>, s\<lparr>ENGINE := close_loop l (ENGINE s)\<rparr>)"
| callback_runs: "process_alive t \<Longrightarrow> server t \<in> {Serving l, DrainFailed l} \<Longrightarrow> loop_callback l s = (r, s') \<Longrightarrow>
    startup_step fs readelf rdpcap windows args (t, s) (t, s')"
| event_drained: "process_alive t \<Longrightarrow> server t = Serving l \<Longrightarrow> queue (ENGINE s) = e # es \<Longrightarrow>
    drain_turn (chain t, s) = (Inr (), (k, s')) \<Longrightarrow> startup_step fs readelf rdpcap windows args
    (t, s) (t\<lparr>chain := k, taken := taken t @ [e]\<rparr>, s')"
| drain_fails: "process_alive t \<Longrightarrow> server t = Serving l \<Longrightarrow> queue (ENGINE s) = e # es \<Longrightarrow>
    drain_turn (chain t, s) = (Inl x, (k, s')) \<Longrightarrow> startup_step fs readelf rdpcap windows args
    (t, s) (t\<lparr>chain := k, taken := taken t @ [e], server := DrainFailed l\<rparr>, s')"
| session_acts: "process_alive t \<Longrightarrow> server t \<in> {Serving l, DrainFailed l} \<Longrightarrow>
    startup_step fs readelf rdpcap windows args (t, s) (t, ws_effect x s)"
| engine_seen: "main_thread t = AwaitsEngine \<Longrightarrow> engine_ready s \<Longrightarrow> startup_step fs readelf rdpcap windows args
    (t, s) (t\<lparr>main_thread := AwaitsEnter\<rparr>, s)"
| engine_times_out: "main_thread t = AwaitsEngine \<Longrightarrow> \<not> engine_ready s \<Longrightarrow> startup_step fs readelf rdpcap windows args
    (t, s) (t\<lparr>main_thread := MainRaises RuntimeError\<rparr>, s)"
| input_fails: "main_thread t = AwaitsEnter \<Longrightarrow> x \<in> {EOFError, DecodeError} \<Longrightarrow> startup_step fs readelf rdpcap windows args
    (t, s) (t\<lparr>main_thread := MainRaises x\<rparr>, s)"
| arguments_refused: "main_thread t = AwaitsEnter \<Longrightarrow> x \<in> {SystemExit 0, SystemExit 2} \<Longrightarrow> startup_step fs readelf rdpcap windows args
    (t, s) (t\<lparr>main_thread := MainRaises x\<rparr>, s)"
| enter_pressed: "main_thread t = AwaitsEnter \<Longrightarrow>
    prepare_replay fs readelf rdpcap windows args s = (Inr (c, ts), s') \<Longrightarrow> startup_step fs readelf rdpcap windows args
    (t, s) (t\<lparr>main_thread := Replaying ts, replayer := c\<rparr>, s')"
| replay_refused: "main_thread t = AwaitsEnter \<Longrightarrow>
    prepare_replay fs readelf rdpcap windows args s = (Inl x, s') \<Longrightarrow> startup_step fs readelf rdpcap windows args
    (t, s) (t\<lparr>main_thread := MainRaises x\<rparr>, s')"
| window_sniffed: "main_thread t = Replaying (SniffWindow # us) \<Longrightarrow> startup_step fs readelf rdpcap windows args
    (t, s) (t\<lparr>main_thread := Replaying us\<rparr>, s)"
| window_saved: "main_thread t = Replaying (SaveWindow ps # us) \<Longrightarrow> startup_step fs readelf rdpcap windows args
    (t, s) (t\<lparr>main_thread := Replaying us, saved := saved t @ ps\<rparr>, s)"
| capture_raises: "main_thread t = Replaying (u # us) \<Longrightarrow> captures u \<Longrightarrow> \<not> file_replay args \<Longrightarrow> x \<noteq> KeyboardInterrupt \<Longrightarrow> startup_step fs readelf rdpcap windows args
    (t, s) (t\<lparr>main_thread := MainRaises x\<rparr>, s)"
| task_begins: "main_thread t = Replaying (u # us) \<Longrightarrow> task_parts (replayer t) u = Some vs \<Longrightarrow> startup_step fs readelf rdpcap windows args
    (t, s) (t\<lparr>main_thread := Replaying (vs @ us)\<rparr>, s)"
| task_returns: "main_thread t = Replaying (u # us) \<Longrightarrow> \<not> captures u \<Longrightarrow> task_parts (replayer t) u = None \<Longrightarrow>
    run_task u (replayer t, s) = (Inr (), (c, s')) \<Longrightarrow> startup_step fs readelf rdpcap windows args
    (t, s) (t\<lparr>main_thread := Replaying us, replayer := c\<rparr>, s')"
| task_raises: "main_thread t = Replaying (u # us) \<Longrightarrow> \<not> captures u \<Longrightarrow> task_parts (replayer t) u = None \<Longrightarrow>
    run_task u (replayer t, s) = (Inl x, (c, s')) \<Longrightarrow> startup_step fs readelf rdpcap windows args
    (t, s) (t\<lparr>main_thread := MainRaises x, replayer := c\<rparr>, s')"
| replay_ends: "main_thread t = Replaying [] \<Longrightarrow> file_replay args \<Longrightarrow> startup_step fs readelf rdpcap windows args
    (t, s) (t\<lparr>main_thread := JoinsServer\<rparr>, s)"
| live_interrupted: "main_thread t = Replaying us \<Longrightarrow> \<not> file_replay args \<Longrightarrow> startup_step fs readelf rdpcap windows args
    (t, s) (t\<lparr>main_thread := JoinsServer\<rparr>, s)"
| interrupt_raises: "main_thread t \<in> {StartsServer, AwaitsEngine, AwaitsEnter, JoinsServer}
      \<or> (file_replay args \<and> main_thread t = Replaying us) \<Longrightarrow> startup_step fs readelf rdpcap windows args
    (t, s) (t\<lparr>main_thread := MainRaises KeyboardInterrupt\<rparr>, s)"
| server_joined: "main_thread t = JoinsServer \<Longrightarrow> server t = ServerEnded \<Longrightarrow> startup_step fs readelf rdpcap windows args
    (t, s) (t\<lparr>main_thread := MainEnds\<rparr>, s)"
| join_interrupted: "main_thread t = JoinsServer \<Longrightarrow> startup_step fs readelf rdpcap windows args
    (t, s) (t\<lparr>main_thread := MainEnds\<rparr>, s)"

text \<open>An interrupt while the two lines before the join are printed is not caught, one during it is.\<close>

inductive startup_run ::
  "files \<Rightarrow> readelf \<Rightarrow> (str \<Rightarrow> py_error + packet list) \<Rightarrow> packet list list \<Rightarrow> cli_args
   \<Rightarrow> startup \<times> 'a dash_scheme \<Rightarrow> startup \<times> 'a dash_scheme \<Rightarrow> bool"
  for fs readelf rdpcap windows args where
  no_step: "startup_run fs readelf rdpcap windows args x x"
| one_more: "startup_run fs readelf rdpcap windows args x y \<Longrightarrow> startup_step fs readelf rdpcap windows args y z \<Longrightarrow>
    startup_run fs readelf rdpcap windows args x z"

section \<open>Preparing the replay only reads\<close>

lemma range_pure:
  "get_got_range fs readelf (p, w) =
    (fst (get_got_range fs readelf (p, ())), (fst (snd (get_got_range fs readelf (p, ()))), w))"
proof -
  note P = elf_steps_pure [where s = "s :: elf_parser \<times> 'a" for s] elf_steps_pure [where s = "s :: elf_parser \<times> unit" for s]
  show ?thesis
    by (simp add: get_got_range_def elf_parse_def and_then_apply look_apply own_apply ret_apply raise_err_apply P
        split: sum.splits prod.splits option.splits)
qed

lemma target_pure: "parse_target fs readelf args w = (fst (parse_target fs readelf args ()), w)"
  using range_pure [of fs readelf "new_elf_parser (the (arg_target_binary args))" w]
  by (auto simp: parse_target_def ret_apply with_new_def split: option.splits prod.splits)

text \<open>What the arguments amount to: an error, or the correlator and its tasks.\<close>

definition replay_plan :: "files \<Rightarrow> readelf \<Rightarrow> (str \<Rightarrow> py_error + packet list) \<Rightarrow> packet list list \<Rightarrow> cli_args
   \<Rightarrow> py_error + correlator \<times> replay_task list" where
  "replay_plan fs readelf rdpcap windows args =
     (case fst (parse_target fs readelf args ()) of
        Inl e \<Rightarrow> Inl e
      | Inr (gb, gs) \<Rightarrow> (let c = new_correlator (\<not> arg_quiet args) (arg_max_init args) (arg_window args)
            (arg_seq_threshold args) (Some \<lparr>pcap_file_dir = arg_pcap_file args\<rparr>) gb gs
          in case arg_pcap_file args of
               Some f \<Rightarrow> if f \<noteq> [] then map_sum id (\<lambda>ps. (c, file_tasks ps)) (rdpcap f) else Inr (c, live_tasks windows)
             | None \<Rightarrow> Inr (c, live_tasks windows)))"

lemma prepare_replay_plan: "prepare_replay fs readelf rdpcap windows args w = (replay_plan fs readelf rdpcap windows args, w)"
  using capture_file_type [of "arg_pcap_file args"]
  by (auto simp: prepare_replay_def replay_plan_def Let_def and_then_apply target_pure [of _ _ _ w] ret_apply raise_err_apply
      split: sum.splits option.splits prod.splits)

section \<open>What the two threads keep\<close>

text \<open>Every event published so far: taken by the drain task, queued, or scheduled on the loop.\<close>

definition on_the_way :: "startup \<Rightarrow> 'a world_scheme \<Rightarrow> event list" where
  "on_the_way t s = taken t @ queue (ENGINE s)
     @ (case bound_loop (ENGINE s) of None \<Rightarrow> [] | Some l \<Rightarrow> ready (ENGINE s) l)"

abbreviation reports_of_tasks :: "correlator \<Rightarrow> replay_task list \<Rightarrow> report list" where
  "reports_of_tasks c \<equiv> reports_along task_follow task_gives (corr_view c)"

text \<open>The reports of the whole replay are those published and \<open>left\<close>.\<close>

definition published :: "py_error + correlator \<times> replay_task list \<Rightarrow> report list \<Rightarrow> startup \<Rightarrow> 'a world_scheme \<Rightarrow> bool" where
  "published plan left t s \<longleftrightarrow> (\<exists>c ts. plan = Inr (c, ts) \<and> reports_of_tasks c ts = map report_of (on_the_way t s) @ left)"

text \<open>What the main thread may raise before and during the replay.\<close>

definition raised_early :: "py_error + correlator \<times> replay_task list \<Rightarrow> py_error \<Rightarrow> 'a world_scheme \<Rightarrow> bool" where
  "raised_early plan e s \<longleftrightarrow>
     (if bound_loop (ENGINE s) = None then e \<in> {RuntimeError, KeyboardInterrupt}
      else e \<in> {KeyboardInterrupt, EOFError, DecodeError, SystemExit 0, SystemExit 2} \<or> plan = Inl e)"

definition raised_late :: "bool \<Rightarrow> py_error \<Rightarrow> report list \<Rightarrow> server_at \<Rightarrow> bool" where
  "raised_late is_file e left v \<longleftrightarrow>
     e = RuntimeError \<and> v = ServerEnded \<and> left \<noteq> [] \<or> e = KeyboardInterrupt \<or> \<not> is_file"

definition main_ok :: "bool \<Rightarrow> py_error + correlator \<times> replay_task list \<Rightarrow> startup \<Rightarrow> 'a dash_scheme \<Rightarrow> bool" where
  "main_ok is_file plan t s \<longleftrightarrow> (case main_thread t of
       StartsServer \<Rightarrow> on_the_way t s = [] \<and> (engine_ready s \<longleftrightarrow> bound_loop (ENGINE s) \<noteq> None)
     | AwaitsEngine \<Rightarrow> on_the_way t s = [] \<and> (engine_ready s \<longleftrightarrow> bound_loop (ENGINE s) \<noteq> None)
     | AwaitsEnter \<Rightarrow> on_the_way t s = [] \<and> bound_loop (ENGINE s) \<noteq> None
     | Replaying ts \<Rightarrow> published plan (reports_of_tasks (replayer t) ts) t s \<and> bound_loop (ENGINE s) \<noteq> None
     | JoinsServer \<Rightarrow> (\<exists>left. published plan left t s \<and> (is_file \<longrightarrow> left = [])) \<and> bound_loop (ENGINE s) \<noteq> None
     | MainEnds \<Rightarrow> (\<exists>left. published plan left t s \<and> (is_file \<longrightarrow> left = [])) \<and> bound_loop (ENGINE s) \<noteq> None
     | MainRaises e \<Rightarrow> on_the_way t s = [] \<and> raised_early plan e s
         \<or> (\<exists>left. published plan left t s \<and> raised_late is_file e left (server t)))"

definition server_ok :: "startup \<Rightarrow> 'a dash_scheme \<Rightarrow> bool" where
  "server_ok t s \<longleftrightarrow> maxsize (ENGINE s) \<le> 0 \<and> engine_typed (ENGINE s) \<and> windows_typed (chain t)
     \<and> (bound_loop (ENGINE s) = None \<longrightarrow> (\<forall>l. ready (ENGINE s) l = []))
     \<and> (\<forall>l. server t = Serving l \<longrightarrow> bound l s) \<and> (\<forall>l. server t \<noteq> DrainFailed l)
     \<and> (server t \<in> {NotStarted, Starting} \<longrightarrow> bound_loop (ENGINE s) = None \<and> (\<forall>l. \<not> loop_closed (ENGINE s) l))
     \<and> (main_thread t = StartsServer \<longrightarrow> server t = NotStarted)"

lemma server_cases: "server_ok t s \<Longrightarrow> bound_loop (ENGINE s) \<noteq> None \<Longrightarrow> server t = ServerEnded \<or> (\<exists>l. server t = Serving l)"
  by (cases "server t") (auto simp: server_ok_def)

lemma main_ok_same:
  assumes "main_ok f plan t s" "process_alive t" "main_thread t' = main_thread t" "replayer t' = replayer t"
    "on_the_way t' s' = on_the_way t s" "engine_ready s' = engine_ready s"
    "bound_loop (ENGINE s') = bound_loop (ENGINE s)"
  shows "main_ok f plan t' s'"
  using assms by (auto simp: main_ok_def published_def process_alive_def split: main_thread_at.splits)

lemma callback_moves:
  assumes "loop_callback l s = (r, s')" "bound l s" "maxsize (ENGINE s) \<le> 0"
  shows "on_the_way t s' = on_the_way t s \<and> bound l s' \<and> maxsize (ENGINE s') \<le> 0 \<and> world.more s' = world.more s"
  using assms usable_bound [of "ENGINE s" l]
  by (auto simp: loop_callback_def put_nowait_def put_event_def has_room_def on_the_way_def bound_def
      split: list.splits)

lemma drain_takes:
  assumes "queue (ENGINE s) = e # es" "engine_typed (ENGINE s)" "windows_typed k"
  shows "\<exists>k' s'. drain_turn (k, s) = (Inr (), (k', s')) \<and> windows_typed k' \<and> ENGINE s' = (ENGINE s)\<lparr>queue := es\<rparr>"
proof -
  have "\<forall>e' \<in> set (window_of k (ev_src e) @ [e]). metadata_ok e'"
    using assms by (auto simp: windows_typed_def engine_typed_def intro: typed_event_metadata)
  from dashboard_event_engine [OF this, of "s\<lparr>ENGINE := (ENGINE s)\<lparr>queue := es\<rparr>\<rparr>"]
  have "ENGINE (snd (snd (drain_turn (k, s)))) = (ENGINE s)\<lparr>queue := es\<rparr>"
    by (simp add: drain_turn_event [OF assms(1)])
  with drain_turn_typed [OF assms(2,3)] show ?thesis by auto
qed

lemma emitted_on_the_way:
  assumes "emitted rs s s'" "bound l s" "engine_typed (ENGINE s)" "\<forall>r \<in> set rs. report_ok r"
  shows "map report_of (on_the_way t s') = map report_of (on_the_way t s) @ rs \<and> engine_typed (ENGINE s')
    \<and> bound_loop (ENGINE s') = bound_loop (ENGINE s) \<and> usable_loop (ENGINE s') = usable_loop (ENGINE s)
    \<and> maxsize (ENGINE s') = maxsize (ENGINE s)"
proof -
  obtain es where es: "map report_of es = rs" "ENGINE s' = posted es (ENGINE s)" using assms(1) by (auto simp: emitted_def)
  have "\<forall>e \<in> set es. report_ok (report_of e)" using assms(4) by (simp flip: es(1))
  with posted_typed [OF assms(3) this] es assms(2) usable_bound [of "ENGINE s" l] show ?thesis
    by (auto simp: on_the_way_def bound_def posted_ready)
qed

text \<open>A part on an open loop emits its report; on a closed one it raises if it has one.\<close>

lemma task_runs:
  assumes "bound_loop (ENGINE s) = Some l" "engine_typed (ENGINE s)" "run_task u (c, s) = (r, (c', s'))"
  shows "(if r = Inr () then corr_view c' = task_follow u (corr_view c)
      \<and> map report_of (on_the_way t s') = map report_of (on_the_way t s) @ task_gives (corr_view c) u
    else r = Inl RuntimeError \<and> usable_loop (ENGINE s) = None \<and> task_gives (corr_view c) u \<noteq> []
      \<and> on_the_way t s' = on_the_way t s)
    \<and> bound_loop (ENGINE s') = Some l \<and> usable_loop (ENGINE s') = usable_loop (ENGINE s)
    \<and> engine_typed (ENGINE s') \<and> maxsize (ENGINE s') = maxsize (ENGINE s)"
proof (cases "usable_loop (ENGINE s)")
  case None
  from replay.step_unbound [OF None, of u c] obtain c1 s1 where
    "run_task u (c, s) = (if task_gives (corr_view c) u = [] then Inr () else Inl RuntimeError, (c1, s1))"
    "ENGINE s1 = ENGINE s" "task_gives (corr_view c) u = [] \<longrightarrow> corr_view c1 = task_follow u (corr_view c)" by blast
  with assms None show ?thesis by (auto simp: on_the_way_def split: if_splits)
next
  case (Some k)
  then have b: "bound k s" by (simp add: bound_def)
  from replay.step_bound [OF b, of u c] obtain c1 s1 where
    s1: "run_task u (c, s) = (Inr (), (c1, s1))" "corr_view c1 = task_follow u (corr_view c)"
      "emitted (task_gives (corr_view c) u) s s1" by blast
  have "\<forall>r \<in> set (task_gives (corr_view c) u). report_ok r" using replay.gives_ok by blast
  with emitted_on_the_way [OF s1(3) b assms(2), of t] s1 assms(1,3) show ?thesis by simp
qed

lemma alive_simps [simp]:
  "main_thread t = StartsServer \<Longrightarrow> process_alive t" "process_alive (t\<lparr>server := v\<rparr>) = process_alive t"
  by (simp_all add: process_alive_def)

lemma close_loop_sel [simp]:
  "queue (close_loop l g) = queue g" "ready (close_loop l g) = ready g" "maxsize (close_loop l g) = maxsize g"
  "bound_loop (close_loop l g) = bound_loop g" "engine_typed (close_loop l g) = engine_typed g"
  by (simp_all add: close_loop_def engine_typed_def)

lemma on_the_way_simps [simp]:
  "on_the_way (t\<lparr>main_thread := m\<rparr>) s = on_the_way t s" "on_the_way (t\<lparr>replayer := c\<rparr>) s = on_the_way t s"
  "on_the_way (t\<lparr>server := v\<rparr>) s = on_the_way t s" "on_the_way (t\<lparr>saved := ps\<rparr>) s = on_the_way t s"
  "on_the_way t (s\<lparr>ENGINE := close_loop l (ENGINE s)\<rparr>) = on_the_way t s"
  by (simp_all add: on_the_way_def close_loop_def cong: option.case_cong)

lemma session_keeps [simp]: "ENGINE (ws_effect x s) = ENGINE s" "engine_ready (ws_effect x s) = engine_ready s"
  by (cases x, simp_all add: connect_def disconnect_def)+

lemma published_simps [simp]:
  "published plan left (t\<lparr>main_thread := m\<rparr>) s = published plan left t s"
  "published plan left (t\<lparr>replayer := c\<rparr>) s = published plan left t s"
  "published plan left (t\<lparr>saved := ps\<rparr>) s = published plan left t s"
  by (simp_all add: published_def)

lemma server_ok_main [simp]:
  "m \<noteq> StartsServer \<Longrightarrow> main_thread t \<noteq> StartsServer \<Longrightarrow> server_ok (t\<lparr>main_thread := m\<rparr>) s = server_ok t s"
  "server_ok (t\<lparr>saved := ps\<rparr>) s = server_ok t s" "server_ok (t\<lparr>replayer := c\<rparr>) s = server_ok t s"
  by (simp_all add: server_ok_def)

text \<open>A call and its parts leave the same reports to come.\<close>

lemma parts_left:
  assumes "task_parts c u = Some vs"
  shows "reports_of_tasks c (vs @ us) = reports_of_tasks c (u # us)"
  using task_parts_reports [OF assms] by (simp add: reports_along_append)

lemma startup_step_ok:
  assumes "startup_step fs readelf rdpcap windows args x y"
    and "plan = replay_plan fs readelf rdpcap windows args" "f = file_replay args"
    and "main_ok f plan (fst x) (snd x)" "server_ok (fst x) (snd x)"
  shows "main_ok f plan (fst y) (snd y) \<and> server_ok (fst y) (snd y)"
  using assms(1)
proof (cases rule: startup_step.cases)
  case (drain_starts t l s s')
  have o: "bound_loop (ENGINE s) = None" "\<not> loop_closed (ENGINE s) l" using drain_starts assms(5) by (simp_all add: server_ok_def)
  have s': "s' = s\<lparr>ENGINE := (ENGINE s)\<lparr>bound_loop := Some l\<rparr>, engine_ready := True\<rparr>"
    using drain_starts(5) by (simp add: start_drain_def bind_loop_def change_apply)
  have "main_thread t = StartsServer \<or> main_thread t = AwaitsEngine"
    using assms(4) o drain_starts(1,3) by (auto simp: main_ok_def process_alive_def split: main_thread_at.splits)
  then show ?thesis
    using drain_starts assms(4,5) o
    by (auto simp: s' main_ok_def server_ok_def on_the_way_def bound_def engine_typed_def)
next
  case (server_ends t l s)
  have "main_ok f plan (t\<lparr>server := ServerEnded\<rparr>) (s\<lparr>ENGINE := close_loop l (ENGINE s)\<rparr>)"
    by (rule main_ok_same [of _ _ t s]) (use server_ends assms(4) in simp_all)
  with server_ends assms(5) show ?thesis by (auto simp: server_ok_def)
next
  case (server_aborts t s)
  have "main_ok f plan (t\<lparr>server := ServerEnded\<rparr>) s"
    by (rule main_ok_same [of _ _ t s]) (use server_aborts assms(4) in simp_all)
  with server_aborts assms(5) show ?thesis by (simp add: server_ok_def)
next
  case (callback_runs t l s r s')
  have l: "bound l s" "maxsize (ENGINE s) \<le> 0" using callback_runs assms(5) by (auto simp: server_ok_def)
  note k = callback_moves [OF callback_runs(5) l, of t]
  have b: "bound_loop (ENGINE s) = Some l" "bound_loop (ENGINE s') = bound_loop (ENGINE s)"
    using k l usable_bound by (auto simp: bound_def)
  have "main_ok f plan t s'"
    by (rule main_ok_same [of _ _ t s]) (use callback_runs assms(4) k b more_fields [of s' s] in simp_all)
  moreover have "engine_typed (ENGINE s')"
    using callback_typed [of s l] callback_runs assms(5) by (simp add: server_ok_def)
  ultimately show ?thesis using callback_runs assms(5) k l b by (auto simp: server_ok_def bound_def)
next
  case (event_drained t l s e es k s')
  have typed: "engine_typed (ENGINE s)" "windows_typed (chain t)" using event_drained assms(5) by (simp_all add: server_ok_def)
  from drain_takes [OF event_drained(5) typed] event_drained(6) have s':
    "ENGINE s' = (ENGINE s)\<lparr>queue := es\<rparr>" "windows_typed k" by auto
  have "on_the_way t s \<noteq> []" using event_drained(5) by (simp add: on_the_way_def)
  then have "main_ok f plan (t\<lparr>chain := k, taken := taken t @ [e]\<rparr>) s'"
    using event_drained s' assms(4)
    by (auto simp: main_ok_def published_def process_alive_def on_the_way_def split: main_thread_at.splits)
  then show ?thesis
    using event_drained s' assms(5) typed by (auto simp: server_ok_def bound_def engine_typed_def)
next
  case (drain_fails t l s e es x k s')
  have typed: "engine_typed (ENGINE s)" "windows_typed (chain t)" using drain_fails assms(5) by (simp_all add: server_ok_def)
  from drain_takes [OF drain_fails(5) typed] drain_fails(6) show ?thesis by auto
next
  case (session_acts t l s x)
  have "main_ok f plan t (ws_effect x s)"
    by (rule main_ok_same [of _ _ t s]) (use session_acts assms(4) in \<open>simp_all add: on_the_way_def cong: option.case_cong\<close>)
  with session_acts assms(5) show ?thesis by (simp add: server_ok_def bound_def)
next
  case (enter_pressed t s c ts s')
  then have "s' = s" "plan = Inr (c, ts)" using assms(2) by (simp_all add: prepare_replay_plan)
  with enter_pressed assms(4,5) show ?thesis
    by (auto simp: main_ok_def server_ok_def published_def)
next
  case (replay_refused t s x s')
  then have "s' = s" "plan = Inl x" using assms(2) by (simp_all add: prepare_replay_plan)
  with replay_refused assms(4,5) show ?thesis by (auto simp: main_ok_def server_ok_def raised_early_def)
next
  case (task_begins t u us vs s)
  with assms(4,5) show ?thesis using parts_left [of "replayer t" u vs us] by (simp add: main_ok_def server_ok_def)
next
  case (task_returns t u us s c s')
  obtain l where l: "bound_loop (ENGINE s) = Some l" using assms(4) task_returns by (auto simp: main_ok_def)
  have typed: "engine_typed (ENGINE s)" using task_returns assms(5) by (simp add: server_ok_def)
  note k = task_runs [OF l typed task_returns(6), of t, simplified]
  have "published plan (reports_of_tasks c us) t s'"
    using assms(4) task_returns k by (auto simp: main_ok_def published_def)
  with k l task_returns assms(5) show ?thesis by (auto simp: main_ok_def server_ok_def bound_def)
next
  case (task_raises t u us s x c s')
  obtain l where l: "bound_loop (ENGINE s) = Some l" using assms(4) task_raises by (auto simp: main_ok_def)
  have typed: "engine_typed (ENGINE s)" using task_raises assms(5) by (simp add: server_ok_def)
  note k = task_runs [OF l typed task_raises(6), of t, simplified]
  have "server t = ServerEnded"
    using server_cases [of t s] task_raises assms(5) l k by (auto simp: server_ok_def bound_def)
  moreover have "published plan (reports_of_tasks (replayer t) (u # us)) t s'"
    using assms(4) task_raises k by (auto simp: main_ok_def published_def)
  ultimately have "main_ok f plan (t\<lparr>main_thread := MainRaises x, replayer := c\<rparr>) s'"
    using k by (auto simp: main_ok_def raised_late_def)
  with k l task_raises assms(5) show ?thesis by (auto simp: server_ok_def bound_def)
next
  case (interrupt_raises t us s)
  with assms(3-5) show ?thesis by (auto simp: main_ok_def server_ok_def raised_early_def raised_late_def)
next
  case (server_starts t s)
  with assms(4,5) show ?thesis by (simp add: main_ok_def server_ok_def)
next
  case (engine_times_out t s)
  with assms(4,5) show ?thesis by (auto simp: main_ok_def raised_early_def)
next
  case (input_fails t x s)
  with assms(4,5) show ?thesis by (auto simp: main_ok_def raised_early_def)
next
  case (arguments_refused t x s)
  with assms(4,5) show ?thesis by (auto simp: main_ok_def raised_early_def)
next
  case (capture_raises t u us x s)
  with assms show ?thesis
    by (auto simp: main_ok_def raised_late_def)
next
  case (live_interrupted t us s)
  with assms(3-5) show ?thesis by (auto simp: main_ok_def)
qed (use assms(3-5) in \<open>simp_all add: main_ok_def\<close>)

lemma startup_run_first:
  "startup_run fs readelf rdpcap windows args y z \<Longrightarrow> startup_step fs readelf rdpcap windows args x y \<Longrightarrow>
   startup_run fs readelf rdpcap windows args x z"
  by (induction rule: startup_run.induct) (blast intro: startup_run.intros)+

lemma startup_run_append:
  "startup_run fs readelf rdpcap windows args y z \<Longrightarrow> startup_run fs readelf rdpcap windows args x y \<Longrightarrow>
   startup_run fs readelf rdpcap windows args x z"
  by (induction rule: startup_run.induct) (blast intro: startup_run.intros)+

lemma startup_run_ok:
  assumes "startup_run fs readelf rdpcap windows args x y"
    and "main_ok (file_replay args) (replay_plan fs readelf rdpcap windows args) (fst x) (snd x) \<and> server_ok (fst x) (snd x)"
  shows "main_ok (file_replay args) (replay_plan fs readelf rdpcap windows args) (fst y) (snd y) \<and> server_ok (fst y) (snd y)"
  using assms
proof (induction rule: startup_run.induct)
  case (one_more x y z)
  then show ?case using startup_step_ok [OF one_more.hyps(2) refl refl] by blast
qed

lemma created_ok:
  assumes "ENGINE s = new_engine 0" "\<not> engine_ready s"
  shows "main_ok f plan (startup_created c) s \<and> server_ok (startup_created c) s"
proof -
  have "queue (new_engine 0) = []" "ready (new_engine 0) l = []" "maxsize (new_engine 0) = 0" for l
    by (simp_all add: new_engine_def)
  with assms show ?thesis
    by (simp add: main_ok_def server_ok_def startup_created_def on_the_way_def engine_typed_def
        windows_typed_def new_dashboard_correlator_def new_kill_chain_def window_of_def)
qed

text \<open>The reports of a capture file's tasks are those of \<open>correlator_main\<close>.\<close>

lemma file_task_reports:
  "reports_of_tasks (new_correlator (\<not> arg_quiet args) (arg_max_init args) d (arg_seq_threshold args) iv gb gs) (file_tasks ps)
   = main_reports (\<not> arg_quiet args) gb gs args ps"
proof -
  have f: "fold task_follow (map ProcessPacket ps) v = fold corr_follow ps v" for v by (induction ps arbitrary: v) simp_all
  have r: "reports_along task_follow task_gives v (map ProcessPacket ps) = reports_along corr_follow corr_gives v ps" for v
    by (induction ps arbitrary: v) simp_all
  let ?s = "new_sctp_detector (arg_max_init args) d"
  have "init_chunk_count ?s = tally []" by (simp add: new_sctp_detector_def tally_def)
  from tally_fold [OF this, of "init_sources ps"] have
    "over_threshold (init_chunk_count (fold count_init (init_sources ps) ?s), max_init_chunks (fold count_init (init_sources ps) ?s))
     = flood_reports (arg_max_init args) ps"
    by (simp add: flood_reports_tally new_sctp_detector_def)
  then show ?thesis
    using new_window_reports [of "\<not> arg_quiet args" "arg_max_init args" d "arg_seq_threshold args" iv gb gs ps]
    by (simp add: file_tasks_def reports_along_append f r new_correlator_view corr_fold window_reports_def main_reports_def)
qed

section \<open>The outcome of a start\<close>

text \<open>On a serving loop the main thread can always go on: task by task, nothing raises.\<close>

lemma parts_finish:
  assumes "bound l s" "server t = Serving l" "main_thread t = Replaying (ts @ us)" "\<forall>u \<in> set ts. \<forall>c. task_parts c u = None"
  shows "\<exists>t' s'. startup_run fs readelf rdpcap windows args (t, s) (t', s') \<and> bound l s' \<and> server t' = Serving l
    \<and> main_thread t' = Replaying us"
  using assms
proof (induction ts arbitrary: t s)
  case Nil
  then show ?case using startup_run.no_step [of fs readelf rdpcap windows args "(t, s)"] by auto
next
  case (Cons u ts)
  have "\<exists>t1 s1. startup_step fs readelf rdpcap windows args (t, s) (t1, s1) \<and> bound l s1 \<and> server t1 = Serving l
      \<and> main_thread t1 = Replaying (ts @ us)"
  proof (cases "captures u")
    case True
    then show ?thesis
      using Cons.prems startup_step.window_sniffed [of t "ts @ us"] startup_step.window_saved [of t _ "ts @ us"]
      by (cases u rule: captures.cases) fastforce+
  next
    case False
    from replay.step_bound [OF Cons.prems(1), of u "replayer t"] obtain c' s1 where
      r: "run_task u (replayer t, s) = (Inr (), (c', s1))" "emitted (task_gives (corr_view (replayer t)) u) s s1" by blast
    have "startup_step fs readelf rdpcap windows args (t, s) (t\<lparr>main_thread := Replaying (ts @ us), replayer := c'\<rparr>, s1)"
      by (rule startup_step.task_returns) (use Cons.prems False r(1) in simp_all)
    moreover have "bound l s1" using emitted_bound [OF r(2)] Cons.prems(1) by simp
    ultimately show ?thesis
      by (intro exI conjI) (assumption, assumption, use Cons.prems(2) in simp_all)
  qed
  then obtain t1 s1 where t1: "startup_step fs readelf rdpcap windows args (t, s) (t1, s1)" "bound l s1" "server t1 = Serving l"
    "main_thread t1 = Replaying (ts @ us)" by blast
  have "\<forall>u \<in> set ts. \<forall>c. task_parts c u = None" using Cons.prems(4) by simp
  from Cons.IH [OF t1(2-4) this] t1(1) show ?case by (blast intro: startup_run_first)
qed

lemma parts_simple: "task_parts c u = Some vs \<Longrightarrow> v \<in> set vs \<Longrightarrow> task_parts c' v = None"
  by (cases u) auto

lemma task_finishes:
  assumes "bound l s" "server t = Serving l" "main_thread t = Replaying (u # us)"
  shows "\<exists>t' s'. startup_run fs readelf rdpcap windows args (t, s) (t', s') \<and> bound l s' \<and> server t' = Serving l
    \<and> main_thread t' = Replaying us"
proof (cases "task_parts (replayer t) u")
  case None
  then have "\<forall>c. task_parts c u = None" by (cases u) simp_all
  then show ?thesis using parts_finish [OF assms(1,2), of "[u]" us] assms(3) by simp
next
  case (Some vs)
  let ?t = "t\<lparr>main_thread := Replaying (vs @ us)\<rparr>"
  have step: "startup_step fs readelf rdpcap windows args (t, s) (?t, s)" by (rule startup_step.task_begins [OF assms(3) Some])
  have "\<forall>v \<in> set vs. \<forall>c. task_parts c v = None" using parts_simple [OF Some] by blast
  then have "\<exists>t' s'. startup_run fs readelf rdpcap windows args (?t, s) (t', s') \<and> bound l s' \<and> server t' = Serving l
      \<and> main_thread t' = Replaying us"
    by (intro parts_finish [OF assms(1)]) (simp_all add: assms(2))
  with step show ?thesis by (blast intro: startup_run_first)
qed

lemma tasks_finish:
  assumes "bound l s" "server t = Serving l" "main_thread t = Replaying ts"
  shows "\<exists>t' s'. startup_run fs readelf rdpcap windows args (t, s) (t', s') \<and> main_thread t' = Replaying []"
  using assms
proof (induction ts arbitrary: t s)
  case Nil
  then show ?case using startup_run.no_step [of fs readelf rdpcap windows args "(t, s)"] by auto
next
  case (Cons u us)
  from task_finishes [OF Cons.prems] obtain t1 s1 where
    t1: "startup_run fs readelf rdpcap windows args (t, s) (t1, s1)" "bound l s1" "server t1 = Serving l" "main_thread t1 = Replaying us"
    by blast
  from Cons.IH [OF t1(2-4)] t1(1) show ?case by (blast intro: startup_run_append)
qed

section \<open>The outcome of a start\<close>

text \<open>C8: however the two threads of \<open>main.py\<close> interleave, publication by publication, a replay only
  runs on an engine that was bound, and what has been published (taken by the drain task, queued
  or scheduled on the loop, in this order) is at every moment a prefix of the reports of the
  whole replay: nothing before Enter, all of them once the main thread waits for the server after
  a capture file, and together with what the remaining tasks cause the whole in between. The
  drain task never fails, and while the server serves the replay can go on to its last task.
  The main thread raises in these cases only. Before the replay, with nothing published: a
  RuntimeError when the engine was not bound in time, an interrupt, and once it is bound a failing
  \<open>input\<close>, argparse's exit or the error of the target binary or the capture file. In the replay:
  a RuntimeError once the server has ended, with a report left that could not be published; an
  interrupt, from a live capture only after it; and, in a live capture, what \<open>sniff\<close> or \<open>wrpcap\<close> raise.\<close>

theorem startup_outcome:
  assumes "startup_run fs readelf rdpcap windows args (startup_created c0, s) (t, s')"
    and "ENGINE s = new_engine 0" "\<not> engine_ready s" "plan = replay_plan fs readelf rdpcap windows args"
  shows "(\<forall>l. server t \<noteq> DrainFailed l) \<and> (case main_thread t of
      StartsServer \<Rightarrow> on_the_way t s' = []
    | AwaitsEngine \<Rightarrow> on_the_way t s' = []
    | AwaitsEnter \<Rightarrow> on_the_way t s' = [] \<and> bound_loop (ENGINE s') \<noteq> None
    | Replaying ts \<Rightarrow> published plan (reports_of_tasks (replayer t) ts) t s' \<and> bound_loop (ENGINE s') \<noteq> None
        \<and> (\<forall>l. server t = Serving l \<longrightarrow>
            (\<exists>t' s''. startup_run fs readelf rdpcap windows args (t, s') (t', s'') \<and> main_thread t' = Replaying []))
    | JoinsServer \<Rightarrow> (\<exists>left. published plan left t s' \<and> (file_replay args \<longrightarrow> left = []))
    | MainEnds \<Rightarrow> (\<exists>left. published plan left t s' \<and> (file_replay args \<longrightarrow> left = []))
    | MainRaises e \<Rightarrow> on_the_way t s' = []
          \<and> (if bound_loop (ENGINE s') = None then e \<in> {RuntimeError, KeyboardInterrupt}
             else e \<in> {KeyboardInterrupt, EOFError, DecodeError, SystemExit 0, SystemExit 2} \<or> plan = Inl e)
        \<or> (\<exists>left. published plan left t s'
            \<and> (e = RuntimeError \<and> server t = ServerEnded \<and> left \<noteq> [] \<or> e = KeyboardInterrupt \<or> \<not> file_replay args)))"
proof -
  have ok: "main_ok (file_replay args) plan t s'" "server_ok t s'"
    using startup_run_ok [OF assms(1)] created_ok [OF assms(2,3), of "file_replay args" plan c0] by (simp_all add: assms(4))
  have go: "\<exists>t' s''. startup_run fs readelf rdpcap windows args (t, s') (t', s'') \<and> main_thread t' = Replaying []"
    if "main_thread t = Replaying ts" "server t = Serving l" for ts l
  proof -
    have "bound l s'" using ok(2) that(2) by (simp add: server_ok_def)
    then show ?thesis by (rule tasks_finish [OF _ that(2,1)])
  qed
  from ok(2) have "\<forall>l. server t \<noteq> DrainFailed l" by (simp add: server_ok_def)
  then show ?thesis
    using ok(1) go by (cases "main_thread t") (simp_all add: main_ok_def raised_early_def raised_late_def)
qed

text \<open>The attack capture: a payload finding, a hijack and a flood.\<close>

abbreviation attack_args :: cli_args where
  "attack_args \<equiv> sample_args\<lparr>arg_target_binary := None, arg_max_init := 1\<rparr>"

abbreviation attack_run :: "startup \<times> dash \<Rightarrow> startup \<times> dash \<Rightarrow> bool" where
  "attack_run \<equiv> startup_run (\<lambda>_. None) (\<lambda>_ _. Inl FileNotFoundError) (\<lambda>_. Inr attack_packets) [] attack_args"

abbreviation attack_step :: "startup \<times> dash \<Rightarrow> startup \<times> dash \<Rightarrow> bool" where
  "attack_step \<equiv> startup_step (\<lambda>_. None) (\<lambda>_ _. Inl FileNotFoundError) (\<lambda>_. Inr attack_packets) [] attack_args"

lemma attack_plan:
  "\<exists>c. replay_plan (\<lambda>_. None) (\<lambda>_ _. Inl FileNotFoundError) (\<lambda>_. Inr attack_packets) [] attack_args =
      Inr (c, file_tasks attack_packets)
    \<and> reports_of_tasks c (file_tasks attack_packets) = [finding_report (lit ''a'') (finding_text (RepeatedRun 0x41 12 0)),
        hijack_report (sample_key ''a'') 1000 900000 899000 12 1, flood_report 1 (lit ''a'') 2]"
proof -
  let ?c = "new_correlator (\<not> arg_quiet attack_args) (arg_max_init attack_args) 15 (arg_seq_threshold attack_args)
      (Some \<lparr>pcap_file_dir = Some (lit ''c'')\<rparr>) None None"
  have "replay_plan (\<lambda>_. None) (\<lambda>_ _. Inl FileNotFoundError) (\<lambda>_. Inr attack_packets) [] attack_args =
      Inr (?c, file_tasks attack_packets)"
    by (simp add: replay_plan_def parse_target_def sample_args_def ret_apply)
  moreover have "reports_of_tasks ?c (file_tasks attack_packets) = [finding_report (lit ''a'') (finding_text (RepeatedRun 0x41 12 0)),
        hijack_report (sample_key ''a'') 1000 900000 899000 12 1, flood_report 1 (lit ''a'') 2]"
    unfolding file_task_reports using attack_reports [of True] by (simp add: main_reports_def sample_args_def del: finding_text.simps)
  ultimately show ?thesis by blast
qed

lemma attack_reaches_join:
  "\<exists>t s'. attack_run (startup_created (the_correlator sample_program), boot_dash) (t, s') \<and> main_thread t = JoinsServer"
proof -
  obtain c where plan: "replay_plan (\<lambda>_. None) (\<lambda>_ _. Inl FileNotFoundError) (\<lambda>_. Inr attack_packets) [] attack_args =
      Inr (c, file_tasks attack_packets)" using attack_plan by blast
  let ?t = "startup_created (the_correlator sample_program)"
  let ?s = "boot_dash\<lparr>ENGINE := (ENGINE boot_dash)\<lparr>bound_loop := Some 7\<rparr>, engine_ready := True\<rparr>"
  let ?t1 = "?t\<lparr>main_thread := AwaitsEngine, server := Starting\<rparr>"
  let ?t2 = "?t1\<lparr>server := Serving 7\<rparr>"
  let ?t3 = "?t2\<lparr>main_thread := AwaitsEnter\<rparr>"
  let ?t4 = "?t3\<lparr>main_thread := Replaying (file_tasks attack_packets), replayer := c\<rparr>"
  have boot: "ENGINE boot_dash = new_engine 0" by (simp add: boot_dash_def)
  have "attack_step (?t, boot_dash) (?t1, boot_dash)"
    by (rule startup_step.server_starts) (simp add: startup_created_def)
  moreover have "attack_step (?t1, boot_dash) (?t2, ?s)"
    by (rule startup_step.drain_starts) (simp_all add: process_alive_def start_drain_def bind_loop_def change_apply)
  moreover have "attack_step (?t2, ?s) (?t3, ?s)" by (rule startup_step.engine_seen) simp_all
  moreover have "attack_step (?t3, ?s) (?t4, ?s)"
    by (rule startup_step.enter_pressed) (simp_all add: prepare_replay_plan plan)
  moreover have "\<exists>t' s'. attack_run (?t4, ?s) (t', s') \<and> main_thread t' = Replaying []"
    by (rule tasks_finish [where l = 7]) (simp_all add: bound_def boot)
  then obtain t' s' where fin: "attack_run (?t4, ?s) (t', s')" "main_thread t' = Replaying []" by blast
  moreover have "attack_step (t', s') (t'\<lparr>main_thread := JoinsServer\<rparr>, s')"
    by (rule startup_step.replay_ends [OF fin(2)])
      (simp add: file_replay_def sample_args_def capture_type_def capture_file_def lit_def)
  ultimately have "attack_run (?t, boot_dash) (t'\<lparr>main_thread := JoinsServer\<rparr>, s')"
    by (meson startup_run_first startup_run.one_more)
  then show ?thesis by (intro exI conjI) (assumption, simp)
qed

theorem startup_outcome_witness:
  "\<exists>t s'. attack_run (startup_created (the_correlator sample_program), boot_dash) (t, s') \<and> main_thread t = JoinsServer
    \<and> map report_of (on_the_way t s') = [finding_report (lit ''a'') (finding_text (RepeatedRun 0x41 12 0)),
        hijack_report (sample_key ''a'') 1000 900000 899000 12 1, flood_report 1 (lit ''a'') 2]"
proof -
  obtain t s' where run: "attack_run (startup_created (the_correlator sample_program), boot_dash) (t, s')" "main_thread t = JoinsServer"
    using attack_reaches_join by blast
  have boot: "ENGINE boot_dash = new_engine 0" "\<not> engine_ready boot_dash" by (simp_all add: boot_dash_def)
  have "file_replay attack_args" by (simp add: file_replay_def sample_args_def capture_type_def capture_file_def lit_def)
  with startup_outcome [OF run(1) boot refl] run(2) attack_plan have
    "map report_of (on_the_way t s') = [finding_report (lit ''a'') (finding_text (RepeatedRun 0x41 12 0)),
        hijack_report (sample_key ''a'') 1000 900000 899000 12 1, flood_report 1 (lit ''a'') 2]"
    by (auto simp: published_def)
  with run show ?thesis by (intro exI conjI)
qed

end
