(* ===== verification/Ioc_Matcher.thy ===== *)
theory Ioc_Matcher
  imports Counting Py_Float
begin

text \<open>
  \<open>xdr/binary/ioc_matcher.py\<close>: Shannon entropy, the chunked SHA-256 of a file and
  \<open>analyze_file\<close>. A \<open>hashlib\<close> object is the bytes fed to it so far, and \<open>sha256_hex\<close>, a
  parameter, the hex digest of a message. The entropy loop is written once over the
  arithmetic it uses: the program's, 53-bit rounded with \<open>math.log2\<close> as the parameter
  \<open>log2\<close>, and exact real arithmetic, in which the documented range is proved.
\<close>

section \<open>Entropy\<close>

fun entropy_loop ::
  "(int \<Rightarrow> int \<Rightarrow> 'f) \<Rightarrow> ('f \<Rightarrow> 'f \<Rightarrow> 'f) \<Rightarrow> ('f \<Rightarrow> 'f \<Rightarrow> 'f) \<Rightarrow> ('f \<Rightarrow> 'f) \<Rightarrow> int \<Rightarrow> int list \<Rightarrow> 'f \<Rightarrow> 'f" where
  "entropy_loop dv mul sb lg len [] entropy = entropy"
| "entropy_loop dv mul sb lg len (count # counts) entropy =
     (let p = dv count len
      in entropy_loop dv mul sb lg len counts (sb entropy (mul p (lg p))))"

definition counter :: "bytes \<Rightarrow> (byte, int) dict" where
  "counter data = fold count_one data []"

definition shannon_entropy :: "(pyfloat \<Rightarrow> pyfloat) \<Rightarrow> bytes \<Rightarrow> pyfloat" where
  "shannon_entropy log2 data =
     (if data = [] then 0
      else entropy_loop int_truediv float_mult float_sub log2 (int (length data)) (map snd (counter data)) 0)"

definition exact_entropy :: "bytes \<Rightarrow> real" where
  "exact_entropy data =
     (if data = [] then 0
      else entropy_loop (\<lambda>a b. of_int a / of_int b) (*) (-) (log 2) (int (length data)) (map snd (counter data)) 0)"

section \<open>Hashing and analysis\<close>

text \<open>\<open>f.read(n)\<close>: a negative size reads everything.\<close>

definition read_chunk :: "int \<Rightarrow> bytes \<Rightarrow> bytes \<times> bytes" where
  "read_chunk n rest = (if n < 0 then (rest, []) else (take (nat n) rest, drop (nat n) rest))"

function hash_chunks :: "int \<Rightarrow> bytes \<Rightarrow> bytes \<Rightarrow> bytes" where
  "hash_chunks chunk_size hasher rest =
     (case read_chunk chunk_size rest of (chunk, rest') \<Rightarrow>
        if chunk = [] then hasher else hash_chunks chunk_size (hasher @ chunk) rest')"
  by pat_completeness auto
termination
  by (relation "measure (\<lambda>(n, h, rest). length rest)") (auto simp: read_chunk_def split: if_splits)

declare hash_chunks.simps [simp del]

definition sha256_of_file :: "(bytes \<Rightarrow> str) \<Rightarrow> (str \<Rightarrow> bytes option) \<Rightarrow> str \<Rightarrow> int \<Rightarrow> py_error + str" where
  "sha256_of_file sha256_hex fs path chunk_size =
     (case fs path of None \<Rightarrow> Inl FileNotFoundError
      | Some content \<Rightarrow> Inr (sha256_hex (hash_chunks chunk_size [] content)))"

record analysis =
  an_path :: str
  an_sha256 :: str
  an_entropy :: pyfloat
  is_known_ioc :: bool
  high_entropy :: bool

definition ENTROPY_THRESHOLD :: pyfloat where
  "ENTROPY_THRESHOLD = fl (72 / 10)"

definition analyze_file ::
  "(bytes \<Rightarrow> str) \<Rightarrow> (pyfloat \<Rightarrow> pyfloat) \<Rightarrow> (str \<Rightarrow> bytes option) \<Rightarrow> str \<Rightarrow> str set \<Rightarrow> pyfloat \<Rightarrow> py_error + analysis" where
  "analyze_file sha256_hex log2 fs path ioc_hashes entropy_threshold =
     (case sha256_of_file sha256_hex fs path 65536 of
        Inl e \<Rightarrow> Inl e
      | Inr digest \<Rightarrow>
          (case fs path of None \<Rightarrow> Inl FileNotFoundError
           | Some data \<Rightarrow>
               (let entropy = shannon_entropy log2 data in
                Inr \<lparr>an_path = path, an_sha256 = digest, an_entropy = entropy,
                     is_known_ioc = digest \<in> ioc_hashes, high_entropy = entropy_threshold \<le> entropy\<rparr>)))"

section \<open>Correctness\<close>

lemma hash_chunks_eq:
  "hash_chunks n h rest = (if n = 0 then h else h @ rest)"
proof (induction n h rest rule: hash_chunks.induct)
  case (1 n h rest)
  show ?case
  proof (cases "rest = [] \<or> n = 0")
    case True
    then show ?thesis by (subst hash_chunks.simps) (auto simp: read_chunk_def)
  next
    case False
    obtain c r where c: "read_chunk n rest = (c, r)" by (cases "read_chunk n rest")
    with False have "c \<noteq> []" "c @ r = rest" by (auto simp: read_chunk_def split: if_splits)
    with 1 c False show ?thesis by (subst hash_chunks.simps) auto
  qed
qed

text \<open>C38: the result describes the file's whole content, however it is chunked: the digest is the
  SHA-256 of all its bytes for every non-zero chunk size, the file is a known IOC exactly when
  that digest is in the set, and it is flagged exactly when its entropy meets the threshold; a
  missing file raises instead. A chunk size of 0 hashes nothing, so every file then gets the
  digest of the empty message.\<close>

theorem analyze_file_whole_content:
  "(fs path = None \<longrightarrow> analyze_file sha256_hex log2 fs path iocs thr = Inl FileNotFoundError)
   \<and> (\<forall>content. fs path = Some content \<longrightarrow>
        (\<exists>r. analyze_file sha256_hex log2 fs path iocs thr = Inr r
          \<and> an_sha256 r = sha256_hex content \<and> an_entropy r = shannon_entropy log2 content
          \<and> (is_known_ioc r \<longleftrightarrow> sha256_hex content \<in> iocs)
          \<and> (high_entropy r \<longleftrightarrow> thr \<le> shannon_entropy log2 content))
        \<and> (\<forall>n. sha256_of_file sha256_hex fs path n = Inr (sha256_hex (if n = 0 then [] else content))))"
  by (auto simp: analyze_file_def sha256_of_file_def hash_chunks_eq Let_def)

theorem analyze_file_whole_content_witness:
  "sha256_of_file (map uint) (\<lambda>_. Some [1, 2, 3, 4, 5]) (lit ''x'') 2 = Inr [1, 2, 3, 4, 5]"
  using analyze_file_whole_content [of "\<lambda>_. Some [1, 2, 3, 4, 5]" "lit ''x''" "map uint" "\<lambda>x. x" "{}" 0]
  by simp

lemma counter_tally_eq: "counter data = tally data"
  by (simp add: counter_def counter_eq)

lemma exact_loop:
  "entropy_loop (\<lambda>a b. of_int a / of_int b) (*) (-) (log 2) n cs e =
     e - (\<Sum>c \<leftarrow> cs. (of_int c / of_int n) * log 2 (of_int c / of_int n :: real))"
  by (induction cs arbitrary: e) simp_all

lemma exact_entropy_sum:
  assumes "data \<noteq> []"
  shows "exact_entropy data = - (\<Sum>b \<in> set data. (count_list data b / length data) * log 2 (count_list data b / length data))"
proof -
  let ?f = "\<lambda>b. (count_list data b / length data) * log 2 (count_list data b / length data)"
  have "(\<Sum>c \<leftarrow> map snd (counter data). (of_int c / of_int (int (length data))) * log 2 (of_int c / of_int (int (length data)) :: real))
      = (\<Sum>b \<leftarrow> first_seen data. ?f b)"
    by (simp add: counter_tally_eq tally_def comp_def)
  also have "\<dots> = (\<Sum>b \<in> set data. ?f b)"
    by (simp add: sum_list_distinct_conv_sum_set)
  finally show ?thesis using assms by (simp add: exact_entropy_def exact_loop)
qed

text \<open>Gibbs' inequality against the uniform distribution on the bytes that occur.\<close>

lemma entropy_le_log_card:
  fixes p :: "'b \<Rightarrow> real"
  assumes "finite B" "B \<noteq> {}" "\<And>b. b \<in> B \<Longrightarrow> 0 < p b" "sum p B = 1"
  shows "- (\<Sum>b \<in> B. p b * log 2 (p b)) \<le> log 2 (card B)"
proof -
  let ?n = "real (card B)"
  have n: "0 < ?n" using assms(1,2) by (simp add: card_gt_0_iff)
  have "(\<Sum>b \<in> B. p b * ln (1 / (p b * ?n))) \<le> (\<Sum>b \<in> B. p b * (1 / (p b * ?n) - 1))"
    using assms(3) n by (intro sum_mono mult_left_mono ln_le_minus_one) (auto simp: less_imp_le)
  also have "\<dots> = (\<Sum>b \<in> B. 1 / ?n - p b)"
    using assms(3) n by (intro sum.cong refl) (simp add: field_simps, metis less_irrefl)
  also have "\<dots> = 0" using assms(4) n by (simp add: sum_subtractf)
  finally have "(\<Sum>b \<in> B. p b * ln (1 / (p b * ?n))) \<le> 0" .
  moreover have "(\<Sum>b \<in> B. p b * ln (1 / (p b * ?n))) = - (\<Sum>b \<in> B. p b * ln (p b)) - ln ?n"
  proof -
    have "(\<Sum>b \<in> B. p b * ln (1 / (p b * ?n))) = (\<Sum>b \<in> B. - (p b * ln (p b)) - p b * ln ?n)"
      using assms(3) n by (intro sum.cong refl) (simp add: ln_div ln_mult algebra_simps)
    then show ?thesis using assms(4) by (simp add: sum_subtractf sum_negf flip: sum_distrib_right)
  qed
  ultimately have "- (\<Sum>b \<in> B. p b * ln (p b)) \<le> ln ?n" by simp
  then have "- (\<Sum>b \<in> B. p b * ln (p b)) / ln 2 \<le> ln ?n / ln 2"
    by (intro divide_right_mono) simp_all
  then show ?thesis by (simp add: log_def sum_divide_distrib)
qed

lemma bytes_card: "card (set data) \<le> 256" for data :: bytes
proof -
  have "set data \<subseteq> word_of_int ` {0..<256}"
  proof
    fix b assume "b \<in> set data"
    have "b = word_of_int (uint b)" "uint b \<in> {0..<256}" using uint_lt2p [of b] by simp_all
    then show "b \<in> word_of_int ` {0..<256}" by blast
  qed
  then have "card (set data) \<le> card ((word_of_int :: int \<Rightarrow> byte) ` {0..<256})" by (intro card_mono) simp_all
  also have "\<dots> \<le> card {0..<256 :: int}" by (intro card_image_le) simp
  finally show ?thesis by simp
qed

text \<open>Computed exactly, the entropy of any data lies between 0 and the logarithm of the number
  of distinct bytes in it, hence between 0 and 8, and it is 0 for data of one repeated byte.\<close>

theorem entropy_range:
  "0 \<le> exact_entropy data \<and> exact_entropy data \<le> 8
   \<and> (data \<noteq> [] \<longrightarrow> exact_entropy data \<le> log 2 (card (set data)))
   \<and> (card (set data) \<le> 1 \<longrightarrow> exact_entropy data = 0)"
proof (cases "data = []")
  case True
  then show ?thesis by (simp add: exact_entropy_def)
next
  case False
  let ?p = "\<lambda>b. count_list data b / length data"
  have pos: "0 < ?p b" if "b \<in> set data" for b
    using that False by (simp add: count_list_0_iff neq0_conv [symmetric] del: neq0_conv)
  have le: "?p b \<le> 1" for b using count_le_length [of data b] False by (simp add: divide_le_eq)
  have one: "sum ?p (set data) = 1"
    using False sum_count_set [of data "set data"] by (simp flip: sum_divide_distrib of_nat_sum)
  have log: "exact_entropy data \<le> log 2 (card (set data))"
    using entropy_le_log_card [of "set data" ?p] pos one False by (simp add: exact_entropy_sum)
  have "?p b * log 2 (?p b) \<le> 0" if "b \<in> set data" for b
    using pos [OF that] le [of b] by (intro mult_nonneg_nonpos) simp_all
  then have ge: "0 \<le> exact_entropy data"
    using False by (simp add: exact_entropy_sum sum_nonpos)
  have card: "0 < card (set data)" using False by (simp add: card_gt_0_iff)
  have "log 2 (real (card (set data))) \<le> log 2 256"
    using bytes_card [of data] card by (subst log_le_cancel_iff) simp_all
  also have "log 2 (256::real) = 8" using log_pow_cancel [of 2 8] by simp
  finally have "exact_entropy data \<le> 8" using log by simp
  moreover have "exact_entropy data = 0" if "card (set data) \<le> 1"
  proof -
    have "card (set data) = 1" using that card by simp
    with log ge show ?thesis by simp
  qed
  ultimately show ?thesis using ge log by blast
qed

theorem entropy_range_witness: "exact_entropy [7, 7, 7] = 0"
proof -
  have "card (set [7, 7, 7 :: byte]) \<le> 1" by simp
  then show ?thesis using entropy_range [of "[7, 7, 7]"] by blast
qed

lemma ratio_float: "0 < c \<Longrightarrow> c \<le> n \<Longrightarrow> 0 < int_truediv c n \<and> int_truediv c n \<le> 1"
proof -
  assume c: "0 < c" "c \<le> n"
  then have "0 < (of_int c / of_int n :: rat)" by simp
  then have "0 < fl (of_int c / of_int n)"
    using fl_pos_positive [of "of_int c / of_int n"] c by (simp add: fl_def)
  moreover have "fl (of_int c / of_int n) \<le> fl 1" using c by (intro fl_mono) simp
  ultimately show ?thesis by (simp add: int_truediv_def)
qed

lemma float_loop_nonneg:
  assumes "\<And>p. 0 < p \<Longrightarrow> p \<le> 1 \<Longrightarrow> lg p \<le> 0" "\<forall>c \<in> set cs. 0 < c \<and> c \<le> n" "0 \<le> e"
  shows "0 \<le> entropy_loop int_truediv float_mult float_sub lg n cs e"
  using assms(2,3)
proof (induction cs arbitrary: e)
  case Nil
  then show ?case by simp
next
  case (Cons c cs)
  let ?p = "int_truediv c n"
  have p: "0 < ?p" "?p \<le> 1" using ratio_float [of c n] Cons.prems by simp_all
  have "?p * lg ?p \<le> 0" using p assms(1) [OF p] by (intro mult_nonneg_nonpos) simp_all
  then have "float_mult ?p (lg ?p) \<le> 0" using fl_mono [of "?p * lg ?p" 0] by (simp add: float_mult_def)
  then have "0 \<le> float_sub e (float_mult ?p (lg ?p))"
    using Cons.prems fl_mono [of 0 "e - float_mult ?p (lg ?p)"] by (simp add: float_sub_def)
  with Cons show ?case by (simp add: Let_def)
qed

text \<open>In the program's rounded arithmetic, with any \<open>math.log2\<close> that is not positive on (0, 1]
  and 0 at 1, the entropy is never negative, and it is exactly 0 for empty data and for data of
  one repeated byte, which is therefore not flagged at any positive threshold.\<close>

theorem float_entropy_nonneg:
  assumes "\<And>p. 0 < p \<Longrightarrow> p \<le> 1 \<Longrightarrow> lg p \<le> 0" and "lg 1 = 0"
  shows "0 \<le> shannon_entropy lg data \<and> shannon_entropy lg (replicate n b) = 0
    \<and> (\<forall>thr sha fs path iocs r. 0 < thr \<and> fs path = Some (replicate n b)
        \<and> analyze_file sha lg fs path iocs thr = Inr r \<longrightarrow> \<not> high_entropy r)"
proof -
  have "\<forall>c \<in> set (map snd (counter data)). 0 < c \<and> c \<le> int (length data)"
    using tally_pos [of _ data] tally_le [of _ data] by (auto simp: counter_tally_eq)
  then have "0 \<le> shannon_entropy lg data"
    using float_loop_nonneg [OF assms(1)] by (simp add: shannon_entropy_def)
  moreover have const: "shannon_entropy lg (replicate n b) = 0"
  proof (cases n)
    case 0
    then show ?thesis by (simp add: shannon_entropy_def)
  next
    case (Suc m)
    have "count_list (replicate k b) b = k" for k by (induction k) simp_all
    moreover have "remdups (replicate (Suc k) b) = [b]" for k by (induction k) simp_all
    then have "first_seen (replicate (Suc k) b) = [b]" for k
      by (simp add: first_seen_def del: replicate_Suc)
    ultimately have "map snd (counter (replicate n b)) = [int n]"
      by (simp add: counter_tally_eq tally_def Suc del: replicate_Suc)
    then show ?thesis
      using assms(2) Suc by (simp add: shannon_entropy_def int_truediv_def float_mult_def float_sub_def)
  qed
  moreover have "\<not> high_entropy r" if "0 < thr" "fs path = Some (replicate n b)"
    "analyze_file sha lg fs path iocs thr = Inr r" for thr sha fs path iocs r
    using that const by (auto simp: analyze_file_def sha256_of_file_def Let_def)
  ultimately show ?thesis by blast
qed

theorem float_entropy_nonneg_witness:
  "shannon_entropy (\<lambda>p. p - 1) (replicate 3 9) = 0 \<and> 0 \<le> shannon_entropy (\<lambda>p. p - 1) [1, 2, 2]"
  using float_entropy_nonneg [of "\<lambda>p. p - 1" "[1, 2, 2]" 3 9] by simp

end
