(* ===== verification/Host_Threads.thy ===== *)
theory Host_Threads
  imports Host_Monitors
begin

text \<open>
  The threads of \<open>run_host_monitors.py\<close> statement by statement: where each one stands in its
  loop, the observer's life between \<open>start\<close> and \<open>stop\<close> of \<open>XdrFileWatchdog\<close>, and the order
  in which \<open>main\<close> ends the run. The consumer holds an alert between taking it from the queue
  and recording its type. Every run of these threads is, up to that delay, a run of the coarser
  system of \<open>Host_Monitors\<close>; the finer one shows what happens after the stop.
\<close>

datatype consumer_at = ConsumerIdle | ConsumerCheck | ConsumerGet | ConsumerHolds alert | ConsumerDone

datatype poller_at = PollerIdle | PollerCheck | PollerPolls | PollerDone

datatype main_at = MainStartsWatchdog | MainStartsPoller | MainStartsConsumer | MainWaits
  | MainStopping | MainJoining | MainSummary

record threads =
  the_host :: host
  consumer :: consumer_at
  poller :: poller_at
  observer_on :: bool
  main_thread :: main_at

type_synonym 'a threads_world = "threads \<times> 'a world_scheme"

text \<open>The state in which the detectors have been constructed.\<close>

definition threads_created :: "host \<Rightarrow> threads" where
  "threads_created h = \<lparr>the_host = h, consumer = ConsumerIdle, poller = PollerIdle,
     observer_on = False, main_thread = MainStartsWatchdog\<rparr>"

text \<open>\<open>XdrFileWatchdog.start\<close> and \<open>stop\<close>: from the one to the return of the other the observer calls
  the handlers.\<close>

definition watchdog_start :: "threads \<Rightarrow> threads" where
  "watchdog_start t = t\<lparr>observer_on := True\<rparr>"

definition watchdog_stop :: "threads \<Rightarrow> threads" where
  "watchdog_stop t = t\<lparr>observer_on := False\<rparr>"

datatype thread_action =
    Notified fs_action fs_event | Polled proc_table bpf_call_event | PollerMoves
  | ConsumerChecks | ConsumerTakes alert | ConsumerTimesOut | ConsumerRecords | MainMoves

definition on_host :: "(host \<times> 'w, unit) op \<Rightarrow> (threads \<times> 'w, unit) op" where
  "on_host = on_part the_host (\<lambda>h t. t\<lparr>the_host := h\<rparr>)"

text \<open>
  An observer whose handler raised may or may not go on; the joins of \<open>main\<close> time out after two
  seconds, so they do not wait for the threads to be done.
\<close>

inductive thread_step ::
  "(int \<Rightarrow> bool) \<Rightarrow> int \<Rightarrow> 'a threads_world \<Rightarrow> thread_action \<Rightarrow> 'a threads_world \<Rightarrow> bool"
  for printable self_pid where
  notified: "observer_on t \<Longrightarrow> on_host (with_watchdog (dispatch (a, e))) (t, w) = (r, (t', w')) \<Longrightarrow>
    (r = Inr () \<longrightarrow> on') \<Longrightarrow>
    thread_step printable self_pid (t, w) (Notified a e) (t'\<lparr>observer_on := on'\<rparr>, w')"
| poller_checks: "poller t = PollerCheck \<Longrightarrow>
    thread_step printable self_pid (t, w) PollerMoves
      (t\<lparr>poller := if stop_event (the_host t) then PollerDone else PollerPolls\<rparr>, w)"
| polled: "poller t = PollerPolls \<Longrightarrow>
    on_host (with_ebpf (handle_event printable self_pid procs e)) (t, w) = (r, s') \<Longrightarrow>
    thread_step printable self_pid (t, w) (Polled procs e) s'"
| poll_returns: "poller t = PollerPolls \<Longrightarrow>
    thread_step printable self_pid (t, w) PollerMoves (t\<lparr>poller := PollerCheck\<rparr>, w)"
| consumer_checks: "consumer t = ConsumerCheck \<Longrightarrow>
    thread_step printable self_pid (t, w) ConsumerChecks
      (t\<lparr>consumer := if stop_event (the_host t) then ConsumerDone else ConsumerGet\<rparr>, w)"
| consumer_takes: "consumer t = ConsumerGet \<Longrightarrow> get_nowait w = Some (alert, w') \<Longrightarrow>
    thread_step printable self_pid (t, w) (ConsumerTakes alert) (t\<lparr>consumer := ConsumerHolds alert\<rparr>, w')"
| consumer_times_out: "consumer t = ConsumerGet \<Longrightarrow> get_nowait w = None \<Longrightarrow>
    thread_step printable self_pid (t, w) ConsumerTimesOut (t\<lparr>consumer := ConsumerCheck\<rparr>, w)"
| consumer_records: "consumer t = ConsumerHolds alert \<Longrightarrow>
    thread_step printable self_pid (t, w) ConsumerRecords
      (t\<lparr>consumer := ConsumerCheck,
         the_host := (the_host t)\<lparr>seen_types := List.insert (al_type alert) (seen_types (the_host t))\<rparr>\<rparr>, w)"
| main_starts_watchdog: "main_thread t = MainStartsWatchdog \<Longrightarrow>
    thread_step printable self_pid (t, w) MainMoves (watchdog_start (t\<lparr>main_thread := MainStartsPoller\<rparr>), w)"
| main_starts_poller: "main_thread t = MainStartsPoller \<Longrightarrow> poller t = PollerIdle \<Longrightarrow>
    thread_step printable self_pid (t, w) MainMoves
      (t\<lparr>main_thread := MainStartsConsumer, poller := PollerCheck\<rparr>, w)"
| main_starts_consumer: "main_thread t = MainStartsConsumer \<Longrightarrow> consumer t = ConsumerIdle \<Longrightarrow>
    thread_step printable self_pid (t, w) MainMoves (t\<lparr>main_thread := MainWaits, consumer := ConsumerCheck\<rparr>, w)"
| main_stops: "main_thread t = MainWaits \<Longrightarrow>
    thread_step printable self_pid (t, w) MainMoves
      (t\<lparr>main_thread := MainStopping, the_host := (the_host t)\<lparr>stop_event := True\<rparr>\<rparr>, w)"
| main_stops_watchdog: "main_thread t = MainStopping \<Longrightarrow>
    thread_step printable self_pid (t, w) MainMoves (watchdog_stop (t\<lparr>main_thread := MainJoining\<rparr>), w)"
| main_joined: "main_thread t = MainJoining \<Longrightarrow>
    thread_step printable self_pid (t, w) MainMoves (t\<lparr>main_thread := MainSummary\<rparr>, w)"

inductive thread_run ::
  "(int \<Rightarrow> bool) \<Rightarrow> int \<Rightarrow> 'a threads_world \<Rightarrow> thread_action list \<Rightarrow> 'a threads_world \<Rightarrow> bool"
  for printable self_pid where
  start: "thread_run printable self_pid s [] s"
| more: "thread_run printable self_pid s as s' \<Longrightarrow> thread_step printable self_pid s' a s'' \<Longrightarrow>
    thread_run printable self_pid s (as @ [a]) s''"

inductive_cases thread_stepE:
  "thread_step printable self_pid s (Notified a e) s'" "thread_step printable self_pid s (Polled procs e) s'"
  "thread_step printable self_pid s PollerMoves s'" "thread_step printable self_pid s ConsumerChecks s'"
  "thread_step printable self_pid s (ConsumerTakes alert) s'" "thread_step printable self_pid s ConsumerTimesOut s'"
  "thread_step printable self_pid s ConsumerRecords s'" "thread_step printable self_pid s MainMoves s'"

section \<open>Refinement of the coarser system\<close>

text \<open>The coarser state: an alert the consumer holds counts as recorded.\<close>

definition coarse :: "threads \<Rightarrow> host" where
  "coarse t = (case consumer t of
       ConsumerHolds a \<Rightarrow> (the_host t)\<lparr>seen_types := List.insert (al_type a) (seen_types (the_host t))\<rparr>
     | _ \<Rightarrow> the_host t)"

text \<open>The coarser actions of a step; only \<open>main\<close>'s first move is one.\<close>

fun coarse_actions :: "main_at \<Rightarrow> thread_action \<Rightarrow> host_action list" where
  "coarse_actions m (Notified a e) = [FileNotice a e]"
| "coarse_actions m (Polled procs e) = [BpfCall procs e]"
| "coarse_actions m (ConsumerTakes a) = [Poll]"
| "coarse_actions m ConsumerTimesOut = [Poll]"
| "coarse_actions m MainMoves = (if m = MainWaits then [Stop] else [])"
| "coarse_actions m a = []"

text \<open>The producers neither read nor change what the consumer records.\<close>

lemma producer_keeps_seen:
  "with_watchdog m (h\<lparr>seen_types := x\<rparr>, w) =
     (case with_watchdog m (h, w) of (r, (h', w')) \<Rightarrow> (r, (h'\<lparr>seen_types := x\<rparr>, w')))"
  "with_ebpf m' (h\<lparr>seen_types := x\<rparr>, w) =
     (case with_ebpf m' (h, w) of (r, (h', w')) \<Rightarrow> (r, (h'\<lparr>seen_types := x\<rparr>, w')))"
  by (simp_all add: with_watchdog_def with_ebpf_def on_part_apply split: prod.splits)

lemma producer_sel:
  "with_watchdog m (h, w) = (r, (h', w')) \<Longrightarrow> seen_types h' = seen_types h \<and> stop_event h' = stop_event h"
  "with_ebpf m' (h, w) = (r, (h', w')) \<Longrightarrow> seen_types h' = seen_types h \<and> stop_event h' = stop_event h"
  by (auto simp: with_watchdog_def with_ebpf_def on_part_apply split: prod.splits)

lemma coarse_producer:
  assumes "with_watchdog m (the_host t, w) = (r, (h', w'))"
  shows "with_watchdog m (coarse t, w) = (r, (coarse (t\<lparr>the_host := h', observer_on := on'\<rparr>), w'))"
  using assms producer_sel(1) [OF assms]
  by (cases "consumer t") (simp_all add: coarse_def producer_keeps_seen)

lemma coarse_producer_ebpf:
  assumes "with_ebpf m (the_host t, w) = (r, (h', w'))"
  shows "with_ebpf m (coarse t, w) = (r, (coarse (t\<lparr>the_host := h'\<rparr>), w'))"
  using assms producer_sel(2) [OF assms]
  by (cases "consumer t") (simp_all add: coarse_def producer_keeps_seen)

lemma thread_step_simulated:
  assumes "thread_step printable self_pid (t, w) a (t', w')"
  shows "host_run printable self_pid (coarse t, w) (coarse_actions (main_thread t) a) (coarse t', w')"
proof -
  have none: "host_run printable self_pid s [] s" for s :: "host \<times> 'a world_scheme"
    by (rule host_run.start)
  have one: "host_run printable self_pid s [b] s'" if "host_step printable self_pid s b s'"
    for s s' :: "host \<times> 'a world_scheme" and b
    using host_run.more [OF none that] by simp
  show ?thesis
    using assms
  proof (cases rule: thread_step.cases)
    case (notified b e r t1 on')
    obtain h' where h': "with_watchdog (dispatch (b, e)) (the_host t, w) = (r, (h', w'))" "t1 = t\<lparr>the_host := h'\<rparr>"
      using notified(4) by (auto simp: on_host_def on_part_apply split: prod.splits)
    have "host_step printable self_pid (coarse t, w) (FileNotice b e) (coarse t', w')"
      using coarse_producer [OF h'(1), of on'] notified(2) h'(2) by (auto intro: host_step.notice)
    then show ?thesis using notified(1) one by simp
  next
    case (polled procs e r)
    obtain h' where h': "with_ebpf (handle_event printable self_pid procs e) (the_host t, w) = (r, (h', w'))"
      "t' = t\<lparr>the_host := h'\<rparr>"
      using polled(3) by (auto simp: on_host_def on_part_apply split: prod.splits)
    have "host_step printable self_pid (coarse t, w) (BpfCall procs e) (coarse t', w')"
      using coarse_producer_ebpf [OF h'(1)] h'(2) by (auto intro: host_step.call)
    then show ?thesis using polled(1) one by simp
  next
    case (consumer_takes alert)
    then show ?thesis
      by (auto intro!: one host_step.poll simp: drain_pass_def coarse_def)
  next
    case consumer_times_out
    then show ?thesis
      by (auto intro!: one host_step.poll simp: drain_pass_def coarse_def)
  next
    case main_stops
    have "coarse t' = (coarse t)\<lparr>stop_event := True\<rparr>"
      using main_stops by (cases "consumer t") (simp_all add: coarse_def)
    then show ?thesis
      using main_stops by (auto intro!: one host_step.stop)
  qed (auto simp: coarse_def watchdog_start_def watchdog_stop_def intro: none split: consumer_at.splits)
qed


text \<open>What the producers did in a run, in either system.\<close>

fun thread_input :: "thread_action \<Rightarrow> host_action list" where
  "thread_input (Notified a e) = [FileNotice a e]"
| "thread_input (Polled procs e) = [BpfCall procs e]"
| "thread_input a = []"

fun host_input :: "host_action \<Rightarrow> host_action list" where
  "host_input (FileNotice a e) = [FileNotice a e]"
| "host_input (BpfCall procs e) = [BpfCall procs e]"
| "host_input a = []"

definition inputs :: "('x \<Rightarrow> host_action list) \<Rightarrow> 'x list \<Rightarrow> host_action list" where
  "inputs f as = concat (map f as)"

lemma inputs_simps [simp]: "inputs f [] = []" "inputs f (as @ bs) = inputs f as @ inputs f bs"
  "inputs f [a] = f a"
  by (simp_all add: inputs_def)

lemma coarse_inputs: "inputs host_input (coarse_actions m a) = thread_input a"
  by (cases a) (simp_all add: inputs_def)

lemma host_run_append:
  "host_run printable self_pid s' bs s'' \<Longrightarrow> host_run printable self_pid s as s' \<Longrightarrow>
   host_run printable self_pid s (as @ bs) s''"
proof (induction rule: host_run.induct)
  case (start s)
  then show ?case by simp
next
  case (more s bs s' b s'')
  then show ?case using host_run.more by (metis append_assoc)
qed

lemma thread_run_simulated:
  assumes "thread_run printable self_pid s as s'" "s = (t, w)" "s' = (t', w')"
  shows "\<exists>bs. host_run printable self_pid (coarse t, w) bs (coarse t', w') \<and> inputs host_input bs = inputs thread_input as"
  using assms
proof (induction arbitrary: t' w' rule: thread_run.induct)
  case (start s)
  then show ?case by (intro exI [of _ "[]"]) (simp add: host_run.start)
next
  case (more s as s1 a s2)
  obtain t1 w1 where s1: "s1 = (t1, w1)" by (cases s1)
  from more.IH [OF more.prems(1) s1] obtain bs where
    bs: "host_run printable self_pid (coarse t, w) bs (coarse t1, w1)" "inputs host_input bs = inputs thread_input as"
    by blast
  have "host_run printable self_pid (coarse t1, w1) (coarse_actions (main_thread t1) a) (coarse t', w')"
    using more.hyps(2) s1 more.prems(2) thread_step_simulated by simp
  from host_run_append [OF this bs(1)] bs(2) show ?case
    by (intro exI [of _ "bs @ coarse_actions (main_thread t1) a"]) (simp add: coarse_inputs)
qed

lemma coarse_created [simp]: "coarse (threads_created h) = h"
  by (simp add: coarse_def threads_created_def)

lemma coarse_seen: "set (seen_types (the_host t)) \<subseteq> set (seen_types (coarse t))"
  by (cases "consumer t") (auto simp: coarse_def)

text \<open>C27: the threads refine the coarser system: whatever way the statements of the main thread, the
  observer, the poller and the consumer interleave, the run is a run of the system of single
  polls with the same notifications and bpf() calls in the same order, ending with the same
  queue and with the recorded types, an alert the consumer still holds counting as recorded.
  So no lock or delay lets the threads report a type that was never alerted.\<close>

theorem threads_refine_host_run:
  assumes "thread_run printable self_pid (threads_created h, w) as (t', w')"
  shows "\<exists>bs. host_run printable self_pid (h, w) bs (coarse t', w')
    \<and> inputs host_input bs = inputs thread_input as
    \<and> set (seen_types (the_host t')) \<subseteq> set (seen_types (coarse t'))
    \<and> (consumer t' = ConsumerDone \<longrightarrow> coarse t' = the_host t')"
proof -
  from thread_run_simulated [OF assms refl refl] obtain bs where
    "host_run printable self_pid (h, w) bs (coarse t', w')" "inputs host_input bs = inputs thread_input as"
    by auto
  then show ?thesis using coarse_seen [of t'] by (auto simp: coarse_def)
qed

section \<open>After the stop\<close>

fun consumer_steps :: "thread_action \<Rightarrow> nat" where
  "consumer_steps ConsumerChecks = 1"
| "consumer_steps (ConsumerTakes a) = 1"
| "consumer_steps ConsumerTimesOut = 1"
| "consumer_steps ConsumerRecords = 1"
| "consumer_steps a = 0"

fun poller_steps :: "thread_action \<Rightarrow> nat" where
  "poller_steps PollerMoves = 1"
| "poller_steps a = 0"

definition taken :: "thread_action \<Rightarrow> alert list" where
  "taken a = (case a of ConsumerTakes x \<Rightarrow> [x] | _ \<Rightarrow> [])"

text \<open>How many steps, and how many alerts, a stopped thread has left.\<close>

fun consumer_left :: "consumer_at \<Rightarrow> nat" where
  "consumer_left ConsumerGet = 3"
| "consumer_left (ConsumerHolds a) = 2"
| "consumer_left ConsumerDone = 0"
| "consumer_left c = 1"

fun poller_left :: "poller_at \<Rightarrow> nat" where
  "poller_left PollerPolls = 2"
| "poller_left PollerDone = 0"
| "poller_left c = 1"

fun takes_left :: "consumer_at \<Rightarrow> nat" where
  "takes_left ConsumerGet = 1"
| "takes_left c = 0"

lemma notice_queue:
  assumes "on_host (with_watchdog (dispatch (a, e))) (t, w) = (r, (t', w'))"
  shows "\<exists>h new. t' = t\<lparr>the_host := h\<rparr> \<and> stop_event h = stop_event (the_host t)
    \<and> seen_types h = seen_types (the_host t) \<and> ALERT_QUEUE w' = ALERT_QUEUE w @ new"
proof -
  obtain h where h: "with_watchdog (dispatch (a, e)) (the_host t, w) = (r, (h, w'))" "t' = t\<lparr>the_host := h\<rparr>"
    using assms by (auto simp: on_host_def on_part_apply split: prod.splits)
  have "\<exists>new. ALERT_QUEUE w' = ALERT_QUEUE w @ new"
  proof (cases "is_directory e")
    case True
    with h(1) show ?thesis by (simp add: with_watchdog_def on_part_apply dispatch_eq ret_apply)
  next
    case False
    with h(1) show ?thesis
      using alert_then_emit_any [OF fs_report_ok fs_alert_valid, of a e a e "fs_watchdog (the_host t)" w]
      by (auto simp: with_watchdog_def on_part_apply dispatch_eq alerts_added_def)
  qed
  with producer_sel(1) [OF h(1)] h(2) show ?thesis by blast
qed

lemma call_queue:
  assumes "on_host (with_ebpf (handle_event printable self_pid procs e)) (t, w) = (r, (t', w'))"
  shows "\<exists>h new. t' = t\<lparr>the_host := h\<rparr> \<and> stop_event h = stop_event (the_host t)
    \<and> seen_types h = seen_types (the_host t) \<and> ALERT_QUEUE w' = ALERT_QUEUE w @ new"
proof -
  let ?d = "ebpf_watcher (the_host t)"
  obtain h where h: "with_ebpf (handle_event printable self_pid procs e) (the_host t, w) = (r, (h, w'))"
    "t' = t\<lparr>the_host := h\<rparr>"
    using assms by (auto simp: on_host_def on_part_apply split: prod.splits)
  have "\<exists>new. ALERT_QUEUE w' = ALERT_QUEUE w @ new"
  proof (cases "expected_call self_pid procs ?d e")
    case True
    with h(1) show ?thesis by (simp add: with_ebpf_def on_part_apply handle_event_eq)
  next
    case False
    with h(1) show ?thesis
      using alert_then_emit_any [OF call_report_ok call_alert_valid, of printable e printable e ?d w]
      by (auto simp: with_ebpf_def on_part_apply handle_event_eq alerts_added_def)
  qed
  with producer_sel(2) [OF h(1)] h(2) show ?thesis by blast
qed

lemma stopped_step:
  assumes "thread_step printable self_pid (t, w) a (t', w')" "stop_event (the_host t)"
  shows "stop_event (the_host t')
    \<and> consumer_steps a + consumer_left (consumer t') \<le> consumer_left (consumer t)
    \<and> poller_steps a + poller_left (poller t') \<le> poller_left (poller t)
    \<and> length (taken a) + takes_left (consumer t') \<le> takes_left (consumer t)
    \<and> (consumer t = ConsumerDone \<longrightarrow> consumer t' = ConsumerDone \<and> seen_types (the_host t') = seen_types (the_host t))
    \<and> (\<exists>new. ALERT_QUEUE w @ new = taken a @ ALERT_QUEUE w')"
  using assms(1)
proof (cases rule: thread_step.cases)
  case (notified b e r t1 on')
  then show ?thesis using notice_queue [OF notified(4)] assms(2) by (auto simp: taken_def)
next
  case (polled procs e r)
  then show ?thesis using call_queue [OF polled(3)] assms(2) by (auto simp: taken_def)
qed (use assms(2) in \<open>auto simp: taken_def get_nowait_def watchdog_start_def watchdog_stop_def split: list.splits\<close>)


lemma stopped_run:
  assumes "thread_run printable self_pid s as s'" "s = (t, w)" "s' = (t', w')" "stop_event (the_host t)"
  shows "stop_event (the_host t')
    \<and> sum_list (map consumer_steps as) + consumer_left (consumer t') \<le> consumer_left (consumer t)
    \<and> sum_list (map poller_steps as) + poller_left (poller t') \<le> poller_left (poller t)
    \<and> length (concat (map taken as)) + takes_left (consumer t') \<le> takes_left (consumer t)
    \<and> (consumer t = ConsumerDone \<longrightarrow> consumer t' = ConsumerDone \<and> seen_types (the_host t') = seen_types (the_host t))
    \<and> (\<exists>new. ALERT_QUEUE w @ new = concat (map taken as) @ ALERT_QUEUE w')"
  using assms
proof (induction arbitrary: t' w' rule: thread_run.induct)
  case (start s)
  then show ?case by simp
next
  case (more s as s1 a s2)
  obtain t1 w1 where s1: "s1 = (t1, w1)" by (cases s1)
  note IH = more.IH [OF more.prems(1) s1 more.prems(3)]
  have step: "thread_step printable self_pid (t1, w1) a (t', w')" using more.hyps(2) s1 more.prems(2) by simp
  note S = stopped_step [OF step conjunct1 [OF IH]]
  have "\<exists>new. ALERT_QUEUE w @ new = concat (map taken (as @ [a])) @ ALERT_QUEUE w'"
  proof -
    obtain n1 n2 where "ALERT_QUEUE w @ n1 = concat (map taken as) @ ALERT_QUEUE w1"
      "ALERT_QUEUE w1 @ n2 = taken a @ ALERT_QUEUE w'" using IH S by blast
    then have "ALERT_QUEUE w @ n1 @ n2 = concat (map taken (as @ [a])) @ ALERT_QUEUE w'"
      by (metis append_assoc concat_append concat.simps list.simps(8,9) map_append append_Nil2)
    then show ?thesis by blast
  qed
  then show ?case using IH S by auto
qed

text \<open>C28: the stop is prompt but loses alerts: once the stop event is set, the consumer takes at most
  three and the poller at most two more steps, whatever the others do, and the consumer takes at
  most one more alert, its first; everything else that was queued or arrives is still in the
  queue, in order, at any later moment. A consumer that is done never changes what the summary
  reads.\<close>

theorem stop_leaves_alerts:
  assumes "thread_run printable self_pid (t, w) as (t', w')" "stop_event (the_host t)"
  shows "sum_list (map consumer_steps as) \<le> 3 \<and> sum_list (map poller_steps as) \<le> 2
    \<and> (\<exists>k new. k \<le> 1 \<and> ALERT_QUEUE w' = drop k (ALERT_QUEUE w @ new))
    \<and> (consumer t = ConsumerDone \<longrightarrow> seen_types (the_host t') = seen_types (the_host t))"
proof -
  note R = stopped_run [OF assms(1) refl refl assms(2)]
  have bounds: "consumer_left c \<le> 3" "takes_left c \<le> 1" for c by (cases c; simp)+
  have polls: "poller_left p \<le> 2" for p by (cases p) simp_all
  obtain new where new: "ALERT_QUEUE w @ new = concat (map taken as) @ ALERT_QUEUE w'" using R by blast
  then have "ALERT_QUEUE w' = drop (length (concat (map taken as))) (ALERT_QUEUE w @ new)" by simp
  moreover have "length (concat (map taken as)) \<le> 1" using R bounds(2) [of "consumer t"] by linarith
  ultimately show ?thesis
    using R bounds(1) [of "consumer t"] polls [of "poller t"] by (blast intro: le_trans add_leD1)
qed

section \<open>A run that misses a detector\<close>

definition sample_notice :: fs_event where
  "sample_notice = \<lparr>is_directory = False, src_path = lit ''/f'', dest_path = []\<rparr>"

definition stopped_threads :: threads where
  "stopped_threads = (threads_created (sample_host\<lparr>stop_event := True\<rparr>))
     \<lparr>consumer := ConsumerCheck, poller := PollerCheck, main_thread := MainStopping, observer_on := True\<rparr>"

lemma sample_notice_step:
  "\<exists>w'. thread_step (\<lambda>_. True) 10 (stopped_threads, sample_world (Some 7)) (Notified Created sample_notice) (stopped_threads, w')
    \<and> length (ALERT_QUEUE w') = 1"
proof -
  have "bound 7 (sample_world (Some 7))" by simp
  from alert_then_emit_bound [OF this fs_report_ok fs_alert_valid, of Created sample_notice Created sample_notice
      "fs_watchdog (the_host stopped_threads)"] obtain w' where
    w': "dispatch (Created, sample_notice) (fs_watchdog (the_host stopped_threads), sample_world (Some 7))
        = (Inr (), (fs_watchdog (the_host stopped_threads), w'))"
      "alerts_added [fs_alert Created sample_notice] (sample_world (Some 7)) w'"
    by (auto simp: dispatch_eq sample_notice_def)
  have "on_host (with_watchdog (dispatch (Created, sample_notice))) (stopped_threads, sample_world (Some 7))
      = (Inr (), (stopped_threads, w'))"
    using w'(1) by (simp add: on_host_def with_watchdog_def on_part_apply)
  moreover have "observer_on stopped_threads" by (simp add: stopped_threads_def)
  ultimately have "thread_step (\<lambda>_. True) 10 (stopped_threads, sample_world (Some 7)) (Notified Created sample_notice)
      (stopped_threads\<lparr>observer_on := True\<rparr>, w')"
    using thread_step.notified [where on' = True] by blast
  moreover have "stopped_threads\<lparr>observer_on := True\<rparr> = stopped_threads" by (simp add: stopped_threads_def)
  moreover have "length (ALERT_QUEUE w') = 1"
    using w'(2) by (auto simp: alerts_added_def sample_world_def)
  ultimately show ?thesis by auto
qed

lemma sample_stopped_run:
  "\<exists>t' w'. thread_run (\<lambda>_. True) 10 (stopped_threads, sample_world (Some 7))
      [Notified Created sample_notice, ConsumerChecks] (t', w')
    \<and> consumer t' = ConsumerDone \<and> seen_types (the_host t') = [] \<and> length (ALERT_QUEUE w') = 1"
proof -
  obtain w' where w': "thread_step (\<lambda>_. True) 10 (stopped_threads, sample_world (Some 7))
      (Notified Created sample_notice) (stopped_threads, w')" "length (ALERT_QUEUE w') = 1"
    using sample_notice_step by blast
  have "thread_step (\<lambda>_. True) 10 (stopped_threads, w') ConsumerChecks (stopped_threads\<lparr>consumer := ConsumerDone\<rparr>, w')"
    using thread_step.consumer_checks [of stopped_threads "\<lambda>_. True" 10 w']
    by (simp add: stopped_threads_def threads_created_def)
  from thread_run.more [OF thread_run.more [OF thread_run.start w'(1)] this]
  have "thread_run (\<lambda>_. True) 10 (stopped_threads, sample_world (Some 7))
      [Notified Created sample_notice, ConsumerChecks] (stopped_threads\<lparr>consumer := ConsumerDone\<rparr>, w')" by simp
  with w'(2) show ?thesis
    by (intro exI conjI) (auto simp: stopped_threads_def threads_created_def sample_host_def)
qed

theorem stop_leaves_alerts_witness:
  "\<exists>t' w'. thread_run (\<lambda>_. True) 10 (stopped_threads, sample_world (Some 7))
      [Notified Created sample_notice, ConsumerChecks] (t', w')
    \<and> length (ALERT_QUEUE w') = 1 \<and> \<not> both_confirmed (the_host t')
    \<and> (\<exists>k new. k \<le> 1 \<and> ALERT_QUEUE w' = drop k (ALERT_QUEUE (sample_world (Some 7)) @ new))"
proof -
  obtain t' w' where r: "thread_run (\<lambda>_. True) 10 (stopped_threads, sample_world (Some 7))
      [Notified Created sample_notice, ConsumerChecks] (t', w')"
    "seen_types (the_host t') = []" "length (ALERT_QUEUE w') = 1" using sample_stopped_run by blast
  have "stop_event (the_host stopped_threads)" by (simp add: stopped_threads_def threads_created_def)
  then have "\<exists>k new. k \<le> 1 \<and> ALERT_QUEUE w' = drop k (ALERT_QUEUE (sample_world (Some 7)) @ new)"
    using stop_leaves_alerts [OF r(1)] by blast
  moreover have "\<not> both_confirmed (the_host t')" using r(2) by (simp add: both_confirmed_def file_side_def any_startswith_def)
  ultimately show ?thesis using r(1,3) by blast
qed

theorem threads_refine_host_run_witness:
  "\<exists>t'. thread_run (\<lambda>_. True) 10 (threads_created sample_host, sample_world None) [MainMoves] (t', sample_world None)
    \<and> (\<exists>bs. host_run (\<lambda>_. True) 10 (sample_host, sample_world None) bs (coarse t', sample_world None))"
proof -
  let ?t = "watchdog_start ((threads_created sample_host)\<lparr>main_thread := MainStartsPoller\<rparr>)"
  have "thread_step (\<lambda>_. True) 10 (threads_created sample_host, sample_world None) MainMoves (?t, sample_world None)"
    by (rule thread_step.main_starts_watchdog) (simp add: threads_created_def)
  from thread_run.more [OF thread_run.start this]
  have run: "thread_run (\<lambda>_. True) 10 (threads_created sample_host, sample_world None) [MainMoves] (?t, sample_world None)"
    by simp
  from threads_refine_host_run [OF run] run show ?thesis by blast
qed

end
