(* ===== verification/Web_Sessions.thy ===== *)
theory Web_Sessions
  imports Dashboard
begin

text \<open>
  The coroutines of \<open>api/main.py\<close> on the event loop, await by await: one
  \<open>websocket_endpoint\<close> per browser, the \<open>lifespan\<close> hook that creates and cancels the drain
  task, and that task's \<open>broadcast\<close>, whose sends any of the others may overtake. \<open>Dashboard\<close>
  runs a broadcast as one operation with the connects and disconnects it waits through as a
  parameter; here these come from the sessions, and the broadcast is shown to be that operation.
\<close>

text \<open>A session ends by \<open>WebSocketDisconnect\<close>, or fails with any other exception.\<close>

datatype session_at = NoSession | Receiving | Disconnected | SessionFailed

datatype task_at = NoTask | TaskCreated | TaskDraining | TaskCancelled

record web =
  sessions :: "ws \<Rightarrow> session_at"
  drain_task :: task_at
  sending :: "(pyval \<times> ws list) option"

definition web_created :: web where
  "web_created = \<lparr>sessions = (\<lambda>_. NoSession), drain_task = NoTask, sending = None\<rparr>"

datatype web_action =
    Startup | TaskStarts loop_id | Shutdown
  | Accepted ws | AcceptFails ws | TextReceived ws | BrowserLeaves ws | ReceiveFails ws
  | BroadcastStarts pyval | SendReturns ws | SendRaises ws

definition at_session :: "ws \<Rightarrow> session_at \<Rightarrow> web \<Rightarrow> web" where
  "at_session c x t = t\<lparr>sessions := (sessions t)(c := x)\<rparr>"

text \<open>The rest of a broadcast after a send.\<close>

definition still_sending :: "pyval \<Rightarrow> ws list \<Rightarrow> (pyval \<times> ws list) option" where
  "still_sending message cs = (if cs = [] then None else Some (message, cs))"

inductive web_step :: "web \<times> 'a dash_scheme \<Rightarrow> web_action \<Rightarrow> web \<times> 'a dash_scheme \<Rightarrow> bool" where
  startup: "drain_task t = NoTask \<Longrightarrow> web_step (t, s) Startup (t\<lparr>drain_task := TaskCreated\<rparr>, s)"
| task_starts: "drain_task t = TaskCreated \<Longrightarrow> start_drain l s = (Inr (), s') \<Longrightarrow>
    web_step (t, s) (TaskStarts l) (t\<lparr>drain_task := TaskDraining\<rparr>, s')"
| shutdown: "drain_task t \<in> {TaskCreated, TaskDraining} \<Longrightarrow>
    web_step (t, s) Shutdown (t\<lparr>drain_task := TaskCancelled, sending := None\<rparr>, s)"
| accepted: "sessions t c = NoSession \<Longrightarrow> web_step (t, s) (Accepted c) (at_session c Receiving t, connect c s)"
| accept_fails: "sessions t c = NoSession \<Longrightarrow> web_step (t, s) (AcceptFails c) (at_session c SessionFailed t, s)"
| text_received: "sessions t c = Receiving \<Longrightarrow> web_step (t, s) (TextReceived c) (t, s)"
| browser_leaves: "sessions t c = Receiving \<Longrightarrow>
    web_step (t, s) (BrowserLeaves c) (at_session c Disconnected t, disconnect c s)"
| receive_fails: "sessions t c = Receiving \<Longrightarrow>
    web_step (t, s) (ReceiveFails c) (at_session c SessionFailed t, s)"
| broadcast_starts: "drain_task t = TaskDraining \<Longrightarrow> sending t = None \<Longrightarrow>
    web_step (t, s) (BroadcastStarts m) (t\<lparr>sending := still_sending m (active_connections s)\<rparr>, s)"
| send_returns: "sending t = Some (m, c # cs) \<Longrightarrow>
    web_step (t, s) (SendReturns c)
      (t\<lparr>sending := still_sending m cs\<rparr>, s\<lparr>inbox := (inbox s)(c := inbox s c @ [m])\<rparr>)"
| send_raises: "sending t = Some (m, c # cs) \<Longrightarrow>
    web_step (t, s) (SendRaises c) (t\<lparr>sending := still_sending m cs\<rparr>, disconnect c s)"

inductive web_run :: "web \<times> 'a dash_scheme \<Rightarrow> web_action list \<Rightarrow> web \<times> 'a dash_scheme \<Rightarrow> bool" where
  start: "web_run x [] x"
| more: "web_run x as y \<Longrightarrow> web_step y a z \<Longrightarrow> web_run x (as @ [a]) z"

section \<open>Who is connected\<close>

definition pending_sends :: "web \<Rightarrow> ws list" where
  "pending_sends t = (case sending t of None \<Rightarrow> [] | Some (m, cs) \<Rightarrow> cs)"

text \<open>The browsers in the list are those in a session or whose session failed; one in a session is
  missing only if a send to it has failed.\<close>

definition web_ok :: "web_action list \<Rightarrow> web \<times> 'a dash_scheme \<Rightarrow> bool" where
  "web_ok as = (\<lambda>(t, s). distinct (active_connections s)
     \<and> (\<forall>c \<in> set (active_connections s). sessions t c \<in> {Receiving, SessionFailed})
     \<and> (\<forall>c \<in> set (pending_sends t). sessions t c \<noteq> NoSession)
     \<and> (\<forall>c. sessions t c = Receiving \<and> c \<notin> set (active_connections s) \<longrightarrow> SendRaises c \<in> set as))"

lemma pending_simps [simp]:
  "pending_sends (t\<lparr>sending := still_sending m cs\<rparr>) = cs" "pending_sends (t\<lparr>sending := None\<rparr>) = []"
  "pending_sends (t\<lparr>drain_task := d\<rparr>) = pending_sends t" "pending_sends (at_session c x t) = pending_sends t"
  "sending t = Some (m, cs) \<Longrightarrow> pending_sends t = cs" "sending t = None \<Longrightarrow> pending_sends t = []"
  by (simp_all add: pending_sends_def still_sending_def at_session_def)

lemma connections_simps [simp]:
  "active_connections (connect c s) = active_connections s @ [c]"
  "active_connections (disconnect c s) = remove1 c (active_connections s)"
  "inbox (connect c s) = inbox s" "inbox (disconnect c s) = inbox s"
  "sessions (at_session c x t) = (sessions t)(c := x)" "drain_task (at_session c x t) = drain_task t"
  "sending (at_session c x t) = sending t"
  by (simp_all add: connect_def disconnect_def at_session_def)

lemma start_drain_keeps:
  "start_drain l s = (r, s') \<Longrightarrow> active_connections s' = active_connections s \<and> inbox s' = inbox s"
  by (auto simp: start_drain_def split: prod.splits sum.splits)

lemma web_ok_step:
  assumes "web_ok as x" "web_step x a y"
  shows "web_ok (as @ [a]) y"
  using assms(2)
proof (cases rule: web_step.cases)
  case (task_starts t l s s')
  then show ?thesis using assms(1) start_drain_keeps [OF task_starts(5)] by (auto simp: web_ok_def)
qed (use assms(1) in \<open>auto simp: web_ok_def\<close>)

lemma web_ok_run: "web_run x as y \<Longrightarrow> web_ok [] x \<Longrightarrow> web_ok as y"
  by (induction rule: web_run.induct) (auto dest: web_ok_step)

text \<open>A browser whose session began, out of the list and out of the current broadcast, stays out.\<close>

definition silenced :: "ws \<Rightarrow> pyval list \<Rightarrow> web \<times> 'a dash_scheme \<Rightarrow> bool" where
  "silenced c ms = (\<lambda>(t, s). sessions t c \<noteq> NoSession \<and> c \<notin> set (active_connections s)
     \<and> c \<notin> set (pending_sends t) \<and> inbox s c = ms)"

lemma silenced_step:
  assumes "silenced c ms x" "web_step x a y"
  shows "silenced c ms y"
  using assms(2)
proof (cases rule: web_step.cases)
  case (task_starts t l s s')
  then show ?thesis using assms(1) start_drain_keeps [OF task_starts(5)] by (auto simp: silenced_def)
qed (use assms(1) in \<open>auto simp: silenced_def dest: in_set_remove1 notin_set_remove1\<close>)

lemma silenced_run: "web_run x as y \<Longrightarrow> silenced c ms x \<Longrightarrow> silenced c ms y"
  by (induction rule: web_run.induct) (auto dest: silenced_step)

text \<open>C21: in every interleaving of the sessions, the broadcasts and the server's start and shutdown, the
  list of connections has no duplicates and holds only browsers whose session is running or ended
  by an exception other than a disconnect; a disconnected browser is never in it. A browser still
  connected but missing from the list lost a send, and from the end of that broadcast on it gets
  nothing, however long its session lasts.\<close>

theorem web_sessions_connected:
  assumes "web_run (web_created, s) as (t, s')" "active_connections s = []"
  shows "distinct (active_connections s')
    \<and> (\<forall>c \<in> set (active_connections s'). sessions t c = Receiving \<or> sessions t c = SessionFailed)
    \<and> (\<forall>c. sessions t c = Receiving \<and> c \<notin> set (active_connections s') \<longrightarrow> SendRaises c \<in> set as)
    \<and> (\<forall>c bs t2 s2. sessions t c \<noteq> NoSession \<and> c \<notin> set (active_connections s') \<and> c \<notin> set (pending_sends t)
        \<and> web_run (t, s') bs (t2, s2) \<longrightarrow> c \<notin> set (active_connections s2) \<and> inbox s2 c = inbox s' c)"
proof -
  have "web_ok [] (web_created, s)" using assms(2) by (simp add: web_ok_def web_created_def pending_sends_def)
  from web_ok_run [OF assms(1) this] have "web_ok as (t, s')" .
  moreover have "c \<notin> set (active_connections s2) \<and> inbox s2 c = inbox s' c"
    if "sessions t c \<noteq> NoSession" "c \<notin> set (active_connections s')" "c \<notin> set (pending_sends t)"
      "web_run (t, s') bs (t2, s2)" for c bs t2 s2
    using silenced_run [OF that(4), of c "inbox s' c"] that(1-3) by (simp add: silenced_def)
  ultimately show ?thesis unfolding web_ok_def by blast
qed

section \<open>A broadcast among the sessions\<close>

text \<open>What a run does to the list while each send waits, and whether the send fails; then what it does
  after the last one.\<close>

fun note_action :: "web_action \<Rightarrow> (ws_action list \<times> bool) list \<times> ws_action list
   \<Rightarrow> (ws_action list \<times> bool) list \<times> ws_action list" where
  "note_action (Accepted c) (sent, now) = (sent, now @ [Join c])"
| "note_action (BrowserLeaves c) (sent, now) = (sent, now @ [Leave c])"
| "note_action (SendReturns c) (sent, now) = (sent @ [(now, False)], [])"
| "note_action (SendRaises c) (sent, now) = (sent @ [(now, True)], [])"
| "note_action a x = x"

definition noted :: "web_action list \<Rightarrow> (ws_action list \<times> bool) list \<times> ws_action list" where
  "noted as = fold note_action as ([], [])"

definition same_view :: "'a dash_scheme \<Rightarrow> 'b dash_scheme \<Rightarrow> bool" where
  "same_view s s' \<longleftrightarrow> active_connections s = active_connections s' \<and> inbox s = inbox s'"

definition oracle_for :: "(ws_action list \<times> bool) list \<Rightarrow> 'a dash_scheme \<Rightarrow> bool" where
  "oracle_for sent s \<longleftrightarrow> (\<forall>i < length sent. meanwhile s (sock_sends s + i) = fst (sent ! i)
     \<and> sock_fails s (sock_sends s + i) = snd (sent ! i))"

lemma oracle_for_prefix: "oracle_for (sent @ [x]) s \<Longrightarrow> oracle_for sent s"
  by (auto simp: oracle_for_def nth_append)

lemma ws_effect_view: "same_view s s' \<Longrightarrow> same_view (fold ws_effect xs s) (fold ws_effect xs s')"
proof (induction xs arbitrary: s s')
  case (Cons x xs)
  then have "same_view (ws_effect x s) (ws_effect x s')" by (cases x) (simp_all add: same_view_def)
  with Cons.IH show ?case by simp
qed simp

definition undisturbed :: "web_action list \<Rightarrow> bool" where
  "undisturbed as \<longleftrightarrow> (\<forall>a \<in> set as. a \<noteq> Shutdown \<and> (\<forall>m. a \<noteq> BroadcastStarts m))"

lemma send_view:
  assumes "meanwhile s (sock_sends s) = now" "same_view x (fold ws_effect now s)"
  shows "\<exists>s'. send_or_drop m c s = (Inr (), s') \<and> sock_sends s' = Suc (sock_sends s)
    \<and> sock_fails s' = sock_fails s \<and> meanwhile s' = meanwhile s
    \<and> same_view (if sock_fails s (sock_sends s) then disconnect c x else x\<lparr>inbox := (inbox x)(c := inbox x c @ [m])\<rparr>) s'"
proof -
  let ?s1 = "fold ws_effect now (s\<lparr>sock_sends := Suc (sock_sends s)\<rparr>)"
  have "same_view (fold ws_effect now s) ?s1" by (intro ws_effect_view) (simp add: same_view_def)
  then have v: "active_connections x = active_connections ?s1" "inbox x = inbox ?s1"
    using assms(2) by (simp_all add: same_view_def)
  note E = ws_effects [of "s\<lparr>sock_sends := Suc (sock_sends s)\<rparr>" now]
  have e: "sock_sends ?s1 = Suc (sock_sends s)" "sock_fails ?s1 = sock_fails s" "meanwhile ?s1 = meanwhile s"
    using E same_world_sel(7,8) [OF conjunct1 [OF E]] by simp_all
  show ?thesis
    using v e assms(1)
    by (cases "sock_fails s (sock_sends s)")
      (simp_all add: send_or_drop_def send_text_def Let_def same_view_def, simp_all add: disconnect_def)
qed

lemma for_each_snoc: "for_each f xs s = (Inr (), s') \<Longrightarrow> for_each f (xs @ [x]) s = f x s'"
  by (simp add: for_each_append and_then_apply) (cases "f x s'", auto simp: and_then_apply ret_apply split: sum.splits)

lemma sends_follow:
  assumes "web_run y as z" "drain_task (fst y) = TaskDraining" "sending (fst y) = still_sending m cs"
    "undisturbed as" "oracle_for (fst (noted as)) s0" "same_view (snd y) s0"
  shows "\<exists>s1. for_each (send_or_drop m) (take (length (fst (noted as))) cs) s0 = (Inr (), s1)
    \<and> sock_sends s1 = sock_sends s0 + length (fst (noted as)) \<and> sock_fails s1 = sock_fails s0 \<and> meanwhile s1 = meanwhile s0
    \<and> same_view (snd z) (fold ws_effect (snd (noted as)) s1) \<and> length (fst (noted as)) \<le> length cs
    \<and> sending (fst z) = still_sending m (drop (length (fst (noted as))) cs) \<and> drain_task (fst z) = TaskDraining"
  using assms
proof (induction rule: web_run.induct)
  case (start x)
  then show ?case by (simp add: noted_def ret_apply)
next
  case (more x as y a z)
  obtain sent now where n: "noted as = (sent, now)" by fastforce
  have na: "noted (as @ [a]) = note_action a (sent, now)" using n by (simp add: noted_def)
  have und: "undisturbed as" "a \<noteq> Shutdown" "\<forall>m. a \<noteq> BroadcastStarts m" using more.prems(3) by (auto simp: undisturbed_def)
  have "oracle_for sent s0"
    using more.prems(4) oracle_for_prefix unfolding na by (cases a) auto
  with more.IH [OF more.prems(1,2) und(1) _ more.prems(5)] n obtain s1 where
    ih: "for_each (send_or_drop m) (take (length sent) cs) s0 = (Inr (), s1)"
      "sock_sends s1 = sock_sends s0 + length sent" "sock_fails s1 = sock_fails s0" "meanwhile s1 = meanwhile s0"
      "same_view (snd y) (fold ws_effect now s1)" "length sent \<le> length cs"
      "sending (fst y) = still_sending m (drop (length sent) cs)" "drain_task (fst y) = TaskDraining"
    by auto
  have sent_case: ?case
    if c: "sending t = Some (m', c # ds)" "y = (t, s)" "z = (t\<lparr>sending := still_sending m' ds\<rparr>, s')"
      "note_action a (sent, now) = (sent @ [(now, b)], [])"
      "s' = (if b then disconnect c s else s\<lparr>inbox := (inbox s)(c := inbox s c @ [m'])\<rparr>)" for t s s' m' c ds b
  proof -
    have m: "m' = m" "drop (length sent) cs = c # ds"
      using ih(7) c(1,2) by (auto simp: still_sending_def split: if_splits)
    have len: "length sent < length cs" using m(2) by (metis drop_all list.distinct(1) not_le)
    have step: "take (Suc (length sent)) cs = take (length sent) cs @ [c]" "drop (Suc (length sent)) cs = ds"
      using m(2) len by (simp_all add: take_Suc_conv_app_nth nth_via_drop) (metis drop_Suc list.sel(3) tl_drop)
    have "oracle_for (sent @ [(now, b)]) s0" using more.prems(4) c(4) na by simp
    then have o: "meanwhile s1 (sock_sends s1) = now" "sock_fails s1 (sock_sends s1) = b"
      unfolding oracle_for_def ih(2-4) by (auto dest: spec [of _ "length sent"])
    from send_view [OF o(1) ih(5), of m c] obtain s2 where
      s2: "send_or_drop m c s1 = (Inr (), s2)" "sock_sends s2 = Suc (sock_sends s1)" "sock_fails s2 = sock_fails s1"
        "meanwhile s2 = meanwhile s1" "same_view s' s2"
      unfolding o(2) c(2,5) m(1) snd_conv by auto
    show ?thesis
      unfolding na c(3,4) using for_each_snoc [OF ih(1), of c] s2 ih c(2) step len m(1) by simp
  qed
  from more.hyps(2) show ?case
  proof (cases rule: web_step.cases)
    case (task_starts t l s s')
    then show ?thesis using ih(8) by simp
  next
    case (send_returns t m' c ds s)
    then show ?thesis by (intro sent_case [where b = False]) auto
  next
    case (send_raises t m' c ds s)
    then show ?thesis by (intro sent_case [where b = True]) auto
  qed (use ih na und in \<open>auto simp: same_view_def\<close>)
qed

lemma web_run_append: "web_run y bs z \<Longrightarrow> web_run x as y \<Longrightarrow> web_run x (as @ bs) z"
proof (induction rule: web_run.induct)
  case (more y bs y' b z)
  then show ?case using web_run.more by (metis append_assoc)
qed simp

lemma web_run_Cons: "web_run x (a # as) z \<Longrightarrow> \<exists>y. web_step x a y \<and> web_run y as z"
proof (induction as arbitrary: z rule: rev_induct)
  case Nil
  then obtain y where y: "web_run x [] y" "web_step y a z" by (cases rule: web_run.cases) auto
  from y(1) have "y = x" by (cases rule: web_run.cases) auto
  with y(2) show ?case using web_run.start by blast
next
  case (snoc b as)
  from snoc.prems obtain y where y: "web_run x (a # as) y" "web_step y b z"
    by (cases rule: web_run.cases) auto
  with snoc.IH obtain y' where "web_step x a y'" "web_run y' as y" by blast
  with y(2) show ?case using web_run.more by blast
qed

text \<open>C22: a broadcast among the sessions is the broadcast of the dashboard: run to its end without a
  shutdown, however the sessions overtake its sends, its effect on the list of connections and on
  what every browser got is that of the one operation, with the connects and disconnects the run
  shows during each send as those that operation waits through, followed by those after the last
  send. It sends exactly once per browser that was connected when it began.\<close>

theorem sends_refine_broadcast:
  assumes "web_run (t, s) (BroadcastStarts m # as) (t', s')" "sending t' = None" "undisturbed as"
  shows "length (fst (noted as)) = length (active_connections s)
    \<and> (\<exists>s1. broadcast m (s\<lparr>meanwhile := \<lambda>i. fst (fst (noted as) ! (i - sock_sends s)),
           sock_fails := \<lambda>i. snd (fst (noted as) ! (i - sock_sends s))\<rparr>) = (Inr (), s1)
         \<and> same_view s' (fold ws_effect (snd (noted as)) s1))"
proof -
  let ?s0 = "s\<lparr>meanwhile := \<lambda>i. fst (fst (noted as) ! (i - sock_sends s)),
    sock_fails := \<lambda>i. snd (fst (noted as) ! (i - sock_sends s))\<rparr>" and ?n = "length (fst (noted as))"
  let ?cs = "active_connections s"
  from web_run_Cons [OF assms(1)] obtain y where y: "web_step (t, s) (BroadcastStarts m) y" "web_run y as (t', s')"
    by blast
  from y(1) have y': "y = (t\<lparr>sending := still_sending m ?cs\<rparr>, s)" "drain_task t = TaskDraining"
    by (auto elim: web_step.cases)
  have "oracle_for (fst (noted as)) ?s0" by (simp add: oracle_for_def)
  from sends_follow [OF y(2) _ _ assms(3) this, of m ?cs] y' obtain s1 where
    f: "for_each (send_or_drop m) (take ?n ?cs) ?s0 = (Inr (), s1)" "same_view s' (fold ws_effect (snd (noted as)) s1)"
      "?n \<le> length ?cs" "sending t' = still_sending m (drop ?n ?cs)"
    by (auto simp: same_view_def)
  then have "?n = length ?cs" using assms(2) by (auto simp: still_sending_def split: if_splits)
  moreover from this f(1) have "broadcast m ?s0 = (Inr (), s1)" by (simp add: broadcast_def and_then_apply ask_apply)
  ultimately show ?thesis using f(2) by blast
qed

text \<open>Two browsers: the second leaves while the send to the first waits, which fails; a third one
  joins during the second send. The first keeps its session without being in the list.\<close>

definition sample_start :: "web_action list" where
  "sample_start = [Startup, TaskStarts 7, Accepted 3, Accepted 4]"

definition sample_sends :: "web_action list" where
  "sample_sends = [BrowserLeaves 4, SendRaises 3, Accepted 5, SendReturns 4]"

definition sample_web :: web where
  "sample_web = \<lparr>sessions = (\<lambda>_. NoSession)(3 := Receiving, 4 := Receiving), drain_task = TaskDraining, sending = None\<rparr>"

lemma web_run_next: "web_run x as y \<Longrightarrow> web_step y a z' \<Longrightarrow> z' = z \<Longrightarrow> web_run x (as @ [a]) z"
  using web_run.more by blast

lemma sample_start_run: "web_run (web_created, sample_dash []) sample_start (sample_web, sample_dash [3, 4])"
proof -
  let ?t = "\<lambda>f d. \<lparr>sessions = f, drain_task = d, sending = None\<rparr>" and ?n = "\<lambda>_. NoSession"
  have d: "start_drain 7 (sample_dash []) = (Inr (), sample_dash [])"
    by (simp add: start_drain_def bind_loop_def change_apply sample_dash_def new_engine_def)
  have "web_run (web_created, sample_dash []) ([] @ [Startup]) (?t ?n TaskCreated, sample_dash [])"
    by (rule web_run_next [OF web_run.start web_step.startup]) (simp_all add: web_created_def)
  from web_run_next [OF this web_step.task_starts [OF _ d]]
  have "web_run (web_created, sample_dash []) (([] @ [Startup]) @ [TaskStarts 7]) (?t ?n TaskDraining, sample_dash [])" by simp
  from web_run_next [OF this web_step.accepted [of _ 3]]
  have "web_run (web_created, sample_dash []) ((([] @ [Startup]) @ [TaskStarts 7]) @ [Accepted 3])
      (?t (?n(3 := Receiving)) TaskDraining, sample_dash [3])"
    by (simp add: at_session_def connect_def sample_dash_def)
  from web_run_next [OF this web_step.accepted [of _ 4]] show ?thesis
    by (simp add: at_session_def connect_def sample_dash_def sample_start_def sample_web_def)
qed

lemma sample_sends_run: "\<exists>t' s'. web_run (sample_web, sample_dash [3, 4]) (BroadcastStarts (PInt 5) # sample_sends) (t', s')
   \<and> sending t' = None \<and> sessions t' 3 = Receiving \<and> active_connections s' = [5] \<and> inbox s' 4 = [PInt 5]"
proof -
  let ?x = "(sample_web, sample_dash [3, 4])" and ?m = "PInt 5"
  let ?t = "\<lambda>f cs. \<lparr>sessions = f, drain_task = TaskDraining, sending = cs\<rparr>"
  let ?f = "(\<lambda>_. NoSession)(3 := Receiving, 4 := Receiving)"
  let ?g = "?f(4 := Disconnected)"
  have "web_run ?x ([] @ [BroadcastStarts ?m]) (?t ?f (Some (?m, [3, 4])), sample_dash [3, 4])"
    by (rule web_run_next [OF web_run.start web_step.broadcast_starts [of _ _ ?m]])
      (simp_all add: sample_web_def sample_dash_def still_sending_def)
  from web_run_next [OF this web_step.browser_leaves [of _ 4]]
  have "web_run ?x (([] @ [BroadcastStarts ?m]) @ [BrowserLeaves 4]) (?t ?g (Some (?m, [3, 4])), sample_dash [3])"
    by (simp add: at_session_def disconnect_def sample_dash_def)
  from web_run_next [OF this web_step.send_raises [of _ ?m 3 "[4]"]]
  have "web_run ?x ((([] @ [BroadcastStarts ?m]) @ [BrowserLeaves 4]) @ [SendRaises 3]) (?t ?g (Some (?m, [4])), sample_dash [])"
    by (simp add: disconnect_def sample_dash_def still_sending_def)
  from web_run_next [OF this web_step.accepted [of _ 5]]
  have "web_run ?x (((([] @ [BroadcastStarts ?m]) @ [BrowserLeaves 4]) @ [SendRaises 3]) @ [Accepted 5])
      (?t (?g(5 := Receiving)) (Some (?m, [4])), sample_dash [5])"
    by (simp add: at_session_def connect_def sample_dash_def)
  from web_run.more [OF this web_step.send_returns [of _ ?m 4 "[]"]]
  have "web_run ?x (BroadcastStarts ?m # sample_sends) (?t (?g(5 := Receiving)) None,
      (sample_dash [5])\<lparr>inbox := (inbox (sample_dash [5]))(4 := inbox (sample_dash [5]) 4 @ [?m])\<rparr>)"
    by (simp add: sample_sends_def still_sending_def)
  then show ?thesis by (intro exI conjI, assumption) (simp_all add: sample_dash_def)
qed

theorem sends_refine_broadcast_witness:
  "\<exists>mw f s1. broadcast (PInt 5) ((sample_dash [3, 4])\<lparr>meanwhile := mw, sock_fails := f\<rparr>) = (Inr (), s1)
    \<and> mw 0 = [Leave 4] \<and> f 0 \<and> mw 1 = [Join 5] \<and> \<not> f 1 \<and> active_connections s1 = [5] \<and> inbox s1 4 = [PInt 5]"
proof -
  from sample_sends_run obtain t' s' where
    r: "web_run (sample_web, sample_dash [3, 4]) (BroadcastStarts (PInt 5) # sample_sends) (t', s')" "sending t' = None"
      "active_connections s' = [5]" "inbox s' 4 = [PInt 5]" by blast
  have u: "undisturbed sample_sends" by (simp add: undisturbed_def sample_sends_def)
  have n: "noted sample_sends = ([([Leave 4], True), ([Join 5], False)], [])" by (simp add: noted_def sample_sends_def)
  from sends_refine_broadcast [OF r(1,2) u] obtain s1 where
    "broadcast (PInt 5) ((sample_dash [3, 4])\<lparr>meanwhile := \<lambda>i. fst (fst (noted sample_sends) ! (i - sock_sends (sample_dash [3, 4]))),
        sock_fails := \<lambda>i. snd (fst (noted sample_sends) ! (i - sock_sends (sample_dash [3, 4])))\<rparr>) = (Inr (), s1)"
    "same_view s' (fold ws_effect (snd (noted sample_sends)) s1)" by blast
  then show ?thesis
    using r(3,4) n
    by (intro exI [of _ "\<lambda>i. fst (fst (noted sample_sends) ! (i - sock_sends (sample_dash [3, 4])))"]
        exI [of _ "\<lambda>i. snd (fst (noted sample_sends) ! (i - sock_sends (sample_dash [3, 4])))"] exI [of _ s1])
      (simp add: same_view_def, simp add: sample_dash_def)
qed

theorem web_sessions_connected_witness:
  "\<exists>t s'. web_run (web_created, sample_dash []) (sample_start @ BroadcastStarts (PInt 5) # sample_sends) (t, s')
    \<and> sessions t 3 = Receiving \<and> 3 \<notin> set (active_connections s') \<and> distinct (active_connections s')
    \<and> SendRaises 3 \<in> set (sample_start @ BroadcastStarts (PInt 5) # sample_sends)"
proof -
  from sample_sends_run obtain t s' where
    r: "web_run (sample_web, sample_dash [3, 4]) (BroadcastStarts (PInt 5) # sample_sends) (t, s')"
      "sessions t 3 = Receiving" "active_connections s' = [5]" by blast
  have run: "web_run (web_created, sample_dash []) (sample_start @ BroadcastStarts (PInt 5) # sample_sends) (t, s')"
    using web_run_append [OF r(1) sample_start_run] .
  have "active_connections (sample_dash []) = []" by (simp add: sample_dash_def)
  from web_sessions_connected [OF run this] show ?thesis
    using run r(2,3) by (intro exI [of _ t] exI [of _ s']) simp
qed

end
