(* ===== verification/Live_Capture.thy ===== *)
theory Live_Capture
  imports Correlator
begin

text \<open>
  \<open>run_live\<close> of \<open>xdr/correlator.py\<close> with the file it keeps: every window is appended to
  \<open>live_capture.pcap\<close> before its packets are looked at, and the keyboard interrupt that ends
  the session may fall into a window. \<open>Correlator\<close> has the same loop without either. The file
  is the list of packets written to it; \<open>fails\<close> says which windows \<open>wrpcap\<close> cannot write. The
  theorem compares the session with the later analysis of the file it left.
\<close>

definition append_capture :: "(packet list \<Rightarrow> py_error option) \<Rightarrow> packet list \<Rightarrow> (packet list \<times> 'w, unit) op" where
  "append_capture fails packets = (case fails packets of
       Some e \<Rightarrow> raise_err e
     | None \<Rightarrow> own (\<lambda>saved. saved @ packets))"

definition saving_window ::
  "(packet list \<Rightarrow> py_error option) \<Rightarrow> packet list \<Rightarrow> (packet list \<times> (correlator \<times> 'a world_scheme), unit) op" where
  "saving_window fails packets =
     and_then (if packets \<noteq> [] then
         and_then (append_capture fails packets) (\<lambda>_.
           outside (and_then (for_each correlator_process_packet packets) (\<lambda>_. with_sctp check_thresholds)))
       else ret ())
     (\<lambda>_. outside (with_sctp reset_window))"

text \<open>A window that the interrupt ends when \<open>j\<close> of its packets have been processed: the thresholds are
  not checked any more.\<close>

definition interrupted_window ::
  "(packet list \<Rightarrow> py_error option) \<Rightarrow> packet list \<Rightarrow> nat \<Rightarrow> (packet list \<times> (correlator \<times> 'a world_scheme), unit) op" where
  "interrupted_window fails packets j =
     (if packets \<noteq> [] then
        and_then (append_capture fails packets) (\<lambda>_.
          outside (for_each correlator_process_packet (take j packets)))
      else ret ())"

text \<open>The loop over the windows and the one it is interrupted in; the interrupt itself is caught.\<close>

definition run_live_saving ::
  "(packet list \<Rightarrow> py_error option) \<Rightarrow> packet list list \<Rightarrow> packet list \<Rightarrow> nat
   \<Rightarrow> (packet list \<times> (correlator \<times> 'a world_scheme), unit) op" where
  "run_live_saving fails windows packets j =
     and_then (for_each (saving_window fails) windows) (\<lambda>_. interrupted_window fails packets j)"

section \<open>The session without the file\<close>

lemma saving_window_eq:
  assumes "fails ps = None"
  shows "saving_window fails ps (saved, s) = (fst (live_window ps s), (saved @ ps, snd (live_window ps s)))"
proof (cases "ps = []")
  case True
  then show ?thesis by (simp add: saving_window_def live_window_def ret_apply and_then_apply outside_apply)
next
  case False
  obtain r s1 where m: "and_then (for_each correlator_process_packet ps) (\<lambda>_. with_sctp check_thresholds) s = (r, s1)"
    by (metis surj_pair)
  show ?thesis
  proof (cases r)
    case (Inl e)
    with m False assms show ?thesis
      by (simp add: saving_window_def live_window_def append_capture_def and_then_apply [of "and_then _ _"]
          and_then_apply [of "own _"] own_apply outside_apply)
  next
    case (Inr x)
    with m False assms show ?thesis
      by (simp add: saving_window_def live_window_def append_capture_def and_then_apply [of "and_then _ _"]
          and_then_apply [of "own _"] own_apply outside_apply)
  qed
qed

lemma saving_windows_eq:
  assumes "\<forall>ps \<in> set pss. fails ps = None" "run_live pss s = (Inr (), s')"
  shows "for_each (saving_window fails) pss (saved, s) = (Inr (), (saved @ concat pss, s'))"
  using assms
proof (induction pss arbitrary: saved s)
  case Nil
  then show ?case by (simp add: run_live_def ret_apply)
next
  case (Cons ps pss)
  obtain r s1 where w: "live_window ps s = (r, s1)" by (metis surj_pair)
  with Cons.prems(2) have "r = Inr ()" "run_live pss s1 = (Inr (), s')"
    by (auto simp: run_live_def and_then_apply split: sum.splits)
  then show ?case
    using Cons.IH [of s1 "saved @ ps"] Cons.prems(1) w saving_window_eq [of fails ps saved s]
    by (simp add: and_then_apply)
qed

section \<open>What is not a flood report\<close>

abbreviation not_flood :: "report \<Rightarrow> bool" where
  "not_flood r \<equiv> rp_type r \<noteq> lit ''sctp_init_flood''"

lemma not_flood_kinds:
  "r \<in> set (payload_reports gb gs p) \<Longrightarrow> not_flood r" "r \<in> set (tcp_gives v p) \<Longrightarrow> not_flood r"
  "r \<in> set (flood_reports m ps) \<Longrightarrow> \<not> not_flood r"
  by (auto simp: payload_reports_def finding_report_def tcp_gives_def conn_gives_def hijack_report_def Let_def
      flood_reports_def flood_report_def split: option.splits if_splits)

lemma not_flood_corr: "r \<in> set (corr_gives v p) \<Longrightarrow> not_flood r"
  by (auto simp: corr_gives_def not_flood_kinds split: prod.splits if_splits)

lemma not_flood_along: "r \<in> set (reports_along corr_follow corr_gives v ps) \<Longrightarrow> not_flood r"
proof (induction ps arbitrary: v)
  case (Cons p ps)
  then show ?case using not_flood_corr [of r v p] by (simp only: reports_along.simps set_append Un_iff) blast
qed simp

lemma filter_along: "filter not_flood (reports_along corr_follow corr_gives v ps) = reports_along corr_follow corr_gives v ps"
  by (simp add: filter_id_conv not_flood_along)

lemma filter_floods: "filter not_flood (flood_reports m ps) = []"
  using not_flood_kinds(3) by (fastforce simp: filter_empty_conv)

text \<open>Apart from the floods the windows do not show in what a live session reports.\<close>

lemma live_reports_along:
  "live_reports verb gb gs m t (ps # pss) = reports_along corr_follow corr_gives (verb, gb, gs, s, t) ps
     @ flood_reports m ps @ live_reports verb gb gs m (fold tcp_follow ps t) pss"
  by (simp add: corr_reports)

lemma live_not_floods:
  "filter not_flood (live_reports verb gb gs m t pss) = reports_along corr_follow corr_gives (verb, gb, gs, s, t) (concat pss)"
proof (induction pss arbitrary: s t)
  case (Cons ps pss)
  have "filter not_flood (live_reports verb gb gs m (fold tcp_follow ps t) pss) =
      reports_along corr_follow corr_gives (fold corr_follow ps (verb, gb, gs, s, t)) (concat pss)"
    using Cons.IH [of "fold tcp_follow ps t" "fold count_init (init_sources ps) s"] by (simp add: corr_fold)
  then show ?case
    by (simp add: live_reports_along [where s = s] filter_along filter_floods reports_along_append del: live_reports.simps)
qed simp

lemma live_flood_in:
  assumes "flood_report m src n \<in> set (live_reports verb gb gs m t pss)"
  shows "\<exists>ps \<in> set pss. n = int (count_list (init_sources ps) src) \<and> m < n"
  using assms
proof (induction pss arbitrary: t)
  case (Cons ps pss)
  have "flood_report m src n \<notin> set (reports_along corr_follow corr_gives v ps)" for v
    using not_flood_along by (fastforce simp: flood_report_def)
  moreover have "n = int (count_list (init_sources ps) src) \<and> m < n" if "flood_report m src n \<in> set (flood_reports m ps)"
    using that by (auto simp: flood_reports_def flood_report_def)
  ultimately have "(n = int (count_list (init_sources ps) src) \<and> m < n)
      \<or> flood_report m src n \<in> set (live_reports verb gb gs m (fold tcp_follow ps t) pss)"
    using Cons.prems unfolding live_reports_along [where s = undefined] set_append by blast
  then show ?case using Cons.IH [of "fold tcp_follow ps t"] by (simp only: list.set bex_simps) blast
qed simp

lemma flood_of_total:
  assumes "m < int (count_list (init_sources ps) src)" "0 \<le> m"
  shows "flood_report m src (int (count_list (init_sources ps) src)) \<in> set (flood_reports m ps)"
proof -
  have "src \<in> set (init_sources ps)" using assms by (cases "src \<in> set (init_sources ps)") simp_all
  then show ?thesis using assms(1) by (auto simp: flood_reports_def)
qed

lemma init_sources_append [simp]: "init_sources (ps @ qs) = init_sources ps @ init_sources qs"
  by (simp add: init_sources_def)

lemma window_count_le:
  assumes "ps \<in> set pss"
  shows "count_list (init_sources ps) src \<le> count_list (init_sources (concat pss)) src"
proof -
  from split_list [OF assms] obtain us vs where "pss = us @ ps # vs" by blast
  then show ?thesis by simp
qed

section \<open>The session and the analysis of its file\<close>

text \<open>What packet \<open>i\<close> causes by itself, as both runs see it.\<close>

definition packet_reports :: "bool \<Rightarrow> int option \<Rightarrow> int option \<Rightarrow> int \<Rightarrow> packet list \<Rightarrow> nat \<Rightarrow> report list" where
  "packet_reports verb gb gs thr ps i = (if verb then payload_reports gb gs (ps ! i) else []) @ verdict thr ps i"

lemma packet_reports_prefix: "i < length ps \<Longrightarrow> packet_reports verb gb gs thr (ps @ qs) i = packet_reports verb gb gs thr ps i"
  by (simp add: packet_reports_def verdict_def nth_append split: option.splits)

lemma new_along: "reports_along corr_follow corr_gives (corr_view (new_correlator verb m d thr iv gb gs)) ps =
   concat (map (packet_reports verb gb gs thr ps) [0..<length ps])"
  using new_window_reports [of verb m d thr iv gb gs ps] by (simp add: window_reports_def packet_reports_def [abs_def])

lemma session_runs:
  assumes "bound l w" "\<forall>ps \<in> set (qs # pss). fails ps = None" and c_def: "c = new_correlator verb m d thr iv gb gs"
  shows "\<exists>c' w'. run_live_saving fails pss qs j (saved, (c, w)) = (Inr (), (saved @ concat pss @ qs, (c', w')))
    \<and> emitted (live_reports verb gb gs m (tcp_view (new_tcp_detector thr)) pss
        @ reports_along corr_follow corr_gives (fold corr_follow (concat pss) (corr_view c)) (take j qs)) w w'"
proof -
  have view: "corr_view c = (verb, gb, gs, new_sctp_detector m d, tcp_view (new_tcp_detector thr))"
    by (simp add: c_def new_correlator_view)
  then have sel: "verbose_log c = verb" "got_base c = gb" "got_size c = gs" "tcp_view (the_tcp c) = tcp_view (new_tcp_detector thr)"
    "max_init_chunks (the_sctp c) = m" "init_chunk_count (the_sctp c) = []"
    by (simp_all add: corr_view_def) (simp_all add: c_def new_sctp_detector_def)
  from run_live_runs [OF assms(1) sel(6), of pss, unfolded sel] obtain c1 w1 where
    r: "run_live pss (c, w) = (Inr (), (c1, w1))" "(verbose_log c1, got_base c1, got_size c1) = (verb, gb, gs)"
      "emitted (live_reports verb gb gs m (tcp_view (new_tcp_detector thr)) pss) w w1"
      "tcp_view (the_tcp c1) = fold tcp_follow (concat pss) (tcp_view (new_tcp_detector thr))" by blast
  have same: "reports_along corr_follow corr_gives (corr_view c1) (take j qs) =
      reports_along corr_follow corr_gives (fold corr_follow (concat pss) (corr_view c)) (take j qs)"
    using r(2,4) unfolding view by (simp add: corr_view_def [of c1] corr_fold corr_reports)
  have "bound l w1" using emitted_bound [OF r(3)] assms(1) by simp
  from packets.stream_bound [OF this, of "take j qs" c1] obtain c' w' where
    s: "for_each correlator_process_packet (take j qs) (c1, w1) = (Inr (), (c', w'))"
      "emitted (reports_along corr_follow corr_gives (fold corr_follow (concat pss) (corr_view c)) (take j qs)) w1 w'"
    unfolding same by blast
  have "for_each (saving_window fails) pss (saved, (c, w)) = (Inr (), (saved @ concat pss, (c1, w1)))"
    by (rule saving_windows_eq [OF _ r(1)]) (use assms(2) in simp)
  then have "run_live_saving fails pss qs j (saved, (c, w)) =
      interrupted_window fails qs j (saved @ concat pss, (c1, w1))"
    by (simp add: run_live_saving_def and_then_apply)
  also have "\<dots> = (Inr (), (saved @ concat pss @ qs, (c', w')))"
    using s(1) assms(2)
    by (cases "qs = []") (simp_all add: interrupted_window_def append_capture_def and_then_apply own_apply outside_apply ret_apply)
  finally show ?thesis using emitted_trans [OF r(3) s(2)] by blast
qed

text \<open>C31: a live session and the later analysis of the capture file it wrote, with the same settings,
  agree packet by packet: the file holds every packet of every window, the interrupted one
  included, and the payload findings and hijack verdicts of the session are those the analysis
  gives for the packets processed before the interrupt. Floods differ in one direction only: the
  analysis counts over the whole file, so it reports every source the session reported, with at
  least that count, and the session never reports one for the window it was interrupted in.\<close>

theorem live_session_replayed:
  assumes "bound l w" "bound l' v" "\<forall>ps \<in> set (qs # pss). fails ps = None" "0 \<le> m"
  shows "\<exists>c' w' rs c'' v' rs'.
      run_live_saving fails pss qs j ([], (new_correlator verb m d thr iv gb gs, w)) = (Inr (), (concat pss @ qs, (c', w')))
    \<and> emitted rs w w'
    \<and> run_on_pcap (\<lambda>_. Inr (concat pss @ qs)) path (new_correlator verb m d thr iv gb gs, v) = (Inr (), (c'', v'))
    \<and> emitted rs' v v'
    \<and> filter not_flood rs = concat (map (packet_reports verb gb gs thr (concat pss @ qs))
        [0..<length (concat pss) + min j (length qs)])
    \<and> filter not_flood rs' = concat (map (packet_reports verb gb gs thr (concat pss @ qs)) [0..<length (concat pss @ qs)])
    \<and> (\<forall>src n. flood_report m src n \<in> set rs \<longrightarrow>
        (\<exists>ps \<in> set pss. n = int (count_list (init_sources ps) src) \<and> m < n) \<and> (\<exists>n' \<ge> n. flood_report m src n' \<in> set rs'))"
proof -
  let ?c = "new_correlator verb m d thr iv gb gs" and ?all = "concat pss @ qs" and ?done = "concat pss @ take j qs"
  let ?live = "live_reports verb gb gs m (tcp_view (new_tcp_detector thr)) pss"
  let ?last = "reports_along corr_follow corr_gives (fold corr_follow (concat pss) (corr_view ?c)) (take j qs)"
  from session_runs [OF assms(1,3) refl, where verb = verb and m = m and d = d and thr = thr and iv = iv and gb = gb and gs = gs
      and j = j and saved = "[]"] obtain c' w' where
    s: "run_live_saving fails pss qs j ([], (?c, w)) = (Inr (), (?all, (c', w')))" "emitted (?live @ ?last) w w'"
    by auto
  have run: "run_on_pcap (\<lambda>_. Inr ?all) path s = scan_window ?all s" for s :: "correlator \<times> 'b world_scheme"
    by (simp add: run_on_pcap_def scan_window_def)
  have "init_chunk_count (the_sctp ?c) = []" by simp
  from scan_window_runs [OF assms(2) this, of ?all] obtain c'' v' where
    r: "run_on_pcap (\<lambda>_. Inr ?all) path (?c, v) = (Inr (), (c'', v'))" "emitted (window_reports ?c ?all) v v'"
    unfolding run by blast
  have "filter not_flood (?live @ ?last) = reports_along corr_follow corr_gives (corr_view ?c) ?done"
    by (simp add: filter_along reports_along_append new_correlator_view
        live_not_floods [where s = "new_sctp_detector m d"])
  also have "\<dots> = concat (map (packet_reports verb gb gs thr ?done) [0..<length ?done])" by (rule new_along)
  also have "\<dots> = concat (map (packet_reports verb gb gs thr ?all) [0..<length ?done])"
    using packet_reports_prefix [of _ ?done verb gb gs thr "drop j qs"]
    by (intro arg_cong [where f = concat] map_cong) simp_all
  finally have nf: "filter not_flood (?live @ ?last) =
      concat (map (packet_reports verb gb gs thr ?all) [0..<length (concat pss) + min j (length qs)])"
    by (simp add: min.commute)
  have nf': "filter not_flood (window_reports ?c ?all) = concat (map (packet_reports verb gb gs thr ?all) [0..<length ?all])"
    by (simp only: window_reports_def filter_append filter_along filter_floods append_Nil2) (rule new_along)
  have fl: "(\<exists>ps \<in> set pss. n = int (count_list (init_sources ps) src) \<and> m < n) \<and> (\<exists>n' \<ge> n. flood_report m src n' \<in> set (window_reports ?c ?all))"
    if f: "flood_report m src n \<in> set (?live @ ?last)" for src n
  proof -
    have "flood_report m src n \<notin> set ?last" using not_flood_along by (fastforce simp: flood_report_def)
    with f live_flood_in obtain ps where ps: "ps \<in> set pss" "n = int (count_list (init_sources ps) src)" "m < n"
      by (metis Un_iff set_append)
    let ?n = "int (count_list (init_sources ?all) src)"
    have "n \<le> ?n" using window_count_le [OF ps(1), of src] ps(2) by simp
    moreover from this ps(3) assms(4) have "flood_report m src ?n \<in> set (flood_reports m ?all)"
      by (intro flood_of_total) simp_all
    ultimately show ?thesis using ps by (auto simp: window_reports_def)
  qed
  show ?thesis
    by (rule exI [of _ c'], rule exI [of _ w'], rule exI [of _ "?live @ ?last"], rule exI [of _ c''], rule exI [of _ v'],
        rule exI [of _ "window_reports ?c ?all"]) (use s r nf nf' fl in blast)
qed

text \<open>Two INIT chunks of one source in two windows: silent live, a flood in the file.\<close>

theorem live_session_replayed_witness:
  "\<exists>c' w' rs c'' v' rs'.
      run_live_saving (\<lambda>_. None) [[sctp_packet ''a''], [sctp_packet ''a'']] [sctp_packet ''b''] 0
        ([], (new_correlator True 1 15 100000 None None None, sample_world (Some 7)))
      = (Inr (), ([sctp_packet ''a'', sctp_packet ''a'', sctp_packet ''b''], (c', w')))
    \<and> emitted rs (sample_world (Some 7)) w'
    \<and> run_on_pcap (\<lambda>_. Inr [sctp_packet ''a'', sctp_packet ''a'', sctp_packet ''b'']) (lit ''c'')
        (new_correlator True 1 15 100000 None None None, sample_world (Some 7)) = (Inr (), (c'', v'))
    \<and> emitted rs' (sample_world (Some 7)) v'
    \<and> (\<forall>src n. flood_report 1 src n \<notin> set rs)"
proof -
  let ?p = "sctp_packet ''a''"
  have "init_source ?p = [lit ''a'']" by (simp add: init_source_def sctp_packet_def)
  then have few: "\<not> 1 < int (count_list (init_sources [?p]) src)" for src by (simp add: init_sources_def)
  from live_session_replayed [OF sample_world_simps(1) sample_world_simps(1), of "[sctp_packet ''b'']" "[[?p], [?p]]"
      "\<lambda>_. None" 1 0 True 15 100000 None None None "lit ''c''"]
  obtain c' w' rs c'' v' rs' where
    r: "run_live_saving (\<lambda>_. None) [[?p], [?p]] [sctp_packet ''b''] 0
        ([], (new_correlator True 1 15 100000 None None None, sample_world (Some 7))) = (Inr (), ([?p, ?p, sctp_packet ''b''], (c', w')))"
      "emitted rs (sample_world (Some 7)) w'"
      "run_on_pcap (\<lambda>_. Inr [?p, ?p, sctp_packet ''b'']) (lit ''c'')
        (new_correlator True 1 15 100000 None None None, sample_world (Some 7)) = (Inr (), (c'', v'))"
      "emitted rs' (sample_world (Some 7)) v'"
      "\<forall>src n. flood_report 1 src n \<in> set rs \<longrightarrow> (\<exists>ps \<in> set [[?p], [?p]]. n = int (count_list (init_sources ps) src) \<and> 1 < n)"
    by auto
  have "flood_report 1 src n \<notin> set rs" for src n
    using spec [OF spec [OF r(5), of src], of n] few [of src] by auto
  with r(1-4) show ?thesis by (intro exI conjI allI)
qed

end
