(* ===== verification/Elf_Disk.thy ===== *)
theory Elf_Disk
  imports Elf_Analyzer
begin

text \<open>
  The file that \<open>xdr/binary/elf_analyzer.py\<close> writes: \<open>dump_readelf_header\<close> puts the output of
  \<open>readelf -h\<close> into \<open>sectionheader.txt\<close> and \<open>parse_checkelf_file\<close> reads it from there.
  \<open>Elf_Analyzer\<close> hands the text over directly; here the disk is part of the state, and the
  detailed operations are shown to implement those. \<open>tool\<close> is readelf: what it writes for an
  option and a path on a given disk, and the exception that running it ends with. A path is a
  name: two names of one file are not considered. The text is decoded before its first line is
  parsed, as it is when it fits into one buffer of the reader.
\<close>

type_synonym tool = "string \<Rightarrow> str \<Rightarrow> files \<Rightarrow> bytes \<times> py_error option"

definition section_header_txt :: str where
  "section_header_txt = lit ''sectionheader.txt''"

text \<open>Decoding without an error handler; \<open>None\<close> is the decoding error.\<close>

function decode_strict :: "bytes \<Rightarrow> str option" where
  "decode_strict [] = Some []"
| "decode_strict (b # bs) = (case utf8_step (b # bs) of
       (Some c, n) \<Rightarrow> map_option ((#) c) (decode_strict (drop n (b # bs)))
     | (None, n) \<Rightarrow> None)"
  by pat_completeness auto
termination
  by (relation "measure length") (auto simp del: utf8_step.simps dest!: utf8_step_shrinks)

definition write_file :: "str \<Rightarrow> bytes \<Rightarrow> (files \<times> 'w, unit) op" where
  "write_file path content = own (\<lambda>d. d(path \<mapsto> content))"

definition dump_readelf_header :: "tool \<Rightarrow> str \<Rightarrow> str \<Rightarrow> (files \<times> 'w, str) op" where
  "dump_readelf_header tool path out_path =
     and_then (write_file out_path []) (\<lambda>_.
     and_then (look (tool ''-h'' path)) (\<lambda>(out, err).
     and_then (write_file out_path out) (\<lambda>_.
       case err of Some e \<Rightarrow> raise_err e | None \<Rightarrow> ret out_path)))"

definition parse_checkelf_disk :: "str \<Rightarrow> (files \<times> 'w, (str, int) dict) op" where
  "parse_checkelf_disk txt_path =
     and_then (look (\<lambda>d. d txt_path)) (\<lambda>content. case content of
         None \<Rightarrow> raise_err FileNotFoundError
       | Some bs \<Rightarrow> (case decode_strict bs of
           None \<Rightarrow> raise_err DecodeError
         | Some txt \<Rightarrow> (case parse_checkelf_file txt of Inl e \<Rightarrow> raise_err e | Inr vals \<Rightarrow> ret vals)))"

definition cross_check_disk :: "tool \<Rightarrow> str \<Rightarrow> int \<Rightarrow> int \<Rightarrow> int \<Rightarrow> (files \<times> 'w, unit) op" where
  "cross_check_disk tool path e_shoff e_shnum e_shstrndx =
     and_then (dump_readelf_header tool path section_header_txt) (\<lambda>txt_path.
     and_then (parse_checkelf_disk txt_path) (\<lambda>vals.
       if dict_get vals (lit ''re_e_shoff'') \<noteq> Some e_shoff
          \<or> dict_get vals (lit ''re_e_shnum'') \<noteq> Some e_shnum
          \<or> dict_get vals (lit ''re_e_shstrndx'') \<noteq> Some e_shstrndx
       then raise_err (SystemExit 1) else ret ()))"

text \<open>What \<open>subprocess.run(..., text=True)\<close> captures, and operations that only read the disk.\<close>

definition captured :: "tool \<Rightarrow> files \<Rightarrow> string \<Rightarrow> str \<Rightarrow> py_error + str" where
  "captured tool d opt path = (case tool opt path d of (out, err) \<Rightarrow> (case decode_strict out of
       None \<Rightarrow> Inl DecodeError
     | Some txt \<Rightarrow> (case err of Some e \<Rightarrow> Inl e | None \<Rightarrow> Inr txt)))"

definition on_disk :: "(files \<Rightarrow> ('w, 'a) op) \<Rightarrow> (files \<times> 'w, 'a) op" where
  "on_disk m = (\<lambda>(d, w). case m d w of (r, w') \<Rightarrow> (r, (d, w')))"

definition analyze_elf_disk :: "tool \<Rightarrow> str \<Rightarrow> (files \<times> 'w, (str, int option) dict) op" where
  "analyze_elf_disk tool path =
     and_then (on_disk (\<lambda>d. read_elf_header d path)) (\<lambda>(e_shoff, e_shnum, e_shstrndx).
     and_then (cross_check_disk tool path e_shoff e_shnum e_shstrndx) (\<lambda>_.
     and_then (on_disk (\<lambda>d. find_got_addresses d path e_shoff e_shnum e_shstrndx)) (\<lambda>got_addresses.
     and_then (on_disk (\<lambda>d. parse_gotverify (captured tool d) path)) (\<lambda>_. ret got_addresses))))"

text \<open>The script's entry; \<open>argv\<close> starts with the program's name.\<close>

definition elf_script :: "tool \<Rightarrow> str list \<Rightarrow> (files \<times> 'w, unit) op" where
  "elf_script tool argv =
     (if length argv < 2 then raise_err (SystemExit 1)
      else and_then (analyze_elf_disk tool (argv ! 1)) (\<lambda>_. ret ()))"

definition elf_parse_disk :: "tool \<Rightarrow> (elf_parser \<times> (files \<times> 'w), (str, int option) dict) op" where
  "elf_parse_disk tool =
     and_then (look binary_path) (\<lambda>path.
     and_then (outside (on_disk (\<lambda>d. read_elf_header d path))) (\<lambda>(e_shoff, e_shnum, e_shstrndx).
     and_then (outside (cross_check_disk tool path e_shoff e_shnum e_shstrndx)) (\<lambda>_.
     and_then (outside (on_disk (\<lambda>d. walk_got_section d path e_shoff e_shnum e_shstrndx))) (\<lambda>got.
     and_then (own (\<lambda>p. p\<lparr>got_sections := Some got\<rparr>)) (\<lambda>_.
     and_then (outside (on_disk (\<lambda>d. parse_gotverify (captured tool d) path))) (\<lambda>_. ret (addresses got)))))))"

definition get_got_range_disk :: "tool \<Rightarrow> (elf_parser \<times> (files \<times> 'w), int option \<times> int option) op" where
  "get_got_range_disk tool =
     and_then (look got_sections) (\<lambda>cached.
     and_then (if cached = None then and_then (elf_parse_disk tool) (\<lambda>_. ret ()) else ret ()) (\<lambda>_.
     and_then (look got_sections) (\<lambda>got. case got of
         None \<Rightarrow> raise_err TypeError
       | Some got \<Rightarrow> ret (range_of got))))"

section \<open>The detailed operations implement the direct ones\<close>

text \<open>The texts the direct operations are given: for \<open>-h\<close> the tool's failure comes before decoding.\<close>

definition tool_text :: "tool \<Rightarrow> files \<Rightarrow> readelf" where
  "tool_text tool d opt path =
     (if opt = ''-h'' then (case tool opt path d of
          (out, Some e) \<Rightarrow> Inl e
        | (out, None) \<Rightarrow> (case decode_strict out of None \<Rightarrow> Inl DecodeError | Some txt \<Rightarrow> Inr txt))
      else captured tool d opt path)"

text \<open>readelf reads the file it is given and not the one its output goes to.\<close>

definition reads_only :: "tool \<Rightarrow> str \<Rightarrow> bool" where
  "reads_only tool path \<longleftrightarrow> (\<forall>opt d x. tool opt path (d(section_header_txt \<mapsto> x)) = tool opt path d)"

lemma on_disk_apply: "on_disk m (d, w) = (fst (m d w), (d, snd (m d w)))"
  by (simp add: on_disk_def split: prod.splits)

lemma cross_check_disk_eq:
  assumes "reads_only tool path"
  shows "cross_check_disk tool path a b c (d, w) =
    (fst (cross_check_header (tool_text tool d) path a b c w), (d(section_header_txt \<mapsto> fst (tool ''-h'' path d)), w))"
proof -
  obtain out err where t: "tool ''-h'' path d = (out, err)" by fastforce
  then have t': "tool ''-h'' path (d(section_header_txt \<mapsto> [])) = (out, err)" using assms by (simp add: reads_only_def)
  show ?thesis
    by (simp add: cross_check_disk_def dump_readelf_header_def parse_checkelf_disk_def write_file_def cross_check_header_def
        tool_text_def t t' and_then_apply own_apply look_apply ret_apply raise_err_apply split: option.splits sum.splits)
qed

lemma captured_same:
  "reads_only tool path \<Longrightarrow> captured tool (d(section_header_txt \<mapsto> x)) opt path = captured tool d opt path"
  by (simp add: captured_def reads_only_def)

lemma gotverify_captured: "parse_gotverify (captured tool d) path w = parse_gotverify (tool_text tool d) path w"
  by (simp add: parse_gotverify_def tool_text_def)

lemma gotverify_same:
  "reads_only tool path \<Longrightarrow> parse_gotverify (tool_text tool (d(section_header_txt \<mapsto> x))) path w = parse_gotverify (tool_text tool d) path w"
  by (simp add: parse_gotverify_def captured_same tool_text_def)

lemma reads_same:
  assumes "path \<noteq> section_header_txt"
  shows "walk_got_section (d(section_header_txt \<mapsto> x)) path a b c = walk_got_section d path a b c"
    "find_got_addresses (d(section_header_txt \<mapsto> x)) path a b c = find_got_addresses d path a b c"
  using assms by (simp_all add: walk_got_section_def find_got_addresses_def open_rb_def)

text \<open>The disk after a run: touched as soon as the header has been read.\<close>

definition disk_after :: "tool \<Rightarrow> str \<Rightarrow> files \<Rightarrow> files" where
  "disk_after tool path d = (case fst (read_elf_header d path ()) of
       Inl e \<Rightarrow> d
     | Inr _ \<Rightarrow> d(section_header_txt \<mapsto> fst (tool ''-h'' path d)))"

lemma disk_after_other: "f \<noteq> section_header_txt \<Longrightarrow> disk_after tool path d f = d f"
  by (simp add: disk_after_def split: sum.splits)

lemma elf_parse_disk_eq:
  assumes "binary_path p = path" "path \<noteq> section_header_txt" "reads_only tool path"
  shows "elf_parse_disk tool (p, (d, w)) =
    (case elf_parse d (tool_text tool d) (p, w) of (r, (p', w')) \<Rightarrow> (r, (p', (disk_after tool path d, w'))))"
proof -
  note P = elf_steps_pure [where s = "s :: elf_parser \<times> 'a" for s] elf_steps_pure [where s = "s :: 'a" for s]
  note R = reads_same [OF assms(2)] gotverify_same [OF assms(3)] gotverify_captured cross_check_disk_eq [OF assms(3)]
  show ?thesis
    by (simp add: elf_parse_disk_def elf_parse_def and_then_apply look_apply outside_apply on_disk_apply own_apply
        ret_apply assms(1) R P disk_after_def split: sum.splits prod.splits)
qed

lemma get_got_range_disk_eq:
  assumes "path \<noteq> section_header_txt" "reads_only tool path"
  shows "get_got_range_disk tool (new_elf_parser path, (d, w)) =
    (case get_got_range d (tool_text tool d) (new_elf_parser path, w) of
       (r, (p', w')) \<Rightarrow> (r, (p', (disk_after tool path d, w'))))"
proof -
  have "binary_path (new_elf_parser path) = path" "got_sections (new_elf_parser path) = None"
    by (simp_all add: new_elf_parser_def)
  then show ?thesis
    using elf_parse_disk_eq [OF _ assms, of "new_elf_parser path" d w]
    by (simp add: get_got_range_disk_def get_got_range_def and_then_apply look_apply ret_apply raise_err_apply
        split: sum.splits prod.splits option.splits)
qed

lemma analyze_elf_disk_eq:
  assumes "path \<noteq> section_header_txt" "reads_only tool path"
  shows "analyze_elf_disk tool path (d, w) =
    (fst (analyze_elf d (tool_text tool d) path w), (disk_after tool path d, snd (analyze_elf d (tool_text tool d) path w)))"
proof -
  note P = elf_steps_pure [where s = "s :: 'a" for s]
  note R = reads_same [OF assms(1)] gotverify_same [OF assms(2)] gotverify_captured cross_check_disk_eq [OF assms(2)]
  show ?thesis
    by (simp add: analyze_elf_disk_def analyze_elf_def and_then_apply on_disk_apply find_got_addresses_def
        ret_apply R P disk_after_def split: sum.splits prod.splits)
qed

text \<open>The binary that has the scratch file's name is truncated before readelf is asked about it.\<close>

lemma header_dump_overwrites:
  assumes "fst (read_elf_header d section_header_txt ()) = Inr (a, b, c)"
  shows "fst (snd (analyze_elf_disk tool section_header_txt (d, w))) =
    d(section_header_txt \<mapsto> fst (tool ''-h'' section_header_txt (d(section_header_txt \<mapsto> []))))"
proof -
  note P = elf_steps_pure [where s = "s :: 'a" for s]
  have keep: "fst (snd (on_disk m s)) = fst s" for m :: "files \<Rightarrow> ('a, 'b) op" and s
    by (cases s) (simp add: on_disk_apply)
  have check: "\<exists>r. cross_check_disk tool section_header_txt a b c (d, w) =
      (r, (d(section_header_txt \<mapsto> fst (tool ''-h'' section_header_txt (d(section_header_txt \<mapsto> [])))), w))"
    by (simp add: cross_check_disk_def dump_readelf_header_def parse_checkelf_disk_def write_file_def
        and_then_apply own_apply look_apply ret_apply raise_err_apply split: option.splits sum.splits prod.splits)
  then obtain r where r: "cross_check_disk tool section_header_txt a b c (d, w) =
      (r, (d(section_header_txt \<mapsto> fst (tool ''-h'' section_header_txt (d(section_header_txt \<mapsto> [])))), w))" ..
  have "read_elf_header d section_header_txt w = (Inr (a, b, c), w)" using assms P(1) by metis
  then show ?thesis
    by (simp add: analyze_elf_disk_def and_then_apply on_disk_apply r ret_apply split: sum.splits)
qed

text \<open>C32: the analysis through the scratch file implements the direct one: for a binary of another name,
  given that readelf reads only the file it is asked about, the GOT range, the addresses and every
  error are those of the operations that hand the text over directly, and on the disk nothing
  but \<open>sectionheader.txt\<close> changes, which is written exactly when the header could be read. A
  valid binary that itself has this name in the working directory is overwritten by readelf's
  output on an empty file.\<close>

theorem elf_disk_refines:
  "(path \<noteq> section_header_txt \<and> reads_only tool path \<longrightarrow>
      (\<exists>d'. get_got_range_disk tool (new_elf_parser path, (d, w)) =
          (case get_got_range d (tool_text tool d) (new_elf_parser path, w) of (r, (p', w')) \<Rightarrow> (r, (p', (d', w'))))
        \<and> analyze_elf_disk tool path (d, w) =
          (case analyze_elf d (tool_text tool d) path w of (r, w') \<Rightarrow> (r, (d', w')))
        \<and> (\<forall>f. f \<noteq> section_header_txt \<longrightarrow> d' f = d f)
        \<and> ((\<exists>e. fst (read_elf_header d path ()) = Inl e) \<longrightarrow> d' = d)))
   \<and> (path = section_header_txt \<and> fst (read_elf_header d path ()) = Inr (a, b, c) \<longrightarrow>
      fst (snd (analyze_elf_disk tool path (d, w))) path = Some (fst (tool ''-h'' path (d(path \<mapsto> [])))))"
proof (intro conjI impI)
  assume "path \<noteq> section_header_txt \<and> reads_only tool path"
  then have a: "path \<noteq> section_header_txt" "reads_only tool path" by simp_all
  show "\<exists>d'. get_got_range_disk tool (new_elf_parser path, (d, w)) =
          (case get_got_range d (tool_text tool d) (new_elf_parser path, w) of (r, (p', w')) \<Rightarrow> (r, (p', (d', w'))))
        \<and> analyze_elf_disk tool path (d, w) =
          (case analyze_elf d (tool_text tool d) path w of (r, w') \<Rightarrow> (r, (d', w')))
        \<and> (\<forall>f. f \<noteq> section_header_txt \<longrightarrow> d' f = d f)
        \<and> ((\<exists>e. fst (read_elf_header d path ()) = Inl e) \<longrightarrow> d' = d)"
    using get_got_range_disk_eq [OF a, of d w] analyze_elf_disk_eq [OF a, of d w] disk_after_other [of _ tool path d]
    by (intro exI [of _ "disk_after tool path d"]) (auto simp: case_prod_beta disk_after_def)
next
  assume "path = section_header_txt \<and> fst (read_elf_header d path ()) = Inr (a, b, c)"
  then have p: "path = section_header_txt" and h: "fst (read_elf_header d path ()) = Inr (a, b, c)"
    by (rule conjunct1, rule conjunct2)
  show "fst (snd (analyze_elf_disk tool path (d, w))) path = Some (fst (tool ''-h'' path (d(path \<mapsto> []))))"
    unfolding p header_dump_overwrites [OF h [unfolded p]] by simp
qed

definition sample_tool :: tool where
  "sample_tool opt path d = (map of_int sample_readelf, None)"

theorem elf_disk_refines_witness:
  "\<exists>p' d'. get_got_range_disk sample_tool (new_elf_parser (lit ''x''), (\<lambda>_. Some sample_file, ())) =
      (Inr (Some 8192, Some 32), (p', (d', ())))
    \<and> (\<forall>f. f \<noteq> section_header_txt \<longrightarrow> d' f = Some sample_file)"
proof -
  have "decode_strict (map of_int sample_readelf) = Some sample_readelf" by code_simp
  then have t: "tool_text sample_tool (\<lambda>_. Some sample_file) = (\<lambda>_ _. Inr sample_readelf)"
    by (simp add: fun_eq_iff tool_text_def captured_def sample_tool_def)
  have "lit ''x'' \<noteq> section_header_txt" "reads_only sample_tool (lit ''x'')"
    by (simp_all add: section_header_txt_def lit_def reads_only_def sample_tool_def)
  then show ?thesis
    using elf_disk_refines [of "lit ''x''" sample_tool "\<lambda>_. Some sample_file" "()"]
    unfolding t sample_range by auto
qed

end
