(* ===== verification/Benchmarks.thy ===== *)
theory Benchmarks
  imports Correlator
begin

text \<open>
  \<open>benchmarks/run_benchmarks.py\<close>: the false-positive measurement, the synthetic load and the
  latency statistics. Each measurement puts a fresh engine, bound to the running loop, in place
  of \<open>ENGINE\<close> and runs three detectors of its own. \<open>perf\<close> are the successive readings of
  \<open>time.perf_counter()\<close>. What the consumer task takes while the load loop yields is a
  parameter, as is the number of packets the load loop manages to inject before its time is up.
\<close>

record bench =
  b_investigator :: investigator
  b_sctp :: sctp_detector
  b_tcp :: tcp_detector

definition new_bench :: "int \<Rightarrow> bench" where
  "new_bench max_init = \<lparr>b_investigator = \<lparr>pcap_file_dir = None\<rparr>, b_sctp = new_sctp_detector max_init 15,
     b_tcp = new_tcp_detector 100000\<rparr>"

definition swap_engine :: "engine \<Rightarrow> ('a world_scheme, unit) op" where
  "swap_engine g = change (\<lambda>w. w\<lparr>ENGINE := g\<rparr>)"

definition bench_engine :: "loop_id \<Rightarrow> engine" where
  "bench_engine l = snd (bind_loop None (Some l) (new_engine 0))"

definition bench_log :: "packet \<Rightarrow> (bench \<times> 'a world_scheme, unit) op" where
  "bench_log p = on_part b_investigator (\<lambda>d b. b\<lparr>b_investigator := d\<rparr>) (log_packet None None p)"

definition with_b_sctp :: "(sctp_detector \<times> 'w, 'a) op \<Rightarrow> (bench \<times> 'w, 'a) op" where
  "with_b_sctp = on_part b_sctp (\<lambda>d b. b\<lparr>b_sctp := d\<rparr>)"

definition with_b_tcp :: "(tcp_detector \<times> 'w, 'a) op \<Rightarrow> (bench \<times> 'w, 'a) op" where
  "with_b_tcp = on_part b_tcp (\<lambda>d b. b\<lparr>b_tcp := d\<rparr>)"

definition fp_packet :: "packet \<Rightarrow> (bench \<times> 'a world_scheme, unit) op" where
  "fp_packet p = and_then (bench_log p) (\<lambda>_. and_then (with_b_sctp (sctp_process_packet p)) (\<lambda>_.
     with_b_tcp (tcp_process_packet p)))"

text \<open>\<open>while not engine.queue.empty(): await engine.get()\<close>.\<close>

function take_events :: "event list \<Rightarrow> engine \<Rightarrow> event list \<times> engine" where
  "take_events acc g = (case get_event g of None \<Rightarrow> (acc, g) | Some (e, g') \<Rightarrow> take_events (acc @ [e]) g')"
  by pat_completeness auto
termination
  by (relation "measure (\<lambda>(acc, g). length (queue g))") (auto dest: event_fifo.pop_shrinks)

declare take_events.simps [simp del]

definition take_all :: "('a world_scheme, event list) op" where
  "take_all = (\<lambda>w. case take_events [] (ENGINE w) of (es, g) \<Rightarrow> (Inr es, w\<lparr>ENGINE := g\<rparr>))"

section \<open>False positives\<close>

record fp_stats =
  total_packets :: int
  false_positive_count :: int
  fp_rate_pct :: pyfloat
  false_positives :: "(str \<times> str) list"

text \<open>\<open>round(x, k)\<close>.\<close>

definition round_to :: "nat \<Rightarrow> pyfloat \<Rightarrow> pyfloat" where
  "round_to k x = fl (of_int (round_even (x * 10 ^ k)) / 10 ^ k)"

definition fp_stats_of :: "packet list \<Rightarrow> event list \<Rightarrow> fp_stats" where
  "fp_stats_of packets events =
     \<lparr>total_packets = int (length packets), false_positive_count = int (length events),
      fp_rate_pct = (if packets = [] then 0
        else round_to 3 (float_mult (int_truediv (int (length events)) (int (length packets))) 100)),
      false_positives = map (\<lambda>e. (ev_type e, ev_src e)) events\<rparr>"

definition measure_false_positives ::
  "loop_id \<Rightarrow> (str \<Rightarrow> py_error + packet list) \<Rightarrow> str \<Rightarrow> (bench \<times> 'a world_scheme, fp_stats) op" where
  "measure_false_positives l rdpcap path =
     and_then (outside (swap_engine (bench_engine l))) (\<lambda>_.
     and_then (own (\<lambda>_. new_bench 5)) (\<lambda>_.
       case rdpcap path of
         Inl e \<Rightarrow> raise_err e
       | Inr packets \<Rightarrow>
           and_then (for_each fp_packet packets) (\<lambda>_.
           and_then (with_b_sctp check_thresholds) (\<lambda>_.
           and_then (outside (change (deliver l))) (\<lambda>_.
           and_then (outside take_all) (\<lambda>events. ret (fp_stats_of packets events)))))))"

text \<open>The three detectors are those of a verbose correlator without a defended binary.\<close>

definition bench_of :: "correlator \<Rightarrow> bench" where
  "bench_of c = \<lparr>b_investigator = the_investigator c, b_sctp = the_sctp c, b_tcp = the_tcp c\<rparr>"

definition plain :: "correlator \<Rightarrow> bool" where
  "plain c \<longleftrightarrow> verbose_log c \<and> got_base c = None \<and> got_size c = None"

lemma fp_packet_correlator:
  assumes "plain c" "correlator_process_packet p (c, w) = (r, (c', w'))"
  shows "fp_packet p (bench_of c, w) = (r, (bench_of c', w')) \<and> plain c'"
  using assms
  by (auto simp: plain_def fp_packet_def bench_log_def with_b_sctp_def with_b_tcp_def process_look
      with_investigator_def with_sctp_def with_tcp_def and_then_apply on_part_apply bench_of_def
      split: prod.splits sum.splits)

lemma fp_packets_correlator:
  assumes "plain c" "for_each correlator_process_packet ps (c, w) = (Inr (), (c', w'))"
  shows "for_each fp_packet ps (bench_of c, w) = (Inr (), (bench_of c', w'))"
  using assms
proof (induction ps arbitrary: c w)
  case Nil
  then show ?case by (simp add: op_simps)
next
  case (Cons p ps)
  obtain r c1 w1 where s: "correlator_process_packet p (c, w) = (r, (c1, w1))" by (metis prod_cases3)
  with Cons.prems(2) have "r = Inr ()" "for_each correlator_process_packet ps (c1, w1) = (Inr (), (c', w'))"
    by (auto simp: and_then_apply split: sum.splits)
  with Cons.IH s fp_packet_correlator [OF Cons.prems(1) s] show ?case by (simp add: and_then_apply)
qed

definition bench_reports :: "int \<Rightarrow> packet list \<Rightarrow> report list" where
  "bench_reports m ps =
     concat (map (\<lambda>i. payload_reports None None (ps ! i) @ verdict 100000 ps i) [0..<length ps]) @ flood_reports m ps"

lemma new_bench_of: "new_bench m = bench_of (new_correlator True m 15 100000 None None None)"
  by (simp add: new_bench_def bench_of_def new_correlator_def new_tcp_detector_def)

lemma bench_scan:
  assumes "bound l w"
  shows "\<exists>b' w'. and_then (for_each fp_packet ps) (\<lambda>_. with_b_sctp check_thresholds) (new_bench m, w) = (Inr (), (b', w'))
    \<and> emitted (bench_reports m ps) w w'"
proof -
  let ?c = "new_correlator True m 15 100000 None None None"
  have "init_chunk_count (the_sctp ?c) = []" by simp
  from scan_window_runs [OF assms this, of ps] obtain c' w' where
    s: "scan_window ps (?c, w) = (Inr (), (c', w'))" "emitted (window_reports ?c ps) w w'" by blast
  obtain r c1 w1 where e: "for_each correlator_process_packet ps (?c, w) = (r, (c1, w1))" by (metis prod_cases3)
  then have r: "r = Inr ()" "with_sctp check_thresholds (c1, w1) = (Inr (), (c', w'))"
    using s(1) by (auto simp: scan_window_def and_then_apply split: sum.splits)
  have "plain ?c" by (simp add: plain_def new_correlator_def)
  from fp_packets_correlator [OF this e [unfolded r(1)]] have
    "for_each fp_packet ps (new_bench m, w) = (Inr (), (bench_of c1, w1))" by (simp add: new_bench_of)
  moreover have "with_b_sctp check_thresholds (bench_of c1, w1) = (Inr (), (bench_of c', w'))"
    using r(2) by (auto simp: with_b_sctp_def with_sctp_def on_part_apply bench_of_def split: prod.splits)
  ultimately show ?thesis
    using s(2) by (auto simp: and_then_apply new_window_reports bench_reports_def)
qed

lemma take_events_eq: "take_events acc g = (acc @ queue g, g\<lparr>queue := []\<rparr>)"
proof (induction acc g rule: take_events.induct)
  case (1 acc g)
  show ?case
  proof (cases "queue g")
    case Nil
    then show ?thesis by (simp add: take_events.simps [of acc g] get_event_def)
  next
    case (Cons e q)
    then have "get_event g = Some (e, g\<lparr>queue := q\<rparr>)" by (simp add: get_event_def)
    with 1 Cons show ?thesis by (simp add: take_events.simps [of acc g])
  qed
qed

lemma bench_engine_sel [simp]: "usable_loop (bench_engine l) = Some l" "queue (bench_engine l) = []"
  "maxsize (bench_engine l) = 0" "ready (bench_engine l) x = []"
  by (simp_all add: bench_engine_def bind_loop_def change_apply new_engine_def usable_loop_def)

text \<open>The measurement counts exactly the program's reports: whatever engine was in place before,
  it never fails once the capture is read, and its list and count are the types and sources of
  the payload findings and hijack verdicts, packet by packet, and the floods over five INIT
  chunks, in order; on a capture that cannot be read it raises the reader's error, with the
  engine already replaced.\<close>

theorem false_positives_are_reports:
  "case rdpcap path of
     Inl e \<Rightarrow> measure_false_positives l rdpcap path (b, w)
       = (Inl e, (new_bench 5, w\<lparr>ENGINE := bench_engine l\<rparr>))
   | Inr ps \<Rightarrow> \<exists>b' w' stats. measure_false_positives l rdpcap path (b, w) = (Inr stats, (b', w'))
       \<and> total_packets stats = int (length ps)
       \<and> false_positives stats = map (\<lambda>r. (rp_type r, rp_src r)) (bench_reports 5 ps)
       \<and> false_positive_count stats = int (length (bench_reports 5 ps))
       \<and> (bench_reports 5 ps = [] \<longrightarrow> fp_rate_pct stats = 0) \<and> 0 \<le> fp_rate_pct stats
       \<and> queue (ENGINE w') = []"
proof (cases "rdpcap path")
  case (Inl e)
  then show ?thesis
    by (simp add: measure_false_positives_def and_then_apply outside_apply own_apply swap_engine_def change_apply
        raise_err_apply)
next
  case (Inr ps)
  let ?w = "w\<lparr>ENGINE := bench_engine l\<rparr>"
  have b: "bound l ?w" by (simp add: bound_def)
  from bench_scan [OF b, of ps 5] obtain b' w' where
    run: "and_then (for_each fp_packet ps) (\<lambda>_. with_b_sctp check_thresholds) (new_bench 5, ?w) = (Inr (), (b', w'))"
    and em: "emitted (bench_reports 5 ps) ?w w'" by blast
  from emitted_queue [OF em b] obtain es where
    es: "map report_of es = bench_reports 5 ps" "queue (ENGINE (deliver l w')) = es" by auto
  have "measure_false_positives l rdpcap path (b, w) =
      and_then (and_then (for_each fp_packet ps) (\<lambda>_. with_b_sctp check_thresholds)) (\<lambda>_.
        and_then (outside (change (deliver l))) (\<lambda>_.
        and_then (outside take_all) (\<lambda>events. ret (fp_stats_of ps events)))) (new_bench 5, ?w)"
    unfolding and_then_assoc
    by (simp add: measure_false_positives_def Inr and_then_apply outside_apply own_apply swap_engine_def change_apply)
  also have "\<dots> = (Inr (fp_stats_of ps es), (b', (deliver l w')\<lparr>ENGINE := (ENGINE (deliver l w'))\<lparr>queue := []\<rparr>\<rparr>))"
    by (simp add: and_then_apply [of "and_then _ _"] run)
      (simp add: and_then_apply outside_apply change_apply take_all_def take_events_eq es(2) ret_apply)
  finally have whole: "measure_false_positives l rdpcap path (b, w) =
      (Inr (fp_stats_of ps es), (b', (deliver l w')\<lparr>ENGINE := (ENGINE (deliver l w'))\<lparr>queue := []\<rparr>\<rparr>))" .
  have view: "map (\<lambda>e. (ev_type e, ev_src e)) es = map (\<lambda>r. (rp_type r, rp_src r)) (map report_of es)"
    by (simp add: report_of_def)
  have len: "length es = length (bench_reports 5 ps)" using es(1) by (metis length_map)
  have nonneg: "0 \<le> round_to 3 (float_mult (int_truediv (int n) (int k)) 100)" for n k
  proof -
    have "0 \<le> float_mult (int_truediv (int n) (int k)) 100"
      unfolding float_mult_def int_truediv_def by (intro binary64.rnd_nonneg mult_nonneg_nonneg) simp_all
    then have "0 \<le> round_even (float_mult (int_truediv (int n) (int k)) 100 * 1000)"
      using round_even_mono [of 0] round_even_of_int [of 0] by fastforce
    then show ?thesis unfolding round_to_def by (intro binary64.rnd_nonneg) simp
  qed
  have zero: "round_to 3 (float_mult (int_truediv 0 k) 100) = 0" for k
    using round_even_of_int [of 0] by (simp add: round_to_def float_mult_def int_truediv_def)
  show ?thesis
    unfolding Inr sum.case whole
    using view es(1) len nonneg zero by (auto simp: fp_stats_of_def)
qed


lemma bench_reports_attack:
  "bench_reports 5 attack_packets = [finding_report (lit ''a'') (finding_text (RepeatedRun 0x41 12 0)),
     hijack_report (sample_key ''a'') 1000 900000 899000 12 1]"
proof -
  have "flood_reports 1 attack_packets = [flood_report 1 (lit ''a'') 2]" "flood_reports 5 attack_packets = []"
    by (simp_all add: flood_reports_def init_sources_def init_source_def attack_packets_def sctp_packet_def
        tcp_packet_def first_seen_def lit_def)
  with attack_reports [of True] show ?thesis unfolding bench_reports_def by simp
qed

theorem false_positives_are_reports_witness:
  "\<exists>b' w' stats. measure_false_positives 7 (\<lambda>_. Inr attack_packets) (lit ''x'') (new_bench 0, sample_world None)
       = (Inr stats, (b', w'))
    \<and> false_positives stats = [(lit ''payload_scan_finding'', lit ''a''),
         (lit ''tcp_hijack_seq_anomaly'', conn_text (sample_key ''a''))]"
  using false_positives_are_reports [where rdpcap = "\<lambda>_. Inr attack_packets" and path = "lit ''x''" and l = 7
      and b = "new_bench 0" and w = "sample_world None"]
  by (auto simp: bench_reports_attack finding_report_def hijack_report_def)

end
