(* ===== verification/Latency.thy ===== *)
theory Latency
  imports Benchmarks
begin

text \<open>
  \<open>measure_latency\<close> of \<open>benchmarks/run_benchmarks.py\<close>: every packet of a capture is timed
  to each of the events it causes, and the list of times is summarised. \<open>perf\<close> gives the
  successive readings of \<open>time.perf_counter()\<close>; \<open>c\<close> counts those made.
\<close>

definition latency_packet :: "packet \<Rightarrow> (bench \<times> 'a world_scheme, unit) op" where
  "latency_packet p = and_then (bench_log p) (\<lambda>_. and_then (with_b_sctp (sctp_process_packet p)) (\<lambda>_.
     and_then (with_b_tcp (tcp_process_packet p)) (\<lambda>_. with_b_sctp check_thresholds)))"

definition elapsed_ms :: "pyfloat \<Rightarrow> pyfloat \<Rightarrow> pyfloat" where
  "elapsed_ms t0 t1 = float_mult (float_sub t1 t0) 1000"

text \<open>The loop that empties the queue, one reading per event.\<close>

function time_events ::
  "(nat \<Rightarrow> pyfloat) \<Rightarrow> pyfloat \<Rightarrow> bool \<Rightarrow> nat \<Rightarrow> pyfloat list \<Rightarrow> engine \<Rightarrow> (nat \<times> pyfloat list) \<times> engine" where
  "time_events perf t0 counted c ls g = (case get_event g of
       None \<Rightarrow> ((c, ls), g)
     | Some (e, g') \<Rightarrow>
         time_events perf t0 counted (Suc c) (if counted then ls @ [elapsed_ms t0 (perf c)] else ls) g')"
  by pat_completeness auto
termination
  by (relation "measure (\<lambda>(perf, t0, counted, c, ls, g). length (queue g))") (auto dest: event_fifo.pop_shrinks)

declare time_events.simps [simp del]

fun latency_loop :: "loop_id \<Rightarrow> (nat \<Rightarrow> pyfloat) \<Rightarrow> int \<Rightarrow> packet list \<Rightarrow> int \<Rightarrow> nat \<Rightarrow> pyfloat list
   \<Rightarrow> (bench \<times> 'a world_scheme, pyfloat list) op" where
  "latency_loop l perf warmup [] i c ls = ret ls"
| "latency_loop l perf warmup (p # ps) i c ls =
     and_then (latency_packet p) (\<lambda>_.
     and_then (outside (change (deliver l))) (\<lambda>_.
     and_then (outside (\<lambda>w. case time_events perf (perf c) (warmup \<le> i) (Suc c) ls (ENGINE w) of
         (r, g) \<Rightarrow> (Inr r, w\<lparr>ENGINE := g\<rparr>))) (\<lambda>(c', ls').
       latency_loop l perf warmup ps (i + 1) c' ls')))"

section \<open>The summary\<close>

record latency_stats =
  latency_count :: int
  mean_ms :: pyfloat
  median_ms :: pyfloat
  p95_ms :: pyfloat
  max_ms :: pyfloat
  min_ms :: pyfloat

definition stat_mean :: "pyfloat list \<Rightarrow> pyfloat" where
  "stat_mean xs = fl (sum_list xs / of_nat (length xs))"

definition stat_median :: "pyfloat list \<Rightarrow> pyfloat" where
  "stat_median xs = (let s = sort xs; n = length xs; i = n div 2 in
     if odd n then s ! i else fl (fl (s ! (i - 1) + s ! i) / 2))"

definition p95_index :: "nat \<Rightarrow> int" where
  "p95_index n = \<lfloor>float_mult (of_nat n) (fl (95/100))\<rfloor>"

text \<open>Indexing a list with a non-negative integer.\<close>

definition index_list :: "'x list \<Rightarrow> int \<Rightarrow> py_error + 'x" where
  "index_list xs i = (if nat i < length xs then Inr (xs ! nat i) else Inl IndexError)"

definition latency_stats_of :: "pyfloat list \<Rightarrow> py_error + latency_stats option" where
  "latency_stats_of ls =
     (if ls = [] then Inr None
      else case (if 1 < length ls then index_list (sort ls) (p95_index (length ls)) else index_list ls 0) of
          Inl e \<Rightarrow> Inl e
        | Inr p \<Rightarrow> Inr (Some \<lparr>latency_count = int (length ls), mean_ms = stat_mean ls, median_ms = stat_median ls,
            p95_ms = p, max_ms = Max (set ls), min_ms = Min (set ls)\<rparr>))"

definition measure_latency :: "loop_id \<Rightarrow> (nat \<Rightarrow> pyfloat) \<Rightarrow> (str \<Rightarrow> py_error + packet list) \<Rightarrow> str \<Rightarrow> int
   \<Rightarrow> (bench \<times> 'a world_scheme, latency_stats option) op" where
  "measure_latency l perf rdpcap path warmup =
     and_then (outside (swap_engine (bench_engine l))) (\<lambda>_.
     and_then (own (\<lambda>_. new_bench 2)) (\<lambda>_.
       case rdpcap path of
         Inl e \<Rightarrow> raise_err e
       | Inr packets \<Rightarrow>
           and_then (latency_loop l perf warmup packets 0 0 []) (\<lambda>ls.
             case latency_stats_of ls of Inl e \<Rightarrow> raise_err e | Inr r \<Rightarrow> ret r)))"

section \<open>Order of the summary\<close>

text \<open>The position of the 95th percentile: at or after the middle and inside the list.\<close>

lemma p95_index_range:
  assumes "2 \<le> n" "n < 2 ^ 48"
  shows "int (n div 2) \<le> p95_index n" "p95_index n < int n"
proof -
  have c: "1 / 2 \<le> fl (95/100)" "fl (95/100) \<le> 31 / 32"
    using fl_mono [of "1/2" "95/100"] fl_mono [of "95/100" "31/32"]
      fl_dyadic [of 1 "-1"] fl_dyadic [of 31 "-5"] by (simp_all add: power_int_minus)
  have n: "(of_nat n :: rat) = of_int (int n)" "\<bar>31 * int n\<bar> \<le> 2 ^ 53" "\<bar>int (n div 2)\<bar> < 2 ^ 53"
    using assms(2) by simp_all
  have "fl (of_int (31 * int n) * 2 powi (- 5)) = of_int (31 * int n) * 2 powi (- 5)"
    by (rule fl_dyadic [OF n(2)])
  then have up: "fl (of_nat n * (31 / 32)) = of_nat n * 31 / 32" by (simp add: power_int_minus mult.commute)
  have "of_nat n * fl (95/100) \<le> of_nat n * (31 / 32)" using c(2) by (intro mult_left_mono) simp_all
  from fl_mono [OF this] up have "float_mult (of_nat n) (fl (95/100)) \<le> of_nat n * 31 / 32"
    by (simp add: float_mult_def)
  also have "\<dots> < of_int (int n)" using assms(1) by simp
  finally show "p95_index n < int n" unfolding p95_index_def by (simp only: floor_less_iff)
  have "(of_nat (2 * (n div 2)) :: rat) \<le> of_nat n" by (simp only: of_nat_le_iff)
  then have "of_int (int (n div 2)) \<le> of_nat n * (1/2 :: rat)" by simp
  also have "\<dots> \<le> of_nat n * fl (95/100)" using c(1) by (intro mult_left_mono) simp_all
  finally have "of_int (int (n div 2)) \<le> float_mult (of_nat n) (fl (95/100))"
    using fl_mono [of "of_int (int (n div 2))"] fl_of_int [OF n(3)] unfolding float_mult_def by metis
  then show "int (n div 2) \<le> p95_index n" unfolding p95_index_def by (simp only: le_floor_iff)
qed

lemma midpoint_between:
  assumes "fl a = a" "fl b = b" "a \<le> b"
  shows "a \<le> fl (fl (a + b) / 2)" "fl (fl (a + b) / 2) \<le> b"
proof -
  have twice: "fl (x + x) = x + x" if "fl x = x" for x
    using fl_scale [of x 1] that by (simp add: mult_2_right)
  have "a + a \<le> fl (a + b)" using fl_mono [of "a + a" "a + b"] twice [OF assms(1)] assms(3) by simp
  then have "fl a \<le> fl (fl (a + b) / 2)" by (intro fl_mono) simp
  then show "a \<le> fl (fl (a + b) / 2)" using assms(1) by simp
  have "fl (a + b) \<le> b + b" using fl_mono [of "a + b" "b + b"] twice [OF assms(2)] assms(3) by simp
  then have "fl (fl (a + b) / 2) \<le> fl b" by (intro fl_mono) simp
  then show "fl (fl (a + b) / 2) \<le> b" using assms(2) by simp
qed

lemma sort_nth_between:
  fixes xs :: "pyfloat list"
  assumes "i < length xs"
  shows "sort xs ! i \<in> set xs" "Min (set xs) \<le> sort xs ! i" "sort xs ! i \<le> Max (set xs)"
proof -
  show m: "sort xs ! i \<in> set xs" using nth_mem [of i "sort xs"] assms by simp
  then show "Min (set xs) \<le> sort xs ! i" "sort xs ! i \<le> Max (set xs)" by simp_all
qed

lemma median_between:
  fixes xs :: "pyfloat list"
  assumes "xs \<noteq> []" "\<forall>x \<in> set xs. fl x = x"
  shows "Min (set xs) \<le> stat_median xs" "stat_median xs \<le> sort xs ! (length xs div 2)"
proof -
  let ?i = "length xs div 2"
  have i: "?i < length xs" using assms(1) by simp
  have "Min (set xs) \<le> stat_median xs \<and> stat_median xs \<le> sort xs ! ?i"
  proof (cases "odd (length xs)")
    case True
    then show ?thesis using sort_nth_between [OF i] by (simp add: stat_median_def Let_def)
  next
    case False
    have j: "?i - 1 < length xs" using i by simp
    have "sort xs ! (?i - 1) \<le> sort xs ! ?i" using i by (intro sorted_nth_mono) simp_all
    from midpoint_between [OF _ _ this] have
      "sort xs ! (?i - 1) \<le> stat_median xs" "stat_median xs \<le> sort xs ! ?i"
      using False assms(2) sort_nth_between(1) [OF i] sort_nth_between(1) [OF j]
      by (simp_all add: stat_median_def Let_def)
    then show ?thesis using sort_nth_between(2) [OF j] by linarith
  qed
  then show "Min (set xs) \<le> stat_median xs" "stat_median xs \<le> sort xs ! ?i" by simp_all
qed

lemma mean_between:
  fixes xs :: "pyfloat list"
  assumes "xs \<noteq> []" "\<forall>x \<in> set xs. fl x = x"
  shows "Min (set xs) \<le> stat_mean xs" "stat_mean xs \<le> Max (set xs)"
proof -
  have n: "0 < (of_nat (length xs) :: rat)" using assms(1) by simp
  have lo: "(\<Sum>x\<leftarrow>xs. Min (set xs)) \<le> (\<Sum>x\<leftarrow>xs. x)" by (rule sum_list_mono) simp
  have hi: "(\<Sum>x\<leftarrow>xs. x) \<le> (\<Sum>x\<leftarrow>xs. Max (set xs))" by (rule sum_list_mono) simp
  have m: "Min (set xs) \<le> sum_list xs / of_nat (length xs)" "sum_list xs / of_nat (length xs) \<le> Max (set xs)"
    using lo hi n by (simp_all add: sum_list_triv pos_le_divide_eq pos_divide_le_eq mult.commute)
  have "fl (Min (set xs)) \<le> stat_mean xs" "stat_mean xs \<le> fl (Max (set xs))"
    using fl_mono [OF m(1)] fl_mono [OF m(2)] by (simp_all add: stat_mean_def)
  moreover have "fl (Min (set xs)) = Min (set xs)" "fl (Max (set xs)) = Max (set xs)"
    using assms by simp_all
  ultimately show "Min (set xs) \<le> stat_mean xs" "stat_mean xs \<le> Max (set xs)" by simp_all
qed

lemma latency_summary:
  assumes "xs \<noteq> []" "length xs < 2 ^ 48"
  shows "\<exists>st. latency_stats_of (map fl xs) = Inr (Some st) \<and> latency_count st = int (length xs)
    \<and> min_ms st \<le> median_ms st \<and> median_ms st \<le> p95_ms st \<and> p95_ms st \<le> max_ms st
    \<and> min_ms st \<le> mean_ms st \<and> mean_ms st \<le> max_ms st \<and> p95_ms st \<in> set (map fl xs)"
proof -
  let ?xs = "map fl xs"
  have ne: "?xs \<noteq> []" and d: "\<forall>x \<in> set ?xs. fl x = x" using assms(1) by auto
  note m = median_between [OF ne d] mean_between [OF ne d]
  show ?thesis
  proof (cases "1 < length ?xs")
    case True
    let ?i = "nat (p95_index (length ?xs))"
    have i: "length ?xs div 2 \<le> ?i" "?i < length ?xs"
      using p95_index_range [of "length ?xs"] True assms(2) by (simp_all add: nat_le_eq_zle nat_less_iff le_nat_iff)
    have "sort ?xs ! (length ?xs div 2) \<le> sort ?xs ! ?i" using i by (intro sorted_nth_mono) simp_all
    then have "stat_median ?xs \<le> sort ?xs ! ?i" using m(2) by linarith
    moreover have "latency_stats_of ?xs = Inr (Some \<lparr>latency_count = int (length xs), mean_ms = stat_mean ?xs,
        median_ms = stat_median ?xs, p95_ms = sort ?xs ! ?i, max_ms = Max (set ?xs), min_ms = Min (set ?xs)\<rparr>)"
      using ne True i(2) by (simp add: latency_stats_of_def index_list_def)
    ultimately show ?thesis
      using m sort_nth_between [OF i(2)] by (simp del: set_map)
  next
    case False
    then obtain x where x: "xs = [x]" using ne by (cases xs) auto
    then show ?thesis
      using m unfolding x by (auto simp: latency_stats_of_def index_list_def stat_median_def stat_mean_def)
  qed
qed

text \<open>C39: the summary of a non-empty list of measured times never fails: the 95th-percentile index,
  computed in floating point, always lies inside the sorted list and not before its middle, so
  minimum, median, percentile and maximum come in this order and the mean lies between the
  extremes, rounding included.\<close>

theorem latency_summary_ordered:
  assumes "xs \<noteq> []" "length xs < 2 ^ 48"
  shows "\<exists>st. latency_stats_of (map fl xs) = Inr (Some st) \<and> latency_count st = int (length xs)
    \<and> min_ms st \<le> median_ms st \<and> median_ms st \<le> p95_ms st \<and> p95_ms st \<le> max_ms st
    \<and> min_ms st \<le> mean_ms st \<and> mean_ms st \<le> max_ms st \<and> p95_ms st \<in> set (map fl xs)"
  using assms by (rule latency_summary)

theorem latency_summary_ordered_witness:
  "\<exists>st. latency_stats_of (map fl [1/3, 5, 1/10]) = Inr (Some st) \<and> latency_count st = 3
    \<and> min_ms st \<le> median_ms st \<and> median_ms st \<le> p95_ms st \<and> p95_ms st \<le> max_ms st"
  using latency_summary_ordered [of "[1/3, 5, 1/10]"] by auto

section \<open>What is measured\<close>

text \<open>The reports of the \<open>i\<close>-th packet: the thresholds are checked after every packet and the
  tally is never reset, so a flood is reported anew with each packet from its third INIT on.\<close>

definition latency_reports :: "packet list \<Rightarrow> nat \<Rightarrow> report list" where
  "latency_reports ps i = payload_reports None None (ps ! i) @ verdict 100000 ps i @ flood_reports 2 (take (Suc i) ps)"

text \<open>The times of the events, given how many each packet has: a packet's events are all timed from
  the reading before it to the successive readings after it.\<close>

fun event_times :: "(nat \<Rightarrow> pyfloat) \<Rightarrow> int \<Rightarrow> int \<Rightarrow> nat \<Rightarrow> nat list \<Rightarrow> pyfloat list" where
  "event_times perf warmup i c [] = []"
| "event_times perf warmup i c (n # ns) =
     (if warmup \<le> i then map (\<lambda>j. elapsed_ms (perf c) (perf (Suc c + j))) [0..<n] else [])
     @ event_times perf warmup (i + 1) (Suc c + n) ns"

lemma event_times_length: "warmup \<le> i \<Longrightarrow> length (event_times perf warmup i c ns) = sum_list ns"
  by (induction ns arbitrary: i c) simp_all

lemma event_times_rounded: "x \<in> set (event_times perf warmup i c ns) \<Longrightarrow> fl x = x"
  by (induction ns arbitrary: i c) (auto simp: elapsed_ms_def float_mult_def split: if_splits)

lemma time_events_eq: "time_events perf t0 counted c ls g =
   ((c + length (queue g), ls @ (if counted then map (\<lambda>j. elapsed_ms t0 (perf (c + j))) [0..<length (queue g)] else [])),
    g\<lparr>queue := []\<rparr>)"
proof (induction perf t0 counted c ls g rule: time_events.induct)
  case (1 perf t0 counted c ls g)
  show ?case
  proof (cases "queue g")
    case Nil
    then show ?thesis by (simp add: time_events.simps [of perf t0 counted c ls g] get_event_def)
  next
    case (Cons e q)
    then have g: "get_event g = Some (e, g\<lparr>queue := q\<rparr>)" by (simp add: get_event_def)
    have "map (\<lambda>j. elapsed_ms t0 (perf (c + j))) [0..<Suc (length q)] =
        elapsed_ms t0 (perf c) # map (\<lambda>j. elapsed_ms t0 (perf (Suc c + j))) [0..<length q]"
      by (simp add: upt_conv_Cons flip: map_Suc_upt del: upt_Suc)
    with 1 [OF g refl] g Cons show ?thesis
      by (simp add: time_events.simps [of perf t0 counted c ls g] del: upt_Suc)
  qed
qed

text \<open>The detectors after the packets \<open>qs\<close>.\<close>

definition latency_state :: "packet list \<Rightarrow> bench \<Rightarrow> bool" where
  "latency_state qs b \<longleftrightarrow> init_chunk_count (b_sctp b) = tally (init_sources qs) \<and> max_init_chunks (b_sctp b) = 2
     \<and> tcp_view (b_tcp b) = fold tcp_follow qs (tcp_view (new_tcp_detector 100000))"

lemma verdict_gives: "verdict thr (qs @ p # ps) (length qs) =
   tcp_gives (fold tcp_follow qs (tcp_view (new_tcp_detector thr))) p"
proof -
  have "fst (tcp_view (new_tcp_detector thr)) = thr" by (simp add: tcp_view_def new_tcp_detector_def)
  then show ?thesis
    by (simp add: verdict_def tcp_gives_def connection_fold connection_new split: option.splits)
qed

lemma latency_step:
  assumes "bound l w" "latency_state qs b"
  shows "\<exists>b' w'. latency_packet p (b, w) = (Inr (), (b', w')) \<and> latency_state (qs @ [p]) b'
    \<and> emitted (latency_reports (qs @ p # ps) (length qs)) w w'"
proof -
  from pcap_log.step_bound [OF assms(1), of None None p "b_investigator b"] obtain w1 where
    log: "bench_log p (b, w) = (Inr (), (b, w1))" "emitted (payload_reports None None p) w w1"
    by (auto simp: bench_log_def on_part_apply)
  have b1: "bound l w1" using emitted_bound [OF log(2)] assms(1) by simp
  let ?s = "fold count_init (init_source p) (b_sctp b)"
  have s: "init_chunk_count ?s = tally (init_sources (qs @ [p]))" "max_init_chunks ?s = 2"
    using tally_fold [of "b_sctp b" "init_sources qs" "init_source p"] assms(2)
    by (simp_all add: latency_state_def init_sources_def)
  from tcp_packets.step_bound [OF b1, of p "b_tcp b"] assms(2) obtain d w2 where
    d: "tcp_process_packet p (b_tcp b, w1) = (Inr (), (d, w2))"
      "tcp_view d = fold tcp_follow (qs @ [p]) (tcp_view (new_tcp_detector 100000))"
      "emitted (verdict 100000 (qs @ p # ps) (length qs)) w1 w2"
    by (auto simp: latency_state_def verdict_gives)
  have b2: "bound l w2" using emitted_bound [OF d(3)] b1 by simp
  from sctp_check.step_bound [OF b2, of "?s"] obtain s' w3 where
    c: "check_thresholds (?s, w2) = (Inr (), (s', w3))"
      "init_chunk_count s' = tally (init_sources (qs @ [p]))" "max_init_chunks s' = 2"
      "emitted (flood_reports 2 (qs @ [p])) w2 w3"
    by (auto simp: s flood_reports_tally)
  have "latency_packet p (b, w) = (Inr (), (b\<lparr>b_sctp := s', b_tcp := d\<rparr>, w3))"
    by (simp add: latency_packet_def and_then_apply log(1) with_b_tcp_def with_b_sctp_def on_part_apply d(1)
        process_eq c(1))
  moreover have "emitted (latency_reports (qs @ p # ps) (length qs)) w w3"
    using emitted_trans [OF log(2) emitted_trans [OF d(3) c(4)]] by (simp add: latency_reports_def)
  ultimately show ?thesis using c d(2) by (simp add: latency_state_def)
qed

lemma latency_loop_eq:
  assumes "bound l w" "maxsize (ENGINE w) \<le> 0" "queue (ENGINE w) = []" "ready (ENGINE w) l = []" "latency_state qs b"
  shows "\<exists>b' w'. latency_loop l perf warmup ps (int (length qs)) c ls (b, w) =
     (Inr (ls @ event_times perf warmup (int (length qs)) c
        (map (\<lambda>i. length (latency_reports (qs @ ps) i)) [length qs..<length qs + length ps])), (b', w'))"
  using assms
proof (induction ps arbitrary: qs c ls b w)
  case Nil
  then show ?case by (simp add: ret_apply)
next
  case (Cons p ps)
  from latency_step [OF Cons.prems(1,5), of p ps] obtain b1 w1 where
    s: "latency_packet p (b, w) = (Inr (), (b1, w1))" "latency_state (qs @ [p]) b1"
      "emitted (latency_reports (qs @ p # ps) (length qs)) w w1" by blast
  from emitted_queue [OF s(3) Cons.prems(1,2,4)] Cons.prems(3) obtain es where
    es: "map report_of es = latency_reports (qs @ p # ps) (length qs)" "queue (ENGINE (deliver l w1)) = es"
      "ready (ENGINE (deliver l w1)) l = []" "maxsize (ENGINE (deliver l w1)) \<le> 0" by auto
  define n where "n = length (latency_reports (qs @ p # ps) (length qs))"
  have len: "length es = n" using es(1) by (metis length_map n_def)
  have maxsize1: "maxsize (ENGINE w1) \<le> 0" using s(3) Cons.prems(2) by (auto simp: emitted_def)
  then have "bound l (deliver l w1)"
    using emitted_bound [OF s(3)] Cons.prems(1) run_callbacks_all [of "ENGINE w1" l]
    by (simp add: bound_def deliver_def)
  let ?w = "(deliver l w1)\<lparr>ENGINE := (ENGINE (deliver l w1))\<lparr>queue := []\<rparr>\<rparr>"
  let ?ls = "ls @ (if warmup \<le> int (length qs) then map (\<lambda>j. elapsed_ms (perf c) (perf (Suc c + j))) [0..<n] else [])"
  have w: "bound l ?w" "maxsize (ENGINE ?w) \<le> 0" "queue (ENGINE ?w) = []" "ready (ENGINE ?w) l = []"
    using \<open>bound l (deliver l w1)\<close> es(3,4) by (simp_all add: bound_def)
  have "latency_loop l perf warmup (p # ps) (int (length qs)) c ls (b, w) =
      latency_loop l perf warmup ps (int (length (qs @ [p]))) (Suc c + n) ?ls (b1, ?w)"
    by (simp add: and_then_apply s(1) outside_apply change_apply time_events_eq es(2) len add.commute)
  moreover have "event_times perf warmup (int (length qs)) c
      (map (\<lambda>i. length (latency_reports (qs @ p # ps) i)) [length qs..<length qs + length (p # ps)]) =
    (if warmup \<le> int (length qs) then map (\<lambda>j. elapsed_ms (perf c) (perf (Suc c + j))) [0..<n] else []) @
    event_times perf warmup (int (length (qs @ [p]))) (Suc c + n)
      (map (\<lambda>i. length (latency_reports ((qs @ [p]) @ ps) i)) [length (qs @ [p])..<length (qs @ [p]) + length ps])"
    by (simp add: upt_conv_Cons n_def add.commute del: upt_Suc)
  ultimately show ?case
    using Cons.IH [OF w s(2), of "Suc c + n" ?ls] by (simp only: append_assoc)
qed

lemma latency_run:
  assumes "rdpcap path = Inr ps"
  shows "\<exists>b' w'. measure_latency l perf rdpcap path warmup (b, w) =
     (latency_stats_of (event_times perf warmup 0 0 (map (\<lambda>i. length (latency_reports ps i)) [0..<length ps])), (b', w'))"
proof -
  let ?w = "w\<lparr>ENGINE := bench_engine l\<rparr>"
  have "latency_state [] (new_bench 2)"
    by (simp add: latency_state_def new_bench_def new_sctp_detector_def tally_def init_sources_def)
  from latency_loop_eq [OF _ _ _ _ this, of l ?w perf warmup ps 0 "[]"] obtain b' w' where
    "latency_loop l perf warmup ps 0 0 [] (new_bench 2, ?w) =
      (Inr (event_times perf warmup 0 0 (map (\<lambda>i. length (latency_reports ps i)) [0..<length ps])), (b', w'))"
    by (auto simp: bound_def)
  then show ?thesis
    by (cases "latency_stats_of (event_times perf warmup 0 0 (map (\<lambda>i. length (latency_reports ps i)) [0..<length ps]))")
      (simp_all add: measure_latency_def assms and_then_apply outside_apply own_apply swap_engine_def change_apply
        ret_apply raise_err_apply)
qed

lemma latency_returns:
  assumes "rdpcap path = Inr ps"
    and "sum_list (map (\<lambda>i. length (latency_reports ps i)) [0..<length ps]) < 2 ^ 48" "warmup \<le> 0"
  shows "\<exists>r b' w'. measure_latency l perf rdpcap path warmup (b, w) = (Inr r, (b', w'))
    \<and> (case r of None \<Rightarrow> \<forall>i < length ps. latency_reports ps i = []
       | Some st \<Rightarrow> latency_count st = (\<Sum>i < length ps. int (length (latency_reports ps i))))"
proof -
  let ?ns = "map (\<lambda>i. length (latency_reports ps i)) [0..<length ps]"
  let ?ls = "event_times perf warmup 0 0 ?ns"
  have len: "length ?ls = sum_list ?ns" using assms(3) by (rule event_times_length)
  have "map fl ?ls = ?ls" by (intro map_idI event_times_rounded)
  then have stats: "\<exists>st. latency_stats_of ?ls = Inr (Some st) \<and> latency_count st = int (length ?ls)" if "?ls \<noteq> []"
    using latency_summary [of ?ls] that assms(2) len by auto
  have count: "int (sum_list ?ns) = (\<Sum>i < length ps. int (length (latency_reports ps i)))"
    by (simp add: interv_sum_list_conv_sum_set_nat atLeast0LessThan)
  from latency_run [where rdpcap = rdpcap and path = path, OF assms(1), of l perf warmup b w] obtain b' w' where
    run: "measure_latency l perf rdpcap path warmup (b, w) = (latency_stats_of ?ls, (b', w'))" by auto
  show ?thesis
  proof (cases "?ls = []")
    case True
    then have "\<forall>i < length ps. latency_reports ps i = []" using len by simp
    moreover have "latency_stats_of ?ls = Inr None" using True by (simp add: latency_stats_of_def)
    ultimately show ?thesis using run by simp
  next
    case False
    with stats obtain st where "latency_stats_of ?ls = Inr (Some st)" "latency_count st = int (length ?ls)" by blast
    then show ?thesis using run len count by (simp del: length_map)
  qed
qed

lemma latency_unread:
  "rdpcap path = Inl e \<Longrightarrow> fst (measure_latency l perf rdpcap path warmup (b, w)) = Inl e"
  by (simp add: measure_latency_def and_then_apply outside_apply own_apply swap_engine_def change_apply raise_err_apply)

text \<open>The latency measurement times every event the detectors publish, each from the reading
  before its packet: without a warm-up the number of measured events is the number of reports,
  where the payload findings and hijack verdicts count once but a flood counts again with every
  packet after it began. Whatever the clock says, the measurement returns a summary (or the
  empty one) once the capture is read, and nothing but the reader's error can leave it.\<close>

theorem latency_counts_reports:
  assumes "sum_list (map (\<lambda>i. length (latency_reports ps i)) [0..<length ps]) < 2 ^ 48" "warmup \<le> 0"
  shows "fst (measure_latency l perf (\<lambda>_. Inl e) path warmup (b, w)) = Inl e
    \<and> (\<exists>r b' w'. measure_latency l perf (\<lambda>_. Inr ps) path warmup (b, w) = (Inr r, (b', w'))
       \<and> (case r of None \<Rightarrow> \<forall>i < length ps. latency_reports ps i = []
          | Some st \<Rightarrow> latency_count st = (\<Sum>i < length ps. int (length (latency_reports ps i)))))"
  by (rule conjI [OF latency_unread latency_returns [OF _ assms]]) simp_all

text \<open>Four INIT chunks of one source: two events are timed for the one flood.\<close>

lemma flood_latency_reports:
  "map (latency_reports (replicate 4 (sctp_packet ''a''))) [0..<4] =
     [[], [], [flood_report 2 (lit ''a'') 3], [flood_report 2 (lit ''a'') 4]]"
  by (simp add: upt_conv_Cons eval_nat_numeral latency_reports_def payload_reports_def extract_tcp_payload_def
      verdict_def conn_of_def sctp_packet_def flood_reports_def init_sources_def init_source_def first_seen_def)

theorem latency_counts_reports_witness:
  "\<exists>st b' w'. measure_latency 7 of_nat (\<lambda>_. Inr (replicate 4 (sctp_packet ''a''))) (lit ''x'') 0 (new_bench 0, sample_world None)
     = (Inr (Some st), (b', w')) \<and> latency_count st = 2"
proof -
  let ?ps = "replicate 4 (sctp_packet ''a'')"
  have n: "map (\<lambda>i. length (latency_reports ?ps i)) [0..<length ?ps] = [0, 0, 1, 1]"
    using arg_cong [OF flood_latency_reports, of "map length"] by (simp add: comp_def)
  have "latency_reports ?ps 3 = [flood_report 2 (lit ''a'') 4]"
    using arg_cong [OF flood_latency_reports, of "\<lambda>xs. xs ! 3"] by simp
  then have not_all: "\<not> (\<forall>i < length ?ps. latency_reports ?ps i = [])" by (auto intro!: exI [of _ 3])
  have sum: "(\<Sum>i < length ?ps. int (length (latency_reports ?ps i))) = 2"
    using arg_cong [OF n, of "\<lambda>xs. int (sum_list xs)"]
    by (simp add: interv_sum_list_conv_sum_set_nat atLeast0LessThan del: length_replicate)
  have small: "sum_list (map (\<lambda>i. length (latency_reports ?ps i)) [0..<length ?ps]) < 2 ^ 48" unfolding n by simp
  from latency_counts_reports [OF small, where warmup = 0 and l = 7 and perf = of_nat and e = ValueError and path = "lit ''x''"
      and b = "new_bench 0" and w = "sample_world None"]
  obtain r b' w' where r: "measure_latency 7 of_nat (\<lambda>_. Inr ?ps) (lit ''x'') 0 (new_bench 0, sample_world None) = (Inr r, (b', w'))"
    "case r of None \<Rightarrow> \<forall>i < length ?ps. latency_reports ?ps i = []
      | Some st \<Rightarrow> latency_count st = (\<Sum>i < length ?ps. int (length (latency_reports ?ps i)))" by blast
  then obtain st where "r = Some st" using not_all by (cases r) simp_all
  with r show ?thesis unfolding sum by auto
qed

end
