(* ===== verification/Synthetic_Load.thy ===== *)
theory Synthetic_Load
  imports Benchmarks
begin

text \<open>
  \<open>measure_max_pps\<close> of \<open>benchmarks/run_benchmarks.py\<close>: the generated packets, the unpaced run
  and the sustained run with its depth samples. \<open>perf\<close> gives the successive readings of
  \<open>time.perf_counter()\<close> and decides how many packets the sustained loop injects; since it may
  stand still the loop has fuel. \<open>takes\<close> says how many events the consumer task gets at each
  yield of the loop.
\<close>

definition synthetic_load :: bytes where
  "synthetic_load = map of_int (lit ''GET / HTTP/1.1'' @ [13, 10] @ lit ''Host: x'' @ [13, 10, 13, 10])"

definition make_synthetic_packet :: "int \<Rightarrow> packet" where
  "make_synthetic_packet i =
     \<lparr>pk_ip = Some \<lparr>ip_src = lit ''10.0.'' @ dec ((i div 250) mod 255) @ lit ''.'' @ dec (i mod 250),
        ip_dst = lit ''10.0.0.1'', ip_proto = 6\<rparr>,
      pk_tcp = Some \<lparr>tcp_sport = 1000 + i mod 5000, tcp_dport = 80, tcp_seq = 1000 + i, tcp_flags = lit ''A'',
        tcp_payload = synthetic_load\<rparr>,
      pk_sctp_init = False, pk_raw = Some synthetic_load\<rparr>"

definition load_packet :: "packet \<Rightarrow> (bench \<times> 'a world_scheme, unit) op" where
  "load_packet p = and_then (bench_log p) (\<lambda>_. and_then (with_b_tcp (tcp_process_packet p)) (\<lambda>_.
     with_b_sctp (sctp_process_packet p)))"

text \<open>What the consumer task gets while the loop sleeps, before and after the callbacks run.\<close>

definition consume :: "nat \<Rightarrow> 'a world_scheme \<Rightarrow> nat \<times> 'a world_scheme" where
  "consume k w = (let n = min k (length (queue (ENGINE w)))
     in (n, w\<lparr>ENGINE := (ENGINE w)\<lparr>queue := drop n (queue (ENGINE w))\<rparr>\<rparr>))"

definition yield_to_consumer :: "loop_id \<Rightarrow> nat \<times> nat \<Rightarrow> ('a world_scheme, nat) op" where
  "yield_to_consumer l k = (\<lambda>w. case consume (fst k) w of (m, w1) \<Rightarrow>
     (case consume (snd k) (deliver l w1) of (n, w2) \<Rightarrow> (Inr (m + n), w2)))"

text \<open>The sustained loop from the \<open>i\<close>-th packet on; \<open>running i\<close> is its condition at the \<open>i\<close>-th
  reading. The result is the number of packets, the depth samples and the events consumed.\<close>

fun load_loop :: "loop_id \<Rightarrow> (nat \<Rightarrow> nat \<times> nat) \<Rightarrow> (nat \<Rightarrow> bool) \<Rightarrow> nat \<Rightarrow> nat \<Rightarrow> int list \<Rightarrow> nat
   \<Rightarrow> (bench \<times> 'a world_scheme, (nat \<times> int list \<times> nat) option) op" where
  "load_loop l takes running 0 i samples drained = ret None"
| "load_loop l takes running (Suc fuel) i samples drained =
     (if running i then
        and_then (load_packet (make_synthetic_packet (int i))) (\<lambda>_.
          if Suc i mod 500 = 0 then
            and_then (outside (yield_to_consumer l (takes i))) (\<lambda>k.
            and_then (outside (ask (\<lambda>w. qsize (ENGINE w)))) (\<lambda>depth.
              load_loop l takes running fuel (Suc i) (samples @ [depth]) (drained + k)))
          else load_loop l takes running fuel (Suc i) samples drained)
      else ret (Some (i, samples, drained)))"

definition mean_of :: "int list \<Rightarrow> pyfloat" where
  "mean_of xs = fl (of_int (sum_list xs) / of_nat (length xs))"

definition growing_backlog :: "int list \<Rightarrow> bool" where
  "growing_backlog samples \<longleftrightarrow> 4 \<le> length samples
     \<and> (let half = length samples div 2
        in fl (float_mult (mean_of (take half samples)) (3/2) + 5) < mean_of (drop half samples))"

record pps_stats =
  max_raw_pps :: pyfloat
  sample_size :: int
  elapsed_s :: pyfloat
  sustained_seconds :: pyfloat
  sustained_packets_injected :: int
  sustained_actual_pps :: pyfloat
  sustained_events_drained :: int
  queue_depth_samples :: "int list"
  backlog_growing_under_sustained_load :: bool

definition pps_stats_of :: "int \<Rightarrow> pyfloat \<Rightarrow> pyfloat \<Rightarrow> nat \<Rightarrow> int list \<Rightarrow> nat \<Rightarrow> pps_stats" where
  "pps_stats_of packets elapsed secs n samples drained =
     (let max_pps = if 0 < elapsed then fl (of_int packets / elapsed) else 0
      in \<lparr>max_raw_pps = round_to 1 max_pps, sample_size = packets, elapsed_s = round_to 4 elapsed,
          sustained_seconds = secs, sustained_packets_injected = int n,
          sustained_actual_pps = round_to 1 (fl (of_nat n / secs)), sustained_events_drained = int drained,
          queue_depth_samples = samples, backlog_growing_under_sustained_load = growing_backlog samples\<rparr>)"

definition fresh_bench :: "loop_id \<Rightarrow> (bench \<times> 'a world_scheme, unit) op" where
  "fresh_bench l = and_then (outside (swap_engine (bench_engine l))) (\<lambda>_. own (\<lambda>_. new_bench 999999))"

definition keeps_running :: "(nat \<Rightarrow> pyfloat) \<Rightarrow> pyfloat \<Rightarrow> nat \<Rightarrow> bool" where
  "keeps_running perf secs i \<longleftrightarrow> float_sub (perf (3 + i)) (perf 2) < secs"

definition measure_max_pps :: "loop_id \<Rightarrow> (nat \<Rightarrow> nat \<times> nat) \<Rightarrow> (nat \<Rightarrow> pyfloat) \<Rightarrow> nat \<Rightarrow> int \<Rightarrow> pyfloat
   \<Rightarrow> (bench \<times> 'a world_scheme, pps_stats option) op" where
  "measure_max_pps l takes perf fuel packets secs =
     and_then (fresh_bench l) (\<lambda>_.
     and_then (for_each load_packet (map make_synthetic_packet [0..packets - 1])) (\<lambda>_.
     and_then (fresh_bench l) (\<lambda>_.
     and_then (load_loop l takes (keeps_running perf secs) fuel 0 [] 0) (\<lambda>r. case r of
         None \<Rightarrow> ret None
       | Some (n, samples, drained) \<Rightarrow>
           and_then (outside (yield_to_consumer l (takes n))) (\<lambda>k.
             if secs = 0 then raise_err ZeroDivisionError
             else ret (Some (pps_stats_of packets (float_sub (perf 1) (perf 0)) secs n samples (drained + k))))))))"

section \<open>The generated connections\<close>

abbreviation synthetic :: "nat \<Rightarrow> packet" where
  "synthetic i \<equiv> make_synthetic_packet (int i)"

definition synthetic_key :: "nat \<Rightarrow> ConnKey" where
  "synthetic_key i = (lit ''10.0.'' @ dec (int i div 250 mod 255) @ lit ''.'' @ dec (int i mod 250),
     lit ''10.0.0.1'', 1000 + int i mod 5000, 80)"

lemma load_size: "length synthetic_load = 27"
  by code_simp

lemma load_clean: "payload_reports None None (synthetic i) = []"
proof -
  have "scan_payload synthetic_load None None = []" by code_simp
  then show ?thesis by (simp add: payload_reports_def extract_tcp_payload_def make_synthetic_packet_def)
qed

lemma split_at_unique: "x \<notin> set xs \<Longrightarrow> x \<notin> set zs \<Longrightarrow> xs @ x # ys = zs @ x # ws \<Longrightarrow> xs = zs \<and> ys = ws"
  by (induction xs arbitrary: zs) (auto simp: Cons_eq_append_conv append_eq_Cons_conv)

lemma dotted_inject:
  assumes "0 \<le> a" "0 \<le> c"
  shows "dec a @ lit ''.'' @ dec b = dec c @ lit ''.'' @ dec d \<longleftrightarrow> a = c \<and> b = d"
proof -
  have "46 \<notin> set (dec a)" "46 \<notin> set (dec c)"
    using dec_nonneg_chars [OF assms(1), of 46] dec_nonneg_chars [OF assms(2), of 46] by auto
  then have "dec a @ 46 # dec b = dec c @ 46 # dec d \<longleftrightarrow> dec a = dec c \<and> dec b = dec d"
    using split_at_unique [of 46 "dec a" "dec c" "dec b" "dec d"] by metis
  then show ?thesis by (simp add: lit_def)
qed

lemma address_parts: "x mod 63750 = 250 * (x div 250 mod 255) + x mod 250" for x :: int
  using zmod_zmult2_eq [of 255 x 250] by simp

lemma common_multiple: "63750 dvd d \<Longrightarrow> 5000 dvd d \<Longrightarrow> 255000 dvd d" for d :: int
proof -
  assume "63750 dvd d" "5000 dvd d"
  then obtain a b where ab: "d = 63750 * a" "d = 5000 * b" unfolding dvd_def by blast
  then have "51 * a = 4 * b" by simp
  then have "4 dvd a" by presburger
  then obtain c where "a = 4 * c" unfolding dvd_def by blast
  with ab(1) show ?thesis by simp
qed

lemma period:
  "int i div 250 mod 255 = int j div 250 mod 255 \<and> int i mod 250 = int j mod 250 \<and> int i mod 5000 = int j mod 5000
   \<longleftrightarrow> i mod 255000 = j mod 255000"
  (is "?parts \<longleftrightarrow> _")
proof -
  have parts: "250 * p + r = 250 * q + s \<and> r = s \<and> C \<longleftrightarrow> p = q \<and> r = s \<and> C" for p q r s :: int and C
    by auto
  have "?parts \<longleftrightarrow> int i mod 63750 = int j mod 63750 \<and> int i mod 250 = int j mod 250 \<and> int i mod 5000 = int j mod 5000"
    by (simp only: address_parts parts)
  also have "\<dots> \<longleftrightarrow> 63750 dvd int i - int j \<and> 250 dvd int i - int j \<and> 5000 dvd int i - int j"
    by (simp add: mod_eq_dvd_iff)
  also have "\<dots> \<longleftrightarrow> 255000 dvd int i - int j"
  proof -
    have "63750 dvd d \<and> 250 dvd d \<and> 5000 dvd d" if "255000 dvd d" for d :: int
      using that dvd_trans [of _ 255000 d] by simp
    then show ?thesis using common_multiple [of "int i - int j"] by blast
  qed
  also have "\<dots> \<longleftrightarrow> int (i mod 255000) = int (j mod 255000)"
    by (simp add: mod_eq_dvd_iff [symmetric] zmod_int)
  finally show ?thesis by simp
qed

lemma synthetic_key_eq: "synthetic_key i = synthetic_key j \<longleftrightarrow> i mod 255000 = j mod 255000"
  unfolding period [symmetric] by (simp add: synthetic_key_def dotted_inject)

text \<open>A connection comes back every 255000 packets, each time 255000 sequence numbers further on.\<close>

definition synthetic_segment :: "nat \<Rightarrow> tcp_segment" where
  "synthetic_segment i = \<lparr>tcp_sport = 1000 + int i mod 5000, tcp_dport = 80, tcp_seq = 1000 + int i,
     tcp_flags = lit ''A'', tcp_payload = synthetic_load\<rparr>"

lemma synthetic_conn: "conn_of (synthetic i) = Some (synthetic_key i, synthetic_segment i)"
  by (simp add: conn_of_def conn_key_def make_synthetic_packet_def synthetic_key_def synthetic_segment_def)

lemma synthetic_bump: "expected_bump (synthetic_segment i) = 27"
  by (simp add: expected_bump_def synthetic_segment_def load_size lit_def)

definition synthetic_state :: "nat \<Rightarrow> nat \<Rightarrow> conn_state" where
  "synthetic_state r m = (if m \<le> r then None
     else let k = (m - 1 - r) div 255000 in Some (1000 + int (r + 255000 * k), int k))"

lemma synthetic_state_other:
  assumes "m mod 255000 \<noteq> r" "r < 255000"
  shows "synthetic_state r (Suc m) = synthetic_state r m"
proof (cases "m < r")
  case False
  with assms have "r < m" by (metis mod_less nat_neq_iff)
  moreover have "\<not> 255000 dvd m - r"
    using assms \<open>r < m\<close> by (metis add_diff_inverse_nat dvd_minus_mod less_imp_not_less mod_less mod_eq_dvd_iff_nat less_or_eq_imp_le)
  ultimately show ?thesis
    using div_Suc [of "m - r - 1" 255000] by (auto simp: synthetic_state_def Let_def Suc_diff_Suc dvd_eq_mod_eq_0)
qed (simp add: synthetic_state_def)

lemma synthetic_state_same:
  assumes "r < 255000"
  shows "synthetic_state r (r + 255000 * k) = (if k = 0 then None else Some (1000 + int (r + 255000 * (k - 1)), int (k - 1)))"
    "synthetic_state r (Suc (r + 255000 * k)) = Some (1000 + int (r + 255000 * k), int k)"
proof -
  have "(r + 255000 * k - 1 - r) div 255000 = k - 1" if "0 < k"
    using that by (cases k) (simp_all add: div_add_self1)
  then show "synthetic_state r (r + 255000 * k) = (if k = 0 then None else Some (1000 + int (r + 255000 * (k - 1)), int (k - 1)))"
    by (auto simp: synthetic_state_def Let_def)
  show "synthetic_state r (Suc (r + 255000 * k)) = Some (1000 + int (r + 255000 * k), int k)"
    by (simp add: synthetic_state_def)
qed

lemma synthetic_step:
  "conn_step 100000 (synthetic_segment m) (synthetic_state (m mod 255000) m) = synthetic_state (m mod 255000) (Suc m)"
    "conn_gives 100000 key (synthetic_segment m) (synthetic_state (m mod 255000) m) =
      (if m < 255000 then []
       else [hijack_report key (int m - 254000) (int m + 1000) 255000 27 (int (m div 255000))])"
proof -
  let ?r = "m mod 255000" and ?k = "m div 255000"
  have m: "m = ?r + 255000 * ?k" by simp
  have s: "synthetic_state ?r m = (if ?k = 0 then None else Some (1000 + int (?r + 255000 * (?k - 1)), int (?k - 1)))"
    "synthetic_state ?r (Suc m) = Some (1000 + int m, int ?k)"
    using synthetic_state_same [of ?r ?k] m by simp_all
  have seq: "tcp_seq (synthetic_segment m) = 1000 + int m" by (simp add: synthetic_segment_def)
  have "conn_step 100000 (synthetic_segment m) (synthetic_state ?r m) = Some (1000 + int m, int ?k)
    \<and> conn_gives 100000 key (synthetic_segment m) (synthetic_state ?r m) =
      (if m < 255000 then [] else [hijack_report key (int m - 254000) (int m + 1000) 255000 27 (int ?k)])"
  proof (cases "?k = 0")
    case True
    then have "synthetic_state ?r m = None" "m < 255000" using s(1) by (simp_all add: div_eq_0_iff)
    then show ?thesis unfolding conn_step_def conn_gives_def by (simp add: seq)
  next
    case False
    then obtain k where k: "?k = Suc k" by (cases ?k) auto
    then have base: "1000 + int (?r + 255000 * k) = int m - 254000" using m by simp
    have "\<not> m < 255000" using False by (simp add: div_eq_0_iff)
    moreover have "synthetic_state ?r m = Some (int m - 254000, int k)" using s(1) k base by simp
    ultimately show ?thesis
      by (simp add: conn_step_def conn_gives_def seq seq_delta_def synthetic_bump k add.commute)
  qed
  with s(2) show "conn_step 100000 (synthetic_segment m) (synthetic_state ?r m) = synthetic_state ?r (Suc m)"
    "conn_gives 100000 key (synthetic_segment m) (synthetic_state ?r m) =
      (if m < 255000 then [] else [hijack_report key (int m - 254000) (int m + 1000) 255000 27 (int ?k)])"
    by simp_all
qed

lemma synthetic_fold:
  "fold (conn_step 100000) (segments (synthetic_key j) (map synthetic [0..<m])) None = synthetic_state (j mod 255000) m"
proof (induction m)
  case 0
  then show ?case by (simp add: synthetic_state_def)
next
  case (Suc m)
  show ?case
  proof (cases "m mod 255000 = j mod 255000")
    case True
    then show ?thesis
      using Suc synthetic_step(1) [of m] by (simp add: synthetic_conn synthetic_key_eq)
  next
    case False
    then show ?thesis
      using Suc synthetic_state_other [of m "j mod 255000"] by (simp add: synthetic_conn synthetic_key_eq)
  qed
qed

text \<open>What the detector of the sustained run has seen before the \<open>i\<close>-th packet, and what it
  says of that packet: nothing below the period, one report each from then on.\<close>

definition load_view :: "nat \<Rightarrow> tcp_view" where
  "load_view i = fold tcp_follow (map synthetic [0..<i]) (tcp_view (new_tcp_detector 100000))"

lemma load_view_Suc: "tcp_follow (synthetic i) (load_view i) = load_view (Suc i)"
  by (simp add: load_view_def)

lemma load_gives: "tcp_gives (load_view i) (synthetic i) =
   (if i < 255000 then []
    else [hijack_report (synthetic_key i) (int i - 254000) (int i + 1000) 255000 27 (int (i div 255000))])"
proof -
  have thr: "fst (tcp_view (new_tcp_detector 100000)) = 100000" by (simp add: tcp_view_def new_tcp_detector_def)
  have "connection (synthetic_key i) (load_view i) = synthetic_state (i mod 255000) i"
    using synthetic_fold [of i i] by (simp add: load_view_def connection_fold connection_new thr)
  then show ?thesis
    using synthetic_step(2) [of "synthetic_key i" i] thr by (simp add: tcp_gives_def synthetic_conn load_view_def)
qed

lemma load_step:
  assumes "bound l w" "tcp_view (b_tcp b) = load_view i"
  shows "\<exists>b' w'. load_packet (synthetic i) (b, w) = (Inr (), (b', w')) \<and> tcp_view (b_tcp b') = load_view (Suc i)
    \<and> emitted (tcp_gives (load_view i) (synthetic i)) w w'"
proof -
  have log: "bench_log (synthetic i) (b, w) = (Inr (), (b, w))"
    by (simp add: bench_log_def on_part_apply log_packet_eq load_clean ret_apply)
  from tcp_packets.step_bound [OF assms(1), of "synthetic i" "b_tcp b"] assms(2) obtain d w1 where
    d: "tcp_process_packet (synthetic i) (b_tcp b, w) = (Inr (), (d, w1))" "tcp_view d = load_view (Suc i)"
      "emitted (tcp_gives (load_view i) (synthetic i)) w w1"
    by (auto simp: load_view_Suc)
  have "load_packet (synthetic i) (b, w) =
      (Inr (), (b\<lparr>b_tcp := d, b_sctp := fold count_init (init_source (synthetic i)) (b_sctp b)\<rparr>, w1))"
    by (simp add: load_packet_def and_then_apply log with_b_tcp_def with_b_sctp_def on_part_apply d(1) process_eq)
  with d(2,3) show ?thesis by simp
qed

section \<open>The sustained run\<close>

text \<open>The events on their way to the consumer.\<close>

definition pending :: "loop_id \<Rightarrow> 'a world_scheme \<Rightarrow> nat" where
  "pending l w = length (queue (ENGINE w)) + length (ready (ENGINE w) l)"

definition open_bus :: "loop_id \<Rightarrow> 'a world_scheme \<Rightarrow> bool" where
  "open_bus l w \<longleftrightarrow> bound l w \<and> maxsize (ENGINE w) \<le> 0"

lemma emitted_pending:
  assumes "emitted rs w w'" "open_bus l w"
  shows "pending l w' = pending l w + length rs" "open_bus l w'"
proof -
  obtain es where es: "map report_of es = rs" "ENGINE w' = posted es (ENGINE w)"
    using assms(1) by (auto simp: emitted_def)
  have "length es = length rs" using es(1) by (metis length_map)
  then show "pending l w' = pending l w + length rs"
    using assms(2) es(2) by (simp add: pending_def open_bus_def bound_def posted_ready)
  show "open_bus l w'" using assms(2) es(2) by (simp add: open_bus_def bound_def)
qed

lemma deliver_pending:
  assumes "open_bus l w"
  shows "pending l (deliver l w) = pending l w" "open_bus l (deliver l w)" "ready (ENGINE (deliver l w)) l = []"
  using assms run_callbacks_all [of "ENGINE w" l "ready (ENGINE w) l"]
  by (simp_all add: pending_def open_bus_def deliver_def bound_def)

lemma consume_pending:
  assumes "consume k w = (n, w')"
  shows "pending l w = n + pending l w'" "open_bus l w' = open_bus l w" "ready (ENGINE w') = ready (ENGINE w)"
  using assms by (auto simp: consume_def Let_def pending_def open_bus_def bound_def)

lemma yield_pending:
  assumes "open_bus l w"
  shows "\<exists>n w'. yield_to_consumer l k w = (Inr n, w') \<and> n + pending l w' = pending l w \<and> open_bus l w'
    \<and> qsize (ENGINE w') = int (pending l w')"
proof -
  obtain m w1 where m: "consume (fst k) w = (m, w1)" by (cases "consume (fst k) w")
  obtain n w2 where n: "consume (snd k) (deliver l w1) = (n, w2)" by (cases "consume (snd k) (deliver l w1)")
  note c = consume_pending [OF m] and d = consume_pending [OF n]
  have "open_bus l w1" using c(2) assms by simp
  note r = deliver_pending [OF this]
  show ?thesis
    using m n c(1) [of l] d(1,2) [of l] d(3) r by (simp add: yield_to_consumer_def qsize_def) (simp add: pending_def)
qed

lemma load_loop_runs:
  assumes "\<forall>j < n. running (i + j)" "\<not> running (i + n)" "n < fuel" "open_bus l w" "tcp_view (b_tcp b) = load_view i"
  shows "\<exists>T D' b' w'. load_loop l takes running fuel i S D (b, w) = (Inr (Some (i + n, S @ T, D')), (b', w'))
    \<and> D' + pending l w' + (i - 255000) = D + pending l w + (i + n - 255000) \<and> open_bus l w'
    \<and> length T = (i + n) div 500 - i div 500
    \<and> (\<forall>x \<in> set T. 0 \<le> x \<and> x + int (i - 255000) \<le> int (pending l w + (i + n - 255000)))"
  using assms
proof (induction n arbitrary: fuel i S D b w)
  case 0
  then obtain f where "fuel = Suc f" by (cases fuel) auto
  with 0 show ?case by (simp add: ret_apply)
next
  case (Suc n)
  then obtain f where f: "fuel = Suc f" by (cases fuel) auto
  have run: "running i" "\<forall>j < n. running (Suc i + j)" "\<not> running (Suc i + n)" "n < f"
    using Suc.prems(1-3) f by (auto dest: spec [of _ 0] spec [of _ "Suc _"])
  from Suc.prems(4) have "bound l w" by (simp add: open_bus_def)
  from load_step [OF this Suc.prems(5)] obtain b1 w1 where
    s: "load_packet (synthetic i) (b, w) = (Inr (), (b1, w1))" "tcp_view (b_tcp b1) = load_view (Suc i)"
      "emitted (tcp_gives (load_view i) (synthetic i)) w w1" by blast
  note e = emitted_pending [OF s(3) Suc.prems(4)]
  have p: "pending l w1 + (i - 255000) = pending l w + (Suc i - 255000)" using e(1) by (auto simp: load_gives)
  show ?case
  proof (cases "Suc i mod 500 = 0")
    case False
    from Suc.IH [OF run(2-4) e(2) s(2), of S D] obtain T D' b' w' where
      t: "load_loop l takes running f (Suc i) S D (b1, w1) = (Inr (Some (Suc i + n, S @ T, D')), (b', w'))"
        "D' + pending l w' + (Suc i - 255000) = D + pending l w1 + (Suc i + n - 255000)" "open_bus l w'"
        "length T = (Suc i + n) div 500 - Suc i div 500"
        "\<forall>x \<in> set T. 0 \<le> x \<and> x + int (Suc i - 255000) \<le> int (pending l w1 + (Suc i + n - 255000))" by blast
    have "Suc i div 500 = i div 500" using False by (simp add: div_Suc)
    moreover have "load_loop l takes running fuel i S D (b, w) = load_loop l takes running f (Suc i) S D (b1, w1)"
      using False by (simp add: f run(1) and_then_apply s(1))
    ultimately show ?thesis
      using t p by (intro exI [of _ T] exI [of _ D'] exI [of _ b'] exI [of _ w']) auto
  next
    case True
    from yield_pending [OF e(2), of "takes i"] obtain k w2 where
      y: "yield_to_consumer l (takes i) w1 = (Inr k, w2)" "k + pending l w2 = pending l w1" "open_bus l w2"
        "qsize (ENGINE w2) = int (pending l w2)" by blast
    let ?x = "qsize (ENGINE w2)"
    from Suc.IH [OF run(2-4) y(3) s(2), of "S @ [?x]" "D + k"] obtain T D' b' w' where
      t: "load_loop l takes running f (Suc i) (S @ [?x]) (D + k) (b1, w2) =
          (Inr (Some (Suc i + n, S @ ?x # T, D')), (b', w'))"
        "D' + pending l w' + (Suc i - 255000) = D + k + pending l w2 + (Suc i + n - 255000)" "open_bus l w'"
        "length T = (Suc i + n) div 500 - Suc i div 500"
        "\<forall>x \<in> set T. 0 \<le> x \<and> x + int (Suc i - 255000) \<le> int (pending l w2 + (Suc i + n - 255000))" by auto
    have div: "Suc i div 500 = Suc (i div 500)" using True by (simp add: div_Suc)
    have "Suc i div 500 \<le> (Suc i + n) div 500" by (intro div_le_mono) simp
    then have "length (?x # T) = (i + Suc n) div 500 - i div 500" using t(4) div by (simp add: Suc_diff_Suc)
    moreover have "load_loop l takes running fuel i S D (b, w) =
        load_loop l takes running f (Suc i) (S @ [?x]) (D + k) (b1, w2)"
      using True by (simp add: f run(1) and_then_apply s(1) outside_apply y(1) ask_apply)
    moreover have "\<forall>x \<in> set (?x # T). 0 \<le> x \<and> x + int (i - 255000) \<le> int (pending l w + (i + Suc n - 255000))"
      using t(5) p y(2,4) by fastforce
    moreover have "D' + pending l w' + (i - 255000) = D + pending l w + (i + Suc n - 255000)" using t(2) p y(2) by simp
    ultimately show ?thesis
      using t(1,3) by (intro exI [of _ "?x # T"] exI [of _ D'] exI [of _ b'] exI [of _ w']) simp
  qed
qed

lemma load_packets_run:
  assumes "bound l w" "tcp_view (b_tcp b) = load_view i"
  shows "\<exists>b' w'. for_each load_packet (map synthetic [i..<i + n]) (b, w) = (Inr (), (b', w'))"
  using assms
proof (induction n arbitrary: i b w)
  case 0
  then show ?case by (simp add: ret_apply)
next
  case (Suc n)
  from load_step [OF Suc.prems] obtain b1 w1 where
    s: "load_packet (synthetic i) (b, w) = (Inr (), (b1, w1))" "tcp_view (b_tcp b1) = load_view (Suc i)"
      "emitted (tcp_gives (load_view i) (synthetic i)) w w1" by blast
  then have "bound l w1" using Suc.prems(1) emitted_bound by blast
  from Suc.IH [OF this s(2)] show ?case by (simp add: upt_conv_Cons and_then_apply s(1) del: upt_Suc)
qed

lemma fresh_bench_eq: "fresh_bench l (b, w) = (Inr (), (new_bench 999999, w\<lparr>ENGINE := bench_engine l\<rparr>))"
  by (simp add: fresh_bench_def and_then_apply outside_apply own_apply swap_engine_def change_apply)

lemma no_backlog: "\<not> growing_backlog (replicate k 0)"
  by (simp add: growing_backlog_def mean_of_def float_mult_def Let_def sum_list_replicate)

lemma synthetic_load_run:
  assumes "\<forall>i < n. keeps_running perf secs i" "\<not> keeps_running perf secs n" "n < fuel" "secs \<noteq> 0"
  shows "\<exists>stats b' w'. measure_max_pps l takes perf fuel packets secs (b, w) = (Inr (Some stats), (b', w'))
    \<and> sustained_packets_injected stats = int n
    \<and> sustained_events_drained stats + qsize (ENGINE w') = int (n - 255000)
    \<and> length (queue_depth_samples stats) = n div 500
    \<and> (n \<le> 255000 \<longrightarrow> queue_depth_samples stats = replicate (n div 500) 0
        \<and> \<not> backlog_growing_under_sustained_load stats)"
proof -
  let ?w = "w\<lparr>ENGINE := bench_engine l\<rparr>" and ?b = "new_bench 999999"
  have v: "tcp_view (b_tcp ?b) = load_view 0" by (simp add: load_view_def new_bench_def)
  have open_w: "open_bus l (x\<lparr>ENGINE := bench_engine l\<rparr>)" "pending l (x\<lparr>ENGINE := bench_engine l\<rparr>) = 0" for x :: "'a world_scheme"
    by (simp_all add: open_bus_def bound_def pending_def)
  then have "bound l ?w" by (simp add: open_bus_def)
  from load_packets_run [OF this v, of "nat packets"] obtain b1 w1 where
    a: "for_each load_packet (map synthetic [0..<nat packets]) (?b, ?w) = (Inr (), (b1, w1))" by auto
  have range: "map make_synthetic_packet [0..packets - 1] = map synthetic [0..<nat packets]"
    by (rule nth_equalityI) (simp_all add: nth_upto)
  let ?w1 = "w1\<lparr>ENGINE := bench_engine l\<rparr>"
  from load_loop_runs [of n "keeps_running perf secs" 0 fuel l ?w1 ?b takes "[]" 0] assms(1-3) open_w [of w1] v
  obtain T D b2 w2 where
    t: "load_loop l takes (keeps_running perf secs) fuel 0 [] 0 (?b, ?w1) = (Inr (Some (n, T, D)), (b2, w2))"
      "D + pending l w2 = n - 255000" "open_bus l w2" "length T = n div 500"
      "\<forall>x \<in> set T. 0 \<le> x \<and> x \<le> int (n - 255000)"
    by auto
  from yield_pending [OF t(3), of "takes n"] obtain k w3 where
    y: "yield_to_consumer l (takes n) w2 = (Inr k, w3)" "k + pending l w3 = pending l w2"
      "qsize (ENGINE w3) = int (pending l w3)" by blast
  let ?stats = "pps_stats_of packets (float_sub (perf 1) (perf 0)) secs n T (D + k)"
  have "measure_max_pps l takes perf fuel packets secs (b, w) = (Inr (Some ?stats), (b2, w3))"
    using assms(4) by (simp add: measure_max_pps_def and_then_apply fresh_bench_eq range a t(1) outside_apply y(1) ret_apply)
  moreover have "int (D + k) + qsize (ENGINE w3) = int (n - 255000)" using t(2) y(2,3) by simp
  moreover have "T = replicate (n div 500) 0" if "n \<le> 255000"
  proof -
    have "\<forall>x \<in> set T. x = 0" using t(5) that by fastforce
    then show ?thesis using t(4) by (metis replicate_eqI)
  qed
  ultimately show ?thesis
    using t(4) no_backlog [of "n div 500"] by (auto simp: pps_stats_of_def Let_def)
qed

text \<open>C40: the load of the throughput benchmark exercises no detection for its first 255000 packets
  and flags every packet after them: whatever the timings and the consumer do, the run returns
  once the clock stops it, takes a depth sample every 500 packets, and events consumed and left
  over make up exactly the packets beyond 255000. Up to that number every depth sample is zero,
  so the backlog check that the run is for cannot report anything but a stable queue.\<close>

theorem synthetic_load_reports:
  assumes "\<forall>i < n. keeps_running perf secs i" "\<not> keeps_running perf secs n" "n < fuel" "secs \<noteq> 0"
  shows "\<exists>stats b' w'. measure_max_pps l takes perf fuel packets secs (b, w) = (Inr (Some stats), (b', w'))
    \<and> sustained_packets_injected stats = int n
    \<and> sustained_events_drained stats + qsize (ENGINE w') = int (n - 255000)
    \<and> length (queue_depth_samples stats) = n div 500
    \<and> (n \<le> 255000 \<longrightarrow> queue_depth_samples stats = replicate (n div 500) 0
        \<and> \<not> backlog_growing_under_sustained_load stats)"
  using assms by (rule synthetic_load_run)

theorem synthetic_load_reports_witness:
  "\<exists>stats b' w'. measure_max_pps 7 (\<lambda>_. (0, 0)) of_nat 9 20 3 (new_bench 0, sample_world None) = (Inr (Some stats), (b', w'))
    \<and> sustained_packets_injected stats = 2 \<and> queue_depth_samples stats = []
    \<and> sustained_events_drained stats + qsize (ENGINE w') = 0"
proof -
  have run: "keeps_running of_nat 3 i \<longleftrightarrow> fl (of_int (int i + 1)) < 3" for i
    by (simp add: keeps_running_def float_sub_def algebra_simps)
  have "\<forall>i < 2. keeps_running of_nat 3 i" "\<not> keeps_running of_nat 3 2"
    unfolding run by (auto simp: less_2_cases_iff fl_of_int simp del: of_int_add)
  from synthetic_load_reports [OF this, of 9 7 "\<lambda>_. (0, 0)" 20 "new_bench 0" "sample_world None"] show ?thesis
    by auto
qed

end
