(* ===== verification/Bench_Main.thy ===== *)
theory Bench_Main
  imports Latency Synthetic_Load
begin

text \<open>
  \<open>main\<close> of \<open>benchmarks/run_benchmarks.py\<close>: the three measurements one after another, without
  the lines it prints. Each measurement has its own readings of the clock.
\<close>

definition latency_captures :: "str list" where
  "latency_captures = map (\<lambda>f. lit ''testdata/pcaps/'' @ f @ lit ''.pcap'')
     [lit ''02_nop_sled'', lit ''03_repeated_byte_pad'', lit ''04_got_pointer'', lit ''05_combo_exploit'',
      lit ''06_sctp_init_flood'', lit ''07_tcp_hijack'']"

definition benign_capture :: str where
  "benign_capture = lit ''testdata/pcaps/08_benign_web_traffic.pcap''"

fun latency_runs :: "loop_id \<Rightarrow> (nat \<Rightarrow> nat \<Rightarrow> pyfloat) \<Rightarrow> (str \<Rightarrow> py_error + packet list) \<Rightarrow> nat \<Rightarrow> str list
   \<Rightarrow> (bench \<times> 'a world_scheme, latency_stats option list) op" where
  "latency_runs l perf rdpcap k [] = ret []"
| "latency_runs l perf rdpcap k (pcap # pcaps) =
     and_then (measure_latency l (perf k) rdpcap pcap 0) (\<lambda>stats.
     and_then (latency_runs l perf rdpcap (Suc k) pcaps) (\<lambda>more. ret (stats # more)))"

definition bench_main :: "loop_id \<Rightarrow> (nat \<Rightarrow> nat \<Rightarrow> pyfloat) \<Rightarrow> (str \<Rightarrow> py_error + packet list) \<Rightarrow> (nat \<Rightarrow> nat \<times> nat) \<Rightarrow> nat
   \<Rightarrow> (bench \<times> 'a world_scheme, (latency_stats option list \<times> fp_stats \<times> pps_stats) option) op" where
  "bench_main l perf rdpcap takes fuel =
     and_then (latency_runs l perf rdpcap 0 latency_captures) (\<lambda>latencies.
     and_then (measure_false_positives l rdpcap benign_capture) (\<lambda>fp.
     and_then (measure_max_pps l takes (perf (length latency_captures)) fuel 20000 3) (\<lambda>pps.
       ret (map_option (\<lambda>p. (latencies, fp, p)) pps))))"

lemma latency_runs_return:
  assumes "\<forall>pcap \<in> set pcaps. \<exists>ps. rdpcap pcap = Inr ps
      \<and> sum_list (map (\<lambda>i. length (latency_reports ps i)) [0..<length ps]) < 2 ^ 48"
  shows "\<exists>rs b' w'. latency_runs l perf rdpcap k pcaps (b, w) = (Inr rs, (b', w')) \<and> length rs = length pcaps"
  using assms
proof (induction pcaps arbitrary: k b w)
  case Nil
  then show ?case by (simp add: ret_apply)
next
  case (Cons pcap pcaps)
  then obtain ps where ps: "rdpcap pcap = Inr ps" "sum_list (map (\<lambda>i. length (latency_reports ps i)) [0..<length ps]) < 2 ^ 48"
    by auto
  from latency_returns [where rdpcap = rdpcap and path = pcap, OF ps, of 0 l "perf k" b w] obtain r b1 w1 where
    r: "measure_latency l (perf k) rdpcap pcap 0 (b, w) = (Inr r, (b1, w1))" by auto
  from Cons.IH [of "Suc k" b1 w1] Cons.prems obtain rs b' w' where
    "latency_runs l perf rdpcap (Suc k) pcaps (b1, w1) = (Inr rs, (b', w'))" "length rs = length pcaps" by auto
  with r show ?case by (simp add: and_then_apply ret_apply)
qed

lemma latency_runs_unread:
  assumes "pcaps = as @ pcap # bs" "rdpcap pcap = Inl e"
    and "\<forall>a \<in> set as. \<exists>ps. rdpcap a = Inr ps \<and> sum_list (map (\<lambda>i. length (latency_reports ps i)) [0..<length ps]) < 2 ^ 48"
  shows "fst (latency_runs l perf rdpcap k pcaps (b, w)) = Inl e"
  using assms
proof (induction as arbitrary: pcaps k b w)
  case Nil
  obtain r s where m: "measure_latency l (perf k) rdpcap pcap 0 (b, w) = (r, s)" by (metis surj_pair)
  with latency_unread [of rdpcap pcap e l "perf k" 0 b w] Nil(2) have "r = Inl e" by simp
  then show ?case using Nil(1) m by (simp add: and_then_apply)
next
  case (Cons a as)
  then obtain ps where ps: "rdpcap a = Inr ps" "sum_list (map (\<lambda>i. length (latency_reports ps i)) [0..<length ps]) < 2 ^ 48"
    by auto
  from latency_returns [where rdpcap = rdpcap and path = a, OF ps, of 0 l "perf k" b w] obtain r b1 w1 where
    r: "measure_latency l (perf k) rdpcap a 0 (b, w) = (Inr r, (b1, w1))" by auto
  obtain r' s' where m: "latency_runs l perf rdpcap (Suc k) (as @ pcap # bs) (b1, w1) = (r', s')" by (metis surj_pair)
  with Cons.IH [of "as @ pcap # bs" "Suc k" b1 w1] Cons.prems(2,3) have "r' = Inl e" by simp
  then show ?case using Cons.prems(1) r m by (simp add: and_then_apply)
qed

text \<open>The benchmark delivers its whole report once every capture is readable and the clock ends the
  sustained run: six latency summaries, the benign capture's reports as false positives, and
  the throughput of as many packets as were injected. One unreadable capture among the six ends
  it with the reader's error before anything after that capture is measured.\<close>

theorem bench_main_completes:
  assumes "\<forall>pcap \<in> set latency_captures. \<exists>ps. rdpcap pcap = Inr ps
      \<and> sum_list (map (\<lambda>i. length (latency_reports ps i)) [0..<length ps]) < 2 ^ 48"
    and "rdpcap benign_capture = Inr qs"
    and "\<forall>i < n. keeps_running (perf 6) 3 i" "\<not> keeps_running (perf 6) 3 n" "n < fuel"
  shows "\<exists>latencies fp pps b' w'. bench_main l perf rdpcap takes fuel (b, w) = (Inr (Some (latencies, fp, pps)), (b', w'))
    \<and> length latencies = 6 \<and> false_positive_count fp = int (length (bench_reports 5 qs))
    \<and> sustained_packets_injected pps = int n"
proof -
  have six: "length latency_captures = 6" by (simp add: latency_captures_def)
  from latency_runs_return [OF assms(1), of l perf 0 b w] obtain rs b1 w1 where
    a: "latency_runs l perf rdpcap 0 latency_captures (b, w) = (Inr rs, (b1, w1))" "length rs = 6"
    by (auto simp: six)
  from false_positives_are_reports [where rdpcap = rdpcap and path = benign_capture and l = l and b = b1 and w = w1] assms(2) obtain fp b2 w2 where
    f: "measure_false_positives l rdpcap benign_capture (b1, w1) = (Inr fp, (b2, w2))"
      "false_positive_count fp = int (length (bench_reports 5 qs))" by auto
  have "(3::pyfloat) \<noteq> 0" by simp
  from synthetic_load_run [OF assms(3-5) this, of l takes 20000 b2 w2] obtain pps b3 w3 where
    p: "measure_max_pps l takes (perf 6) fuel 20000 3 (b2, w2) = (Inr (Some pps), (b3, w3))"
      "sustained_packets_injected pps = int n" by blast
  show ?thesis
    using a f p by (simp add: bench_main_def and_then_apply six ret_apply)
qed

theorem bench_main_completes_witness:
  "\<exists>latencies fp pps b' w'. bench_main 7 (\<lambda>_. of_nat) (\<lambda>_. Inr []) (\<lambda>_. (0, 0)) 9 (new_bench 0, sample_world None)
     = (Inr (Some (latencies, fp, pps)), (b', w')) \<and> length latencies = 6 \<and> sustained_packets_injected pps = 2"
proof -
  have run: "keeps_running of_nat 3 i \<longleftrightarrow> fl (of_int (int i + 1)) < 3" for i
    by (simp add: keeps_running_def float_sub_def algebra_simps)
  have "\<forall>i < 2. keeps_running of_nat 3 i" "\<not> keeps_running of_nat 3 2"
    unfolding run by (auto simp: less_2_cases_iff fl_of_int simp del: of_int_add)
  from bench_main_completes [where rdpcap = "\<lambda>_. Inr []" and perf = "\<lambda>_. of_nat" and qs = "[]", OF _ _ this, of 9 7 "\<lambda>_. (0, 0)"
      "new_bench 0" "sample_world None"] show ?thesis by auto
qed

end
