(* ===== verification/Spec2Isabelle.thy ===== *)
theory Spec2Isabelle
  imports Startup Ioc_Matcher Host_Threads Web_Sessions Live_Capture Elf_Disk Bench_Main
begin

text \<open>
  XDR-Correlator: detectors for network packets, files and the bpf() system call publish
  security events on one bus; a dashboard drains the bus, shows every event to the connected
  browsers and feeds a sliding-window correlator that raises an incident when one source shows
  a reconnaissance, an exploit and a persistence event. This development models the Python
  program under \<open>src/\<close> and proves what its parts and their composition do.

  \<^bold>\<open>Foundations.\<close> \<open>Prelude\<close> has the operations (\<open>op\<close>, explicit state passing with a Python
  exception as an alternative to the result; \<open>outside\<close>, \<open>own\<close>, \<open>look\<close> and \<open>on_part\<close> place an
  object's attributes beside the shared state), Python's strings as lists of code points,
  dictionaries in insertion order, the value tree \<open>pyval\<close> that stands for a JSON document, and
  the clock and \<open>uuid4\<close> as streams. \<open>Py_Float\<close> is the 53-bit rounded arithmetic, \<open>Py_Text\<close>
  UTF-8 decoding with its error handlers, \<open>repr\<close>, splitting and \<open>int()\<close>; \<open>Little_Endian\<close> is
  \<open>struct\<close>, \<open>Scanning\<close> and \<open>Counting\<close> are searching and tallying, \<open>Fifo\<close> is the contract of a
  queue (locales \<open>fifo\<close>, \<open>unbounded_fifo\<close>).

  \<^bold>\<open>The core\<close> (\<open>xdr/core\<close>, \<open>xdr/correlation\<close>). \<open>Events\<close>: \<open>SecurityEvent\<close> and its validation.
  \<open>Alert_Queue\<close>: \<open>make_alert\<close>, \<open>push_alert\<close>, \<open>drain_all\<close>. \<open>Event_Bus\<close>: \<open>CorrelationEngine\<close>
  with the event loop's scheduled callbacks, and the interleavings of publishing threads, loop and
  consumer as a step relation: nothing is lost or reordered, events are dropped only on a
  full queue; a publication raises on an engine without a loop and on a closed loop. \<open>Stage_Map\<close> and \<open>Kill_Chain\<close>: \<open>KillChainCorrelator\<close>, when it escalates and what
  the report says. \<open>Kill_Chain_Spec\<close>: the abstract window (history and cutoff per source) that
  the deque refines, the locales \<open>incident_sink\<close> (a callback that may be awaited) and
  \<open>window_handler\<close> (an operation that slides the window), the second following from the first.

  \<^bold>\<open>The detectors.\<close> \<open>World\<close> is the state they share, with the statement that builds and publishes
  an event, and the locale \<open>detector\<close>: on an engine bound to an open loop a step returns and emits
  exactly the reports \<open>gives\<close>, on any other the first report raises. It is interpreted for every
  handler: \<open>Sctp_Detector\<close> (packets and threshold check), \<open>Tcp_Detector\<close>, \<open>Pcap_Investigator\<close>
  (which calls \<open>Payload_Scan\<close>), \<open>Correlator\<close> (\<open>XdrCorrelator\<close>), \<open>File_Watchdog\<close> and \<open>Ebpf_Hooks\<close>.
  \<open>Packets\<close> holds the fields the program reads of a scapy packet. Each theory relates its detector
  to a specification without dictionaries: the tally of a window, one automaton per TCP
  connection, maximal runs, planted pointers, ancestry in a process table.
  \<open>Elf_Analyzer\<close> and \<open>Got_Verify\<close> are \<open>xdr/binary/elf_analyzer.py\<close>: header, section walk,
  GOT range and the two comparisons with readelf; \<open>Elf_Disk\<close> has the same operations with the
  file \<open>sectionheader.txt\<close> on a disk that they share with the binary, and shows that they refine
  the ones that pass its text on directly. \<open>Live_Capture\<close> is \<open>run_live\<close> with the capture file it
  appends to and an interrupt inside a window, compared with the later analysis of that file.
  \<open>Ioc_Matcher\<close> is \<open>xdr/binary/ioc_matcher.py\<close>.

  \<^bold>\<open>The programs.\<close> \<open>Host_Monitors\<close> is \<open>run_host_monitors.py\<close>, threads in any order; \<open>Host_Threads\<close>
  has the same threads statement by statement, with the observer's start and stop and the end of
  the run, shows that they refine the coarser system and what the stop leaves behind. \<open>Dashboard\<close> is
  \<open>api/main.py\<close>: sockets may fail and browsers come and go during every send; \<open>broadcast\<close> and
  \<open>dashboard_event\<close> interpret the locales of \<open>Kill_Chain_Spec\<close>. \<open>Web_Sessions\<close> runs the browsers'
  sessions, the \<open>lifespan\<close> hook and the sends of a broadcast await by await and shows that a
  broadcast among them is the one of \<open>Dashboard\<close>. \<open>Main_Program\<close> has \<open>main\<close> of
  \<open>xdr/correlator.py\<close> and \<open>main.py\<close>. \<open>Pipeline\<close> follows a capture from the packets to the
  browsers and states when no incident can be raised. \<open>System\<close> runs all threads on one engine in
  every order and shows progress and preservation for well-typed events. \<open>Replay_Tasks\<close> splits the
  replay into the calls other threads can come between, down to single publications, and \<open>Startup\<close>
  runs them in \<open>main.py\<close> beside the server's thread, which may close its loop at any time, from the
  wait for \<open>engine_ready\<close> to the final join: what is published when the main thread ends or raises,
  interrupts and failing input, captures and arguments included. \<open>benchmarks/run_benchmarks.py\<close>
  is \<open>Benchmarks\<close> (false positives), \<open>Latency\<close> (the times of the events and the order of their
  summary, rounding included), \<open>Synthetic_Load\<close> (the generated packets, which first repeat a
  connection after 255000, and the sustained run with its depth samples) and \<open>Bench_Main\<close>, which
  takes the three one after another.

  \<^bold>\<open>Termination and bounds.\<close> Loops over data are recursive functions proved total (scanning by the
  remaining length, hashing by the rest of the file, the parent walk by the processes not seen
  yet, draining by the queue's length). \<open>wait_loop\<close> is a \<open>partial_function\<close>, as it may not end.
  The sustained benchmark loop has fuel: it is left when the clock says so, and any fuel above the
  number of readings until then is enough. Endless loops (\<open>run_live\<close>, the drain task, polling) are given the finite list of their turns;
  the theorems hold for every such list. \<open>drain_turns n\<close> takes exactly the number of events.
  Sequence numbers are integers compared with the 32-bit difference; bytes and process ids are
  words; Python's own integers are unbounded.

  \<^bold>\<open>Parameters.\<close> \<open>rdpcap\<close>, \<open>sniff\<close>, \<open>wrpcap\<close> (scapy; which windows it cannot write), the file system,
  what \<open>readelf\<close> writes (in \<open>Elf_Disk\<close> as a tool that runs on a disk),
  SHA-256, \<open>math.log2\<close>, the process table as read during one walk, the Unicode database's
  predicates beyond ASCII, the readings of \<open>time.perf_counter\<close>, and how many events the consumer
  task of the throughput benchmark gets while the loop yields.

  \<^bold>\<open>Not modelled.\<close> Text printed to the terminal, except the readelf verdicts, and errors of printing;
  argument parsing, except that it may exit; threads that cannot be started; JSON
  text (documents are value trees, and whether \<open>json.dumps\<close> accepts them is modelled); the exponent range
  of floats, infinities and NaN; booleans passed where an integer is expected; decimal digits
  outside ASCII in \<open>int()\<close>; a file system's own limit on offsets and exhausted memory;
  scapy's dissection, compiling and attaching the BPF program, the directory the watchdog's observer creates and schedules,
  FastAPI's and uvicorn's routing, the HTML page, two names of one file, and a scratch file longer
  than the reader's buffer, of which lines are parsed before the rest is decoded.
  The manual test under \<open>testdata\<close> only prints and is left out, as is the test path set-up.
\<close>

end
